(* ===== verification/Rust_Prelude.thy ===== *)
theory Rust_Prelude
  imports
    "HOL-Library.Word"
    "HOL-Library.Monad_Syntax"
begin

text \<open>
  What every component of the model shares: Rust's integers, slices and panics.

  A Rust function that can panic is an \<^typ>\<open>'a option\<close> valued function; \<open>None\<close> is the
  panic (an arithmetic overflow with overflow checks on, an index or a slice out of range, an
  \<open>unwrap\<close> of \<open>None\<close> or of \<open>Err\<close>, a failed \<open>assert!\<close>).  Values of type \<open>u64\<close> and \<open>usize\<close> (the
  target is a 64-bit one) are natural numbers, and every addition, subtraction and
  multiplication of the source goes through \<open>add64\<close>, \<open>sub64\<close> and \<open>mul64\<close>, which panic outside
  \<open>0 ..< 2 ^ 64\<close>.  Bytes, and the integers of a packet header on the wire, are words.
\<close>

named_theorems panic_simps \<open>when an operation that can panic returns\<close>

type_synonym u8 = "8 word"
type_synonym u64 = "64 word"
type_synonym usize = nat
type_synonym bytes = "u8 list"

section \<open>Checked arithmetic\<close>

abbreviation lim64 :: nat where
  "lim64 \<equiv> 18446744073709551616"

lemma lim64_eq: "lim64 = 2 ^ 64"
  by simp

definition chk64 :: "nat \<Rightarrow> nat option" where
  "chk64 n = (if n < lim64 then Some n else None)"

definition add64 :: "nat \<Rightarrow> nat \<Rightarrow> nat option" where
  "add64 a b = chk64 (a + b)"

definition sub64 :: "nat \<Rightarrow> nat \<Rightarrow> nat option" where
  "sub64 a b = (if b \<le> a then Some (a - b) else None)"

definition mul64 :: "nat \<Rightarrow> nat \<Rightarrow> nat option" where
  "mul64 a b = chk64 (a * b)"

lemma chk64_eq_Some [panic_simps]: "chk64 n = Some m \<longleftrightarrow> m = n \<and> n < lim64"
  by (auto simp: chk64_def)

lemma add64_eq_Some [panic_simps]: "add64 a b = Some c \<longleftrightarrow> c = a + b \<and> a + b < lim64"
  by (auto simp: add64_def chk64_def)

lemma sub64_eq_Some [panic_simps]: "sub64 a b = Some c \<longleftrightarrow> b \<le> a \<and> c = a - b"
  by (auto simp: sub64_def)

lemma mul64_eq_Some [panic_simps]: "mul64 a b = Some c \<longleftrightarrow> c = a * b \<and> a * b < lim64"
  by (auto simp: mul64_def chk64_def)

lemma add64_Some [simp]: "a + b < lim64 \<Longrightarrow> add64 a b = Some (a + b)"
  by (simp add: add64_def chk64_def)

lemma sub64_Some [simp]: "b \<le> a \<Longrightarrow> sub64 a b = Some (a - b)"
  by (simp add: sub64_def)

lemma mul64_Some [simp]: "a * b < lim64 \<Longrightarrow> mul64 a b = Some (a * b)"
  by (simp add: mul64_def chk64_def)

lemma add64_eq_None [panic_simps]: "add64 a b = None \<longleftrightarrow> lim64 \<le> a + b"
  by (auto simp: add64_def chk64_def)

lemma sub64_eq_None [panic_simps]: "sub64 a b = None \<longleftrightarrow> a < b"
  by (auto simp: sub64_def)

lemma mul64_eq_None [panic_simps]: "mul64 a b = None \<longleftrightarrow> lim64 \<le> a * b"
  by (auto simp: mul64_def chk64_def)

lemma add64_None [simp]: "lim64 \<le> a + b \<Longrightarrow> add64 a b = None"
  by (simp add: add64_def chk64_def)

lemma sub64_None [simp]: "a < b \<Longrightarrow> sub64 a b = None"
  by (simp add: sub64_def)

lemma mul64_None [simp]: "lim64 \<le> a * b \<Longrightarrow> mul64 a b = None"
  by (simp add: mul64_def chk64_def)

lemma add64_0 [simp]: "a < lim64 \<Longrightarrow> add64 a 0 = Some a"
  by simp

section \<open>Slices\<close>

text \<open>\<open>xs[a..b]\<close>, \<open>xs[a..]\<close>, \<open>xs[..b]\<close> and \<open>xs[i]\<close>, with their panics.\<close>

definition slice :: "'a list \<Rightarrow> nat \<Rightarrow> nat \<Rightarrow> 'a list option" where
  "slice xs a b = (if a \<le> b \<and> b \<le> length xs then Some (take (b - a) (drop a xs)) else None)"

definition slice_from :: "'a list \<Rightarrow> nat \<Rightarrow> 'a list option" where
  "slice_from xs a = (if a \<le> length xs then Some (drop a xs) else None)"

definition slice_to :: "'a list \<Rightarrow> nat \<Rightarrow> 'a list option" where
  "slice_to xs b = (if b \<le> length xs then Some (take b xs) else None)"

definition index :: "'a list \<Rightarrow> nat \<Rightarrow> 'a option" where
  "index xs i = (if i < length xs then Some (xs ! i) else None)"

text \<open>\<open>out[p..p + src.len()].copy_from_slice(src)\<close>.\<close>

definition copy_at :: "'a list \<Rightarrow> nat \<Rightarrow> 'a list \<Rightarrow> 'a list option" where
  "copy_at out p src =
     (if p + length src \<le> length out
      then Some (take p out @ src @ drop (p + length src) out) else None)"

lemma slice_eq_Some [panic_simps]:
  "slice xs a b = Some ys \<longleftrightarrow> a \<le> b \<and> b \<le> length xs \<and> ys = take (b - a) (drop a xs)"
  by (auto simp: slice_def)

lemma slice_from_eq_Some [panic_simps]:
  "slice_from xs a = Some ys \<longleftrightarrow> a \<le> length xs \<and> ys = drop a xs"
  by (auto simp: slice_from_def)

lemma slice_to_eq_Some [panic_simps]:
  "slice_to xs b = Some ys \<longleftrightarrow> b \<le> length xs \<and> ys = take b xs"
  by (auto simp: slice_to_def)

lemma index_eq_Some [panic_simps]: "index xs i = Some x \<longleftrightarrow> i < length xs \<and> x = xs ! i"
  by (auto simp: index_def)

lemma copy_at_eq_Some [panic_simps]:
  "copy_at out p src = Some out' \<longleftrightarrow>
     p + length src \<le> length out \<and> out' = take p out @ src @ drop (p + length src) out"
  by (auto simp: copy_at_def)

lemma slice_Some [simp]:
  "a \<le> b \<Longrightarrow> b \<le> length xs \<Longrightarrow> slice xs a b = Some (take (b - a) (drop a xs))"
  by (simp add: slice_def)

lemma slice_from_Some [simp]: "a \<le> length xs \<Longrightarrow> slice_from xs a = Some (drop a xs)"
  by (simp add: slice_from_def)

lemma slice_to_Some [simp]: "b \<le> length xs \<Longrightarrow> slice_to xs b = Some (take b xs)"
  by (simp add: slice_to_def)

lemma index_Some [simp]: "i < length xs \<Longrightarrow> index xs i = Some (xs ! i)"
  by (simp add: index_def)

lemma copy_at_Some [simp]:
  "p + length src \<le> length out \<Longrightarrow>
     copy_at out p src = Some (take p out @ src @ drop (p + length src) out)"
  by (simp add: copy_at_def)

lemma copy_at_length: "copy_at out p src = Some out' \<Longrightarrow> length out' = length out"
  by (auto simp: panic_simps)

section \<open>\<open>chunks\<close>\<close>

text \<open>
  \<open>slice::chunks(n)\<close>: consecutive pieces of \<open>n\<close> elements, the last one possibly shorter.
  \<open>chunks(0)\<close> panics; the source only calls it with the constant 1024.
\<close>

function chunks :: "nat \<Rightarrow> 'a list \<Rightarrow> 'a list list" where
  "chunks n xs = (if n = 0 \<or> xs = [] then [] else take n xs # chunks n (drop n xs))"
  by pat_completeness auto
termination
  by (relation "measure (length \<circ> snd)") auto

declare chunks.simps [simp del]

lemma chunks_Nil [simp]: "chunks n [] = []"
  by (simp add: chunks.simps)

lemma chunks_step: "0 < n \<Longrightarrow> xs \<noteq> [] \<Longrightarrow> chunks n xs = take n xs # chunks n (drop n xs)"
  by (subst chunks.simps) simp

lemma concat_chunks [simp]: "0 < n \<Longrightarrow> concat (chunks n xs) = xs"
proof (induction n xs rule: chunks.induct)
  case (1 n xs)
  then show ?case
    by (cases "xs = []") (simp_all add: chunks_step)
qed

lemma chunks_sizes:
  "0 < n \<Longrightarrow> c \<in> set (chunks n xs) \<Longrightarrow> c \<noteq> [] \<and> length c \<le> n"
proof (induction n xs rule: chunks.induct)
  case (1 n xs)
  then show ?case
    by (cases "xs = []") (auto simp: chunks_step)
qed

lemma sum_list_chunks: "0 < n \<Longrightarrow> sum_list (map length (chunks n xs)) = length xs"
  by (simp flip: length_concat)

section \<open>Big-endian integers\<close>

text \<open>
  \<open>u64::from_be_bytes\<close> on eight bytes, and its inverse \<open>to_be_bytes\<close>: the most significant
  byte comes first.
\<close>

definition be_bytes :: "nat \<Rightarrow> 'a::len word \<Rightarrow> bytes" where
  "be_bytes n w = map (\<lambda>i. ucast (drop_bit (8 * i) w)) (rev [0..<n])"

definition from_be_bytes :: "bytes \<Rightarrow> u64" where
  "from_be_bytes bs = word_rcat bs"

definition to_be_bytes :: "u64 \<Rightarrow> bytes" where
  "to_be_bytes w = be_bytes 8 w"

lemma length_be_bytes [simp]: "length (be_bytes n w) = n"
  by (simp add: be_bytes_def)

lemma bit_rcat_bytes: "bit (word_rcat (bs :: bytes) :: 'a::len word) n \<longleftrightarrow>
    n < LENGTH('a) \<and> n div 8 < length bs \<and> bit (rev bs ! (n div 8)) (n mod 8)"
  using bit_horner_sum_uint_exp_iff [of "rev bs" n]
  by (auto simp add: word_rcat_def bit_simps)

lemma rcat_be_bytes: "LENGTH('a) = 8 * n \<Longrightarrow> word_rcat (be_bytes n w) = (w :: 'a::len word)"
proof (rule bit_word_eqI)
  fix k assume "LENGTH('a) = 8 * n" "k < LENGTH('a)"
  then have "k div 8 < n" by auto
  then show "bit (word_rcat (be_bytes n w) :: 'a word) k = bit w k"
    using \<open>k < LENGTH('a)\<close> by (simp add: bit_rcat_bytes be_bytes_def rev_map bit_simps)
qed

lemma be_bytes_rcat:
  assumes "LENGTH('a) = 8 * n" and "length bs = n"
  shows "be_bytes n (word_rcat bs :: 'a::len word) = bs"
proof (rule nth_equalityI)
  fix i assume "i < length (be_bytes n (word_rcat bs :: 'a word))"
  then have i: "i < n" by simp
  show "be_bytes n (word_rcat bs :: 'a word) ! i = bs ! i"
  proof (rule bit_word_eqI)
    fix k assume k: "k < LENGTH(8)"
    let ?j = "n - Suc i"
    have "be_bytes n (word_rcat bs :: 'a word) ! i = ucast (drop_bit (8 * ?j) (word_rcat bs :: 'a word))"
      "bs ! i = rev bs ! ?j" using i assms by (simp_all add: be_bytes_def rev_nth)
    moreover have "(8 * ?j + k) div 8 = ?j" "(8 * ?j + k) mod 8 = k" "8 * ?j + k < 8 * n" "?j < n" using k i by auto
    ultimately show "bit (be_bytes n (word_rcat bs :: 'a word) ! i) k = bit (bs ! i) k"
      using k assms by (simp only:) (simp add: bit_simps bit_rcat_bytes)
  qed
qed (simp add: assms)

lemma length_to_be_bytes [simp]: "length (to_be_bytes w) = 8"
  by (simp add: to_be_bytes_def)

lemma from_to_be_bytes [simp]: "from_be_bytes (to_be_bytes w) = w"
  by (simp add: from_be_bytes_def to_be_bytes_def rcat_be_bytes)

lemma to_from_be_bytes: "length bs = 8 \<Longrightarrow> to_be_bytes (from_be_bytes bs) = bs"
  by (simp add: from_be_bytes_def to_be_bytes_def be_bytes_rcat)

lemma unat_of_nat_u64 [simp]: "n < lim64 \<Longrightarrow> unat (of_nat n :: u64) = n"
  by (simp add: unat_of_nat)

lemma unat_u64_less [simp]: "unat (w :: u64) < lim64"
  using unsigned_less [of w, where 'a = nat] by simp

end
