(* ===== verification/Errors.thy ===== *)
theory Errors
  imports Rust_Prelude
begin

text \<open>
  The crate's error type and \<open>Result\<close> (\<open>src/lib.rs\<close>), and the C error codes the FFI returns.  A
  function that returns \<open>Result<T>\<close> and mutates \<open>self\<close> is modelled by a pair of a \<open>result\<close> and the
  new state: an early \<open>return Err(..)\<close> or \<open>?\<close> keeps the changes made before it.
\<close>

section \<open>\<open>Error\<close>\<close>

datatype error =
    Done
  | BufferTooShort
  | UnknownVersion
  | InvalidFrame
  | InvalidPacket
  | InvalidState
  | InvalidStreamState nat
  | InvalidTransportParam
  | CryptoFail
  | TlsFail
  | FlowControl
  | StreamLimit
  | StreamStopped nat
  | StreamReset nat
  | FinalSize
  | CongestionControl
  | IdLimit
  | OutOfIdentifiers
  | Stopped

datatype 'a result = Ok 'a | Err error

fun to_c :: "error \<Rightarrow> int" where
  "to_c Done = -1"
| "to_c BufferTooShort = -2"
| "to_c UnknownVersion = -3"
| "to_c InvalidFrame = -4"
| "to_c InvalidPacket = -5"
| "to_c InvalidState = -6"
| "to_c (InvalidStreamState _) = -7"
| "to_c InvalidTransportParam = -8"
| "to_c CryptoFail = -9"
| "to_c TlsFail = -10"
| "to_c FlowControl = -11"
| "to_c StreamLimit = -12"
| "to_c FinalSize = -13"
| "to_c CongestionControl = -14"
| "to_c (StreamStopped _) = -15"
| "to_c (StreamReset _) = -16"
| "to_c IdLimit = -17"
| "to_c OutOfIdentifiers = -18"
| "to_c Stopped = -19"

text \<open>\<open>From<octets::BufferTooShortError>\<close>: a cursor operation's failure under \<open>?\<close>.\<close>

definition from_octets :: "'a option \<Rightarrow> 'a result" where
  "from_octets r = (case r of Some x \<Rightarrow> Ok x | None \<Rightarrow> Err BufferTooShort)"

lemma from_octets_simps [simp]:
  "from_octets (Some x) = Ok x" "from_octets None = Err BufferTooShort"
  by (simp_all add: from_octets_def)

section \<open>The codes seen from C\<close>

text \<open>The kind of an error: the error without the associated data that its code forgets.\<close>

fun error_kind :: "error \<Rightarrow> error" where
  "error_kind (InvalidStreamState _) = InvalidStreamState 0"
| "error_kind (StreamStopped _) = StreamStopped 0"
| "error_kind (StreamReset _) = StreamReset 0"
| "error_kind e = e"

lemma to_c_bounds: "-19 \<le> to_c e \<and> to_c e \<le> -1"
  by (cases e) simp_all

lemma to_c_kind: "to_c (error_kind e) = to_c e"
  by (cases e) simp_all

lemma to_c_eq_iff: "to_c e = to_c e' \<longleftrightarrow> error_kind e = error_kind e'"
  by (cases e; cases e') simp_all

end
