(* ===== verification/Octets.thy ===== *)
theory Octets
  imports Rust_Prelude
begin

text \<open>
  The cursor \<open>octets::OctetsMut\<close> of the third-party crate \<open>octets\<close>.  Its code is not part of the
  repository, so the model takes it as a parameter: a record of the operations the source calls,
  over an abstract cursor type.  The locale \<open>octets_spec\<close> states what the crate documents of
  them; \<open>list_octets\<close> is a cursor over a list that satisfies it.
\<close>

section \<open>The operations\<close>

record 'b octets =
  with_slice :: "bytes \<Rightarrow> 'b"
  get_u8 :: "'b \<Rightarrow> (u8 \<times> 'b) option"
  get_u64 :: "'b \<Rightarrow> (u64 \<times> 'b) option"
  put_u8 :: "u8 \<Rightarrow> 'b \<Rightarrow> 'b option"
  put_u64 :: "u64 \<Rightarrow> 'b \<Rightarrow> 'b option"
  oct_cap :: "'b \<Rightarrow> nat"
  oct_buf :: "'b \<Rightarrow> bytes"
  oct_off :: "'b \<Rightarrow> nat"

text \<open>
  \<open>None\<close> of a \<open>get\<close> or \<open>put\<close> is the crate's \<open>BufferTooShortError\<close>.  \<open>oct_buf\<close> is the slice the cursor
  borrows: what the caller's slice holds once the borrow ends.
\<close>

section \<open>What the crate documents\<close>

locale octets_spec =
  fixes oc :: "'b octets"
  assumes buf_with_slice: "oct_buf oc (with_slice oc xs) = xs"
    and off_with_slice: "oct_off oc (with_slice oc xs) = 0"
    and cap_eq: "oct_cap oc b = length (oct_buf oc b) - oct_off oc b"
    and get_u8_short: "oct_cap oc b < 1 \<Longrightarrow> get_u8 oc b = None"
    and get_u8_reads: "1 \<le> oct_cap oc b \<Longrightarrow>
      \<exists>b'. get_u8 oc b = Some (oct_buf oc b ! oct_off oc b, b') \<and>
           oct_buf oc b' = oct_buf oc b \<and> oct_off oc b' = oct_off oc b + 1"
    and get_u64_short: "oct_cap oc b < 8 \<Longrightarrow> get_u64 oc b = None"
    and get_u64_reads: "8 \<le> oct_cap oc b \<Longrightarrow>
      \<exists>b'. get_u64 oc b = Some (from_be_bytes (take 8 (drop (oct_off oc b) (oct_buf oc b))), b') \<and>
           oct_buf oc b' = oct_buf oc b \<and> oct_off oc b' = oct_off oc b + 8"
    and put_u8_short: "oct_cap oc b < 1 \<Longrightarrow> put_u8 oc v b = None"
    and put_u8_writes: "1 \<le> oct_cap oc b \<Longrightarrow>
      \<exists>b'. put_u8 oc v b = Some b' \<and>
           oct_buf oc b' = (oct_buf oc b)[oct_off oc b := v] \<and> oct_off oc b' = oct_off oc b + 1"
    and put_u64_short: "oct_cap oc b < 8 \<Longrightarrow> put_u64 oc w b = None"
    and put_u64_writes: "8 \<le> oct_cap oc b \<Longrightarrow>
      \<exists>b'. put_u64 oc w b = Some b' \<and>
           oct_buf oc b' = take (oct_off oc b) (oct_buf oc b) @ to_be_bytes w @ drop (oct_off oc b + 8) (oct_buf oc b) \<and>
           oct_off oc b' = oct_off oc b + 8"
begin

lemmas cursor_simps = buf_with_slice off_with_slice cap_eq

text \<open>
  A cursor seen as what it has passed and what is ahead: writing replaces bytes ahead of it and
  moves them behind it.
\<close>

lemma put_u8_split:
  assumes "oct_buf oc b = pre @ x # post" and "oct_off oc b = length pre"
  shows "\<exists>b'. put_u8 oc v b = Some b' \<and> oct_buf oc b' = (pre @ [v]) @ post \<and> oct_off oc b' = length (pre @ [v])"
  using put_u8_writes [of b v] assms by (auto simp: cap_eq)

lemma put_u64_split:
  assumes "oct_buf oc b = pre @ old @ post" and "length old = 8" and "oct_off oc b = length pre"
  shows "\<exists>b'. put_u64 oc w b = Some b' \<and> oct_buf oc b' = (pre @ to_be_bytes w) @ post \<and>
              oct_off oc b' = length (pre @ to_be_bytes w)"
  using put_u64_writes [of b w] assms by (auto simp: cap_eq)

lemma get_u8_split:
  assumes "oct_buf oc b = pre @ x # post" and "oct_off oc b = length pre"
  shows "\<exists>b'. get_u8 oc b = Some (x, b') \<and> oct_buf oc b' = (pre @ [x]) @ post \<and> oct_off oc b' = length (pre @ [x])"
  using get_u8_reads [of b] assms by (auto simp: cap_eq)

lemma get_u64_split:
  assumes "oct_buf oc b = pre @ w @ post" and "length w = 8" and "oct_off oc b = length pre"
  shows "\<exists>b'. get_u64 oc b = Some (from_be_bytes w, b') \<and> oct_buf oc b' = (pre @ w) @ post \<and>
              oct_off oc b' = length (pre @ w)"
  using get_u64_reads [of b] assms by (auto simp: cap_eq)

text \<open>No operation changes the length of the borrowed slice.\<close>

lemma put_u8_length: "put_u8 oc v b = Some b' \<Longrightarrow> length (oct_buf oc b') = length (oct_buf oc b)"
  using put_u8_short [of b v] put_u8_writes [of b v] by (cases "oct_cap oc b < 1") auto

lemma put_u64_length: "put_u64 oc w b = Some b' \<Longrightarrow> length (oct_buf oc b') = length (oct_buf oc b)"
  using put_u64_short [of b w] put_u64_writes [of b w]
  by (cases "oct_cap oc b < 8") (auto simp: cap_eq)

end

section \<open>Payloads as lists of words\<close>

definition words_of :: "bytes \<Rightarrow> u64 list" where
  "words_of xs = map from_be_bytes (chunks 8 xs)"

definition bytes_of :: "u64 list \<Rightarrow> bytes" where
  "bytes_of ws = concat (map to_be_bytes ws)"

lemma bytes_of_simps [simp]:
  "bytes_of [] = []" "bytes_of (w # ws) = to_be_bytes w @ bytes_of ws"
  by (simp_all add: bytes_of_def)

lemma length_bytes_of [simp]: "length (bytes_of ws) = 8 * length ws"
  by (induction ws) auto

lemma words_of_Nil [simp]: "words_of [] = []"
  by (simp add: words_of_def)

lemma words_of_append: "length x = 8 \<Longrightarrow> words_of (x @ xs) = from_be_bytes x # words_of xs"
  by (cases x) (auto simp: words_of_def chunks_step)

lemma words_of_bytes_of [simp]: "words_of (bytes_of ws) = ws"
  by (induction ws) (simp_all add: words_of_append)

section \<open>A cursor over a list\<close>

definition list_octets :: "(bytes \<times> nat) octets" where
  "list_octets = \<lparr>
     with_slice = (\<lambda>xs. (xs, 0)),
     get_u8 = (\<lambda>(xs, i). if length xs - i < 1 then None else Some (xs ! i, (xs, i + 1))),
     get_u64 = (\<lambda>(xs, i). if length xs - i < 8 then None
                else Some (from_be_bytes (take 8 (drop i xs)), (xs, i + 8))),
     put_u8 = (\<lambda>v (xs, i). if length xs - i < 1 then None else Some (xs[i := v], i + 1)),
     put_u64 = (\<lambda>w (xs, i). if length xs - i < 8 then None
                else Some (take i xs @ to_be_bytes w @ drop (i + 8) xs, i + 8)),
     oct_cap = (\<lambda>(xs, i). length xs - i),
     oct_buf = fst,
     oct_off = snd\<rparr>"

interpretation list_oc: octets_spec list_octets
  by unfold_locales (auto simp: list_octets_def)

end
