(* ===== verification/Collections.thy ===== *)
theory Collections
  imports Rust_Prelude "HOL-Library.AList"
begin

text \<open>
  The containers of Rust's standard library that the source uses.  A \<open>HashMap\<close> is an
  association list with distinct keys (its iteration order is not specified by Rust, so whatever
  iterates over one takes the order as a parameter), a \<open>BTreeMap\<close> an association list in
  strictly ascending key order (the order in which Rust iterates over it), a \<open>BTreeSet\<close> a
  strictly ascending list.  The locales \<open>rust_map\<close> and \<open>ordered_map\<close> are what the buffers and the
  connection rely on; both kinds of map are instances.
\<close>

section \<open>The map interface\<close>

locale rust_map =
  fixes empty :: "'m"
    and insert :: "'k \<Rightarrow> 'v \<Rightarrow> 'm \<Rightarrow> 'm"
    and get :: "'m \<Rightarrow> 'k \<Rightarrow> 'v option"
    and invar :: "'m \<Rightarrow> bool"
  assumes get_empty: "get empty = (\<lambda>_. None)"
    and get_insert: "invar m \<Longrightarrow> get (insert k v m) = (get m)(k := Some v)"
    and invar_empty: "invar empty"
    and invar_insert: "invar m \<Longrightarrow> invar (insert k v m)"
begin

text \<open>A run of insertions, as a loop of the source makes them.\<close>

lemma invar_inserts: "invar m \<Longrightarrow> invar (fold (\<lambda>(k, v). insert k v) kvs m)"
  by (induction kvs arbitrary: m) (auto simp: invar_insert)

lemma get_inserts:
  "invar m \<Longrightarrow> get (fold (\<lambda>(k, v). insert k v) kvs m) = get m ++ map_of (rev kvs)"
proof (induction kvs arbitrary: m)
  case Nil
  then show ?case by simp
next
  case (Cons kv kvs)
  then show ?case
    by (cases kv) (simp add: get_insert invar_insert map_add_def fun_eq_iff split: option.splits)
qed

lemma get_inserts_keys:
  assumes "invar m"
  shows "dom (get (fold (\<lambda>(k, v). insert k v) kvs m)) = dom (get m) \<union> fst ` set kvs"
  by (auto simp: get_inserts [OF assms] dom_map_of_conv_image_fst)

lemma get_inserts_fun:
  assumes "invar m"
  shows "get (fold (\<lambda>k. insert k (f k)) ks m) k = (if k \<in> set ks then Some (f k) else get m k)"
  using assms
  by (induction ks arbitrary: m) (auto simp: get_insert invar_insert)

end

locale ordered_map = rust_map empty insert get invar
  for empty :: "'m"
    and insert :: "'k::linorder \<Rightarrow> 'v \<Rightarrow> 'm \<Rightarrow> 'm"
    and get :: "'m \<Rightarrow> 'k \<Rightarrow> 'v option"
    and invar :: "'m \<Rightarrow> bool" +
  fixes entries :: "'m \<Rightarrow> ('k \<times> 'v) list"
  assumes entries_ascending: "invar m \<Longrightarrow> sorted_wrt (<) (map fst (entries m))"
    and entries_get: "invar m \<Longrightarrow> map_of (entries m) = get m"
begin

lemma entries_distinct: "invar m \<Longrightarrow> distinct (map fst (entries m))"
  using entries_ascending strict_sorted_iff by blast

lemma entries_mem: "invar m \<Longrightarrow> (k, v) \<in> set (entries m) \<longleftrightarrow> get m k = Some v"
  by (metis entries_distinct entries_get map_of_eq_Some_iff)

lemma entries_keys: "invar m \<Longrightarrow> fst ` set (entries m) = dom (get m)"
  by (metis dom_map_of_conv_image_fst entries_get)

text \<open>Two maps with the same contents iterate the same way.\<close>

lemma entries_unique:
  assumes "invar m" "invar m'" "get m = get m'"
  shows "entries m = entries m'"
proof -
  have "set (entries m) = set (entries m')"
    using assms entries_mem by (metis surj_pair subsetI subset_antisym)
  moreover have "sorted (map fst (entries x))" "distinct (map fst (entries x))" if "invar x" for x
    using entries_ascending [OF that] by (simp_all add: strict_sorted_iff)
  ultimately show ?thesis
    using assms(1,2)
    by (intro map_sorted_distinct_set_unique [where f = fst]) (simp_all add: distinct_map)
qed

end

section \<open>\<open>HashMap\<close>\<close>

type_synonym ('k, 'v) hash_map = "('k \<times> 'v) list"

abbreviation hm_get :: "('k, 'v) hash_map \<Rightarrow> 'k \<Rightarrow> 'v option" where
  "hm_get \<equiv> map_of"

definition hm_insert :: "'k \<Rightarrow> 'v \<Rightarrow> ('k, 'v) hash_map \<Rightarrow> ('k, 'v) hash_map" where
  "hm_insert k v m = AList.update k v m"

definition hm_contains_key :: "('k, 'v) hash_map \<Rightarrow> 'k \<Rightarrow> bool" where
  "hm_contains_key m k \<longleftrightarrow> map_of m k \<noteq> None"

definition hm_wf :: "('k, 'v) hash_map \<Rightarrow> bool" where
  "hm_wf m \<longleftrightarrow> distinct (map fst m)"

interpretation hm: rust_map "[]" hm_insert hm_get hm_wf
  by unfold_locales
    (auto simp: hm_wf_def hm_insert_def update_conv' distinct_update)

lemma set_hm_insert: "set (hm_insert k v m) \<subseteq> insert (k, v) (set m)"
  unfolding hm_insert_def by (induction m) auto

lemma hm_insert_all: "\<forall>x \<in> set m. P x \<Longrightarrow> P (k, v) \<Longrightarrow> \<forall>x \<in> set (hm_insert k v m). P x"
  using set_hm_insert [of k v m] by blast

lemma dom_hm_insert: "dom (hm_get (hm_insert k v m)) = insert k (dom (hm_get m))"
  by (simp add: hm_insert_def update_conv')

section \<open>\<open>BTreeMap\<close>\<close>

type_synonym ('k, 'v) btree_map = "('k \<times> 'v) list"

fun bt_insert :: "'k::linorder \<Rightarrow> 'v \<Rightarrow> ('k, 'v) btree_map \<Rightarrow> ('k, 'v) btree_map" where
  "bt_insert k v [] = [(k, v)]"
| "bt_insert k v ((k', v') # m) =
     (if k < k' then (k, v) # (k', v') # m
      else if k = k' then (k, v) # m
      else (k', v') # bt_insert k v m)"

abbreviation bt_get :: "('k, 'v) btree_map \<Rightarrow> 'k \<Rightarrow> 'v option" where
  "bt_get \<equiv> map_of"

text \<open>\<open>if let Some(x) = m.get_mut(&k) { *x = v; }\<close>: overwrite a key that is there.\<close>

definition bt_set :: "'k \<Rightarrow> 'v \<Rightarrow> ('k, 'v) btree_map \<Rightarrow> ('k, 'v) btree_map" where
  "bt_set k v m = map (\<lambda>(k', v'). if k' = k then (k', v) else (k', v')) m"

definition bt_wf :: "('k::linorder, 'v) btree_map \<Rightarrow> bool" where
  "bt_wf m \<longleftrightarrow> sorted_wrt (<) (map fst m)"

lemma keys_bt_insert [simp]: "fst ` set (bt_insert k v m) = insert k (fst ` set m)"
  by (induction m rule: bt_insert.induct) auto

lemma set_bt_insert: "set (bt_insert k v m) \<subseteq> insert (k, v) (set m)"
  by (induction k v m rule: bt_insert.induct) auto

lemma bt_wf_insert: "bt_wf m \<Longrightarrow> bt_wf (bt_insert k v m)"
  by (induction k v m rule: bt_insert.induct) (fastforce simp: bt_wf_def)+

lemma get_bt_insert: "bt_wf m \<Longrightarrow> bt_get (bt_insert k v m) = (bt_get m)(k \<mapsto> v)"
  by (induction k v m rule: bt_insert.induct) (auto simp: bt_wf_def fun_eq_iff)

interpretation bt: ordered_map "[]" bt_insert bt_get bt_wf "\<lambda>m. m"
  by unfold_locales (auto simp: get_bt_insert bt_wf_insert, simp_all add: bt_wf_def)

text \<open>A key above all others goes to the end: how the send buffer grows.\<close>

lemma bt_insert_last:
  "(\<And>x. x \<in> fst ` set m \<Longrightarrow> x < k) \<Longrightarrow> bt_insert k v m = m @ [(k, v)]"
  by (induction k v m rule: bt_insert.induct) (auto dest: less_asym)

lemma keys_bt_set [simp]: "map fst (bt_set k v m) = map fst m"
  by (auto simp: bt_set_def)

lemma bt_wf_set [simp]: "bt_wf (bt_set k v m) = bt_wf m"
  by (simp add: bt_wf_def)

lemma get_bt_set: "bt_get (bt_set k v m) k' = (if k' = k \<and> bt_get m k \<noteq> None then Some v else bt_get m k')"
  by (induction m) (auto simp: bt_set_def)

lemma length_bt_set [simp]: "length (bt_set k v m) = length m"
  by (simp add: bt_set_def)

section \<open>\<open>BTreeSet\<close>\<close>

fun bs_insert :: "'a::linorder \<Rightarrow> 'a list \<Rightarrow> 'a list" where
  "bs_insert x [] = [x]"
| "bs_insert x (y # ys) =
     (if x < y then x # y # ys else if x = y then y # ys else y # bs_insert x ys)"

text \<open>\<open>pop_last\<close>: the greatest element and the rest.\<close>

definition bs_pop_last :: "'a list \<Rightarrow> ('a \<times> 'a list) option" where
  "bs_pop_last s = (if s = [] then None else Some (last s, butlast s))"

definition bs_wf :: "'a::linorder list \<Rightarrow> bool" where
  "bs_wf s \<longleftrightarrow> sorted_wrt (<) s"

lemma set_bs_insert [simp]: "set (bs_insert x s) = insert x (set s)"
  by (induction x s rule: bs_insert.induct) auto

lemma bs_wf_insert: "bs_wf s \<Longrightarrow> bs_wf (bs_insert x s)"
  by (induction x s rule: bs_insert.induct) (fastforce simp: bs_wf_def)+

lemma bs_wf_butlast: "bs_wf s \<Longrightarrow> bs_wf (butlast s)"
  by (cases s rule: rev_cases) (auto simp: bs_wf_def sorted_wrt_append)

lemma bs_last_Max: "bs_wf s \<Longrightarrow> s \<noteq> [] \<Longrightarrow> last s = Max (set s)"
  by (cases s rule: rev_cases)
    (auto simp: bs_wf_def sorted_wrt_append intro!: Max_eqI [symmetric] dest: less_imp_le)

end
