(* ===== verification/Packet.thy ===== *)
theory Packet
  imports Errors Octets Collections
begin

text \<open>
  \<open>src/packet.rs\<close>: packet types, the packet header with its parser and printer, and the packet
  number spaces with their window of received offsets.
\<close>

section \<open>Packet types\<close>

datatype pkt_type =
    Retry
  | Handshake
  | Application
  | ElictAck
  | ACK
  | Stop
  | Fin
  | StartAck

instantiation pkt_type :: enum
begin

definition enum_pkt_type :: "pkt_type list" where
  "enum_pkt_type = [Retry, Handshake, Application, ElictAck, ACK, Stop, Fin, StartAck]"

definition enum_all_pkt_type :: "(pkt_type \<Rightarrow> bool) \<Rightarrow> bool" where
  "enum_all_pkt_type P \<longleftrightarrow> list_all P enum_class.enum"

definition enum_ex_pkt_type :: "(pkt_type \<Rightarrow> bool) \<Rightarrow> bool" where
  "enum_ex_pkt_type P \<longleftrightarrow> list_ex P enum_class.enum"

instance
proof
  show univ: "(UNIV :: pkt_type set) = set enum_class.enum"
    by (auto simp: enum_pkt_type_def intro: pkt_type.exhaust)
  show "distinct (enum_class.enum :: pkt_type list)"
    by (simp add: enum_pkt_type_def)
  show "enum_class.enum_all P \<longleftrightarrow> Ball UNIV P" for P :: "pkt_type \<Rightarrow> bool"
    by (simp add: enum_all_pkt_type_def univ list_all_iff)
  show "enum_class.enum_ex P \<longleftrightarrow> Bex UNIV P" for P :: "pkt_type \<Rightarrow> bool"
    by (simp add: enum_ex_pkt_type_def univ list_ex_iff)
qed

end

section \<open>The header\<close>

record header =
  hdr_ty :: pkt_type
  hdr_pkt_num :: u64
  hdr_priority :: u8
  hdr_offset :: u64
  hdr_pkt_length :: u64

text \<open>The first byte of a packet, in each direction.\<close>

definition type_of_byte :: "u8 \<Rightarrow> pkt_type" where
  "type_of_byte first =
     (if first = 1 then Retry
      else if first = 2 then Handshake
      else if first = 3 then Application
      else if first = 4 then ElictAck
      else if first = 5 then ACK
      else if first = 6 then Stop
      else if first = 7 then Fin
      else StartAck)"

definition byte_of_type :: "pkt_type \<Rightarrow> u8" where
  "byte_of_type t =
     (if t = Retry then 1
      else if t = Handshake then 2
      else if t = Application then 3
      else if t = ElictAck then 4
      else if t = ACK then 5
      else if t = Stop then 6
      else 7)"

definition Header_from_bytes :: "'b octets \<Rightarrow> 'b \<Rightarrow> header result" where
  "Header_from_bytes oc b =
     from_octets (do {
       (first, b) \<leftarrow> get_u8 oc b;
       let t = type_of_byte first;
       (second, b) \<leftarrow> get_u64 oc b;
       (third, b) \<leftarrow> get_u8 oc b;
       (forth, b) \<leftarrow> get_u64 oc b;
       (fifth, b) \<leftarrow> get_u64 oc b;
       Some \<lparr>hdr_ty = t, hdr_pkt_num = second, hdr_priority = third,
             hdr_offset = forth, hdr_pkt_length = fifth\<rparr>
     })"

definition Header_from_slice :: "'b octets \<Rightarrow> bytes \<Rightarrow> header result" where
  "Header_from_slice oc xs = Header_from_bytes oc (with_slice oc xs)"

text \<open>A failing \<open>put\<close> returns early and leaves the cursor where the puts before it took it.\<close>

definition Header_to_bytes :: "'b octets \<Rightarrow> header \<Rightarrow> 'b \<Rightarrow> unit result \<times> 'b" where
  "Header_to_bytes oc h b0 =
     (case put_u8 oc (byte_of_type (hdr_ty h)) b0 of None \<Rightarrow> (Err BufferTooShort, b0)
      | Some b1 \<Rightarrow>
     (case put_u64 oc (hdr_pkt_num h) b1 of None \<Rightarrow> (Err BufferTooShort, b1)
      | Some b2 \<Rightarrow>
     (case put_u8 oc (hdr_priority h) b2 of None \<Rightarrow> (Err BufferTooShort, b2)
      | Some b3 \<Rightarrow>
     (case put_u64 oc (hdr_offset h) b3 of None \<Rightarrow> (Err BufferTooShort, b3)
      | Some b4 \<Rightarrow>
     (case put_u64 oc (hdr_pkt_length h) b4 of None \<Rightarrow> (Err BufferTooShort, b4)
      | Some b5 \<Rightarrow> (Ok (), b5))))))"

definition Header_len :: "header \<Rightarrow> usize" where
  "Header_len h = 26"

section \<open>Packet number spaces\<close>

record pkt_num_window =
  priority_record :: "(nat, nat) hash_map"
  window_record :: "(nat, nat \<times> nat) hash_map" \<comment> \<open>the array \<open>[retrans, received]\<close>\<close>

record pkt_num_space =
  next_pkt_num :: nat
  recv_pkt_num :: pkt_num_window

definition PktNumWindow_default :: pkt_num_window where
  "PktNumWindow_default = \<lparr>priority_record = [], window_record = []\<rparr>"

definition PktNumSpace_new :: pkt_num_space where
  "PktNumSpace_new = \<lparr>next_pkt_num = 0, recv_pkt_num = PktNumWindow_default\<rparr>"

definition update_retrans :: "nat \<Rightarrow> nat \<Rightarrow> nat \<Rightarrow> pkt_num_window \<Rightarrow> pkt_num_window" where
  "update_retrans offs retrans received w =
     w\<lparr>window_record := hm_insert offs (retrans, received) (window_record w)\<rparr>"

definition additem :: "nat \<Rightarrow> nat \<Rightarrow> pkt_num_window \<Rightarrow> pkt_num_window" where
  "additem offs prio w =
     update_retrans offs prio 1
       (if offs mod 1024 = 0
        then w\<lparr>priority_record := hm_insert offs prio (priority_record w)\<rparr> else w)"

definition get_priority :: "nat \<Rightarrow> pkt_num_window \<Rightarrow> nat" where
  "get_priority offs w =
     (case hm_get (priority_record w) offs of Some p \<Rightarrow> p | None \<Rightarrow> 0)"

definition check_received :: "nat \<Rightarrow> bool \<Rightarrow> pkt_num_window \<Rightarrow> bool \<times> pkt_num_window" where
  "check_received offs sent w =
     (if \<not> sent then
        (case hm_get (window_record w) offs of
           Some (retrans, received) \<Rightarrow>
             if received = 1 then (True, w)
             else (False, if retrans > 0 then update_retrans offs (retrans - 1) received w
                          else update_retrans offs 0 1 w)
         | None \<Rightarrow>
             (let prio = get_priority (offs - offs mod 1024) w
              in (False, if prio = 0
                         then update_retrans offs 2 0 (additem (offs - offs mod 1024) 3 w)
                         else update_retrans offs (prio - 1) 0 w)))
      else
        (case hm_get (window_record w) offs of
           Some (retrans, received) \<Rightarrow> (received = 1, w)
         | None \<Rightarrow> (False, w)))"

definition get_retrans_times :: "nat \<Rightarrow> pkt_num_window \<Rightarrow> nat option" where
  "get_retrans_times offs w =
     (case hm_get (window_record w) offs of
        Some (retrans, recv) \<Rightarrow> if recv = 1 then Some 0 else add64 retrans 1
      | None \<Rightarrow> Some 0)"

definition update_item :: "nat \<Rightarrow> nat \<Rightarrow> pkt_num_window \<Rightarrow> pkt_num_window" where
  "update_item offs prio w =
     update_retrans offs prio 1
       (if offs mod 1024 = 0
        then w\<lparr>priority_record := hm_insert offs prio (priority_record w)\<rparr> else w)"

definition clear_record :: "pkt_num_window \<Rightarrow> pkt_num_window" where
  "clear_record w = w\<lparr>window_record := []\<rparr>"

section \<open>The wire format\<close>

text \<open>
  The reference codec: a header is 26 bytes, type, packet number, priority, offset, length, the
  integers most significant byte first.
\<close>

definition encode_header :: "header \<Rightarrow> bytes" where
  "encode_header h =
     byte_of_type (hdr_ty h) # to_be_bytes (hdr_pkt_num h) @ hdr_priority h #
     to_be_bytes (hdr_offset h) @ to_be_bytes (hdr_pkt_length h)"

definition decode_header :: "bytes \<Rightarrow> header" where
  "decode_header xs =
     \<lparr>hdr_ty = type_of_byte (xs ! 0),
      hdr_pkt_num = from_be_bytes (take 8 (drop 1 xs)),
      hdr_priority = xs ! 9,
      hdr_offset = from_be_bytes (take 8 (drop 10 xs)),
      hdr_pkt_length = from_be_bytes (take 8 (drop 18 xs))\<rparr>"

lemma length_encode_header [simp]: "length (encode_header h) = 26"
  by (simp add: encode_header_def)

lemma type_of_byte_of_type:
  "type_of_byte (byte_of_type t) = (if t = StartAck then Fin else t)"
  by (cases t) (simp_all add: type_of_byte_def byte_of_type_def)

lemma decode_encode_header:
  "decode_header (encode_header h @ rest) =
     h\<lparr>hdr_ty := if hdr_ty h = StartAck then Fin else hdr_ty h\<rparr>"
  by (cases h)
    (simp add: decode_header_def encode_header_def type_of_byte_of_type nth_append numeral_eq_Suc)

text \<open>A run of 26 bytes, cut where the header's fields are.\<close>

lemma header_fields_split:
  assumes "length xs = 26"
  obtains a p b q r where "xs = a # p @ b # q @ r" "length p = 8" "length q = 8" "length r = 8"
proof -
  have "xs = xs ! 0 # drop 1 xs" and "drop 9 xs = xs ! 9 # drop 10 xs"
    using assms Cons_nth_drop_Suc [of 0 xs] Cons_nth_drop_Suc [of 9 xs] by simp_all
  moreover have "drop 1 xs = take 8 (drop 1 xs) @ drop 9 xs"
    and "drop 10 xs = take 8 (drop 10 xs) @ drop 18 xs"
    using append_take_drop_id [of 8 "drop 1 xs"] append_take_drop_id [of 8 "drop 10 xs"]
    by simp_all
  ultimately have "xs = xs ! 0 # take 8 (drop 1 xs) @ xs ! 9 # take 8 (drop 10 xs) @ drop 18 xs"
    by metis
  then show thesis
    using assms by (intro that) auto
qed

context octets_spec
begin

lemma Header_to_bytes_split:
  assumes "oct_buf oc b = pre @ old @ post" and "length old = 26" and "oct_off oc b = length pre"
  shows "\<exists>b'. Header_to_bytes oc h b = (Ok (), b') \<and>
              oct_buf oc b' = (pre @ encode_header h) @ post \<and>
              oct_off oc b' = length (pre @ encode_header h)"
proof -
  obtain a p c q r where old: "old = a # p @ c # q @ r"
    and len: "length p = 8" "length q = 8" "length r = 8"
    using header_fields_split [OF assms(2)] by blast
  obtain b1 where 1: "put_u8 oc (byte_of_type (hdr_ty h)) b = Some b1"
      "oct_buf oc b1 = (pre @ [byte_of_type (hdr_ty h)]) @ p @ (c # q @ r @ post)"
      "oct_off oc b1 = length (pre @ [byte_of_type (hdr_ty h)])"
    using put_u8_split [of b pre a "p @ c # q @ r @ post"] assms old by auto
  obtain b2 where 2: "put_u64 oc (hdr_pkt_num h) b1 = Some b2"
      "oct_buf oc b2 = ((pre @ [byte_of_type (hdr_ty h)]) @ to_be_bytes (hdr_pkt_num h)) @ c # (q @ r @ post)"
      "oct_off oc b2 = length ((pre @ [byte_of_type (hdr_ty h)]) @ to_be_bytes (hdr_pkt_num h))"
    using put_u64_split [OF 1(2) len(1) 1(3)] by blast
  obtain b3 where 3: "put_u8 oc (hdr_priority h) b2 = Some b3"
      "oct_buf oc b3 = (((pre @ [byte_of_type (hdr_ty h)]) @ to_be_bytes (hdr_pkt_num h)) @ [hdr_priority h]) @ q @ (r @ post)"
      "oct_off oc b3 = length (((pre @ [byte_of_type (hdr_ty h)]) @ to_be_bytes (hdr_pkt_num h)) @ [hdr_priority h])"
    using put_u8_split [OF 2(2,3)] by blast
  obtain b4 where 4: "put_u64 oc (hdr_offset h) b3 = Some b4"
      "oct_buf oc b4 = ((((pre @ [byte_of_type (hdr_ty h)]) @ to_be_bytes (hdr_pkt_num h)) @ [hdr_priority h]) @ to_be_bytes (hdr_offset h)) @ r @ post"
      "oct_off oc b4 = length ((((pre @ [byte_of_type (hdr_ty h)]) @ to_be_bytes (hdr_pkt_num h)) @ [hdr_priority h]) @ to_be_bytes (hdr_offset h))"
    using put_u64_split [OF 3(2) len(2) 3(3)] by blast
  show ?thesis
    using put_u64_split [OF 4(2) len(3) 4(3), of "hdr_pkt_length h"] 1(1) 2(1) 3(1) 4(1)
    by (auto simp: Header_to_bytes_def encode_header_def)
qed

lemma Header_from_bytes_split:
  assumes "oct_buf oc b = pre @ xs @ post" and "length xs = 26" and "oct_off oc b = length pre"
  shows "Header_from_bytes oc b = Ok (decode_header xs)"
proof -
  obtain a p c q r where xs: "xs = a # p @ c # q @ r"
    and len: "length p = 8" "length q = 8" "length r = 8"
    using header_fields_split [OF assms(2)] by blast
  obtain b1 where 1: "get_u8 oc b = Some (a, b1)"
      "oct_buf oc b1 = (pre @ [a]) @ p @ (c # q @ r @ post)" "oct_off oc b1 = length (pre @ [a])"
    using get_u8_split [of b pre a "p @ c # q @ r @ post"] assms xs by auto
  obtain b2 where 2: "get_u64 oc b1 = Some (from_be_bytes p, b2)"
      "oct_buf oc b2 = ((pre @ [a]) @ p) @ c # (q @ r @ post)" "oct_off oc b2 = length ((pre @ [a]) @ p)"
    using get_u64_split [OF 1(2) len(1) 1(3)] by blast
  obtain b3 where 3: "get_u8 oc b2 = Some (c, b3)"
      "oct_buf oc b3 = (((pre @ [a]) @ p) @ [c]) @ q @ (r @ post)"
      "oct_off oc b3 = length (((pre @ [a]) @ p) @ [c])"
    using get_u8_split [OF 2(2,3)] by blast
  obtain b4 where 4: "get_u64 oc b3 = Some (from_be_bytes q, b4)"
      "oct_buf oc b4 = ((((pre @ [a]) @ p) @ [c]) @ q) @ r @ post"
      "oct_off oc b4 = length ((((pre @ [a]) @ p) @ [c]) @ q)"
    using get_u64_split [OF 3(2) len(2) 3(3)] by blast
  show ?thesis
    using get_u64_split [OF 4(2) len(3) 4(3)] 1(1) 2(1) 3(1) 4(1) len
    by (auto simp: Header_from_bytes_def decode_header_def xs nth_append)
qed

text \<open>The parser reads nothing but the first 26 bytes and needs all of them.\<close>

lemma Header_from_bytes_short:
  assumes "length (oct_buf oc b) - oct_off oc b < 26"
  shows "Header_from_bytes oc b = Err BufferTooShort"
proof -
  have u8: "get_u8 oc x = Some (v, y) \<Longrightarrow> 1 \<le> oct_cap oc x \<and> oct_cap oc y = oct_cap oc x - 1" for x v y
    using get_u8_short [of x] get_u8_reads [of x]
    by (cases "oct_cap oc x < 1") (auto simp: cap_eq)
  have u64: "get_u64 oc x = Some (v, y) \<Longrightarrow> 8 \<le> oct_cap oc x \<and> oct_cap oc y = oct_cap oc x - 8" for x v y
    using get_u64_short [of x] get_u64_reads [of x]
    by (cases "oct_cap oc x < 8") (auto simp: cap_eq)
  have "\<not> 26 \<le> oct_cap oc b" using assms by (simp add: cap_eq)
  then show ?thesis
    unfolding Header_from_bytes_def
    by (auto simp: from_octets_def Option.bind_eq_Some_conv Let_def split: option.splits
        dest!: u8 u64)
qed

lemma Header_from_slice_eq:
  "Header_from_slice oc xs =
     (if length xs < 26 then Err BufferTooShort else Ok (decode_header xs))"
proof (cases "length xs < 26")
  case True
  then show ?thesis
    by (simp add: Header_from_slice_def Header_from_bytes_short cursor_simps)
next
  case False
  then have "Header_from_slice oc xs = Ok (decode_header (take 26 xs))"
    unfolding Header_from_slice_def
    by (intro Header_from_bytes_split [where pre = "[]" and post = "drop 26 xs"])
      (simp_all add: cursor_simps)
  moreover have "decode_header (take 26 xs) = decode_header xs"
    using False by (simp add: decode_header_def drop_take min_def)
  ultimately show ?thesis using False by simp
qed

lemma Header_to_bytes_slice:
  assumes "26 \<le> length out"
  shows "\<exists>b'. Header_to_bytes oc h (with_slice oc out) = (Ok (), b') \<and>
              oct_buf oc b' = encode_header h @ drop 26 out \<and> oct_off oc b' = 26"
  using Header_to_bytes_split [where b = "with_slice oc out" and pre = "[]"
      and old = "take 26 out" and post = "drop 26 out" and h = h] assms
  by (simp add: cursor_simps)

end

section \<open>What the header codec guarantees\<close>

text \<open>
  (C13) \<open>Header::to_bytes\<close> followed by \<open>Header::from_slice\<close> gives back the header, for every packet
  type but \<open>StartAck\<close>, whatever else the 26 bytes or more of the output buffer held; the rest of
  the buffer keeps its bytes.
\<close>

theorem header_roundtrip:
  assumes "octets_spec oc" and "26 \<le> length out" and "hdr_ty h \<noteq> StartAck"
    and "Header_to_bytes oc h (with_slice oc out) = (r, b)"
  shows "r = Ok () \<and> Header_from_slice oc (oct_buf oc b) = Ok h \<and>
         drop 26 (oct_buf oc b) = drop 26 out"
proof -
  obtain b' where "Header_to_bytes oc h (with_slice oc out) = (Ok (), b')"
    and buf: "oct_buf oc b' = encode_header h @ drop 26 out"
    using octets_spec.Header_to_bytes_slice [OF assms(1,2)] by metis
  with assms(4) have rb: "r = Ok ()" "b' = b" by simp_all
  have "decode_header (oct_buf oc b) = h"
    using assms(3) buf rb by (simp add: decode_encode_header)
  then show ?thesis
    using rb buf by (simp add: octets_spec.Header_from_slice_eq [OF assms(1)])
qed

theorem header_roundtrip_witness:
  "let h = \<lparr>hdr_ty = ElictAck, hdr_pkt_num = 7, hdr_priority = 3, hdr_offset = 1024,
             hdr_pkt_length = 64\<rparr>;
       rb = Header_to_bytes list_octets h (with_slice list_octets (replicate 30 0))
   in fst rb = Ok () \<and> Header_from_slice list_octets (oct_buf list_octets (snd rb)) = Ok h"
  unfolding Let_def
  using header_roundtrip [where oc = list_octets and out = "replicate 30 0", OF list_oc.octets_spec_axioms
      _ _ prod.collapse [symmetric]]
  by simp

text \<open>
  (C17) \<open>Header::from_slice\<close> is the reference decoder: it fails with \<open>BufferTooShort\<close> exactly on
  fewer than 26 bytes, never with \<open>InvalidPacket\<close>, and otherwise reads the five fields at their
  fixed positions; every first byte outside 1 to 7 is taken for \<open>StartAck\<close>.
\<close>

theorem header_parse_total:
  assumes "octets_spec oc"
  shows "Header_from_slice oc xs =
           (if length xs < 26 then Err BufferTooShort else Ok (decode_header xs)) \<and>
         (26 \<le> length xs \<and> xs ! 0 \<notin> {1..7} \<longrightarrow>
            Header_from_slice oc xs = Ok ((decode_header xs)\<lparr>hdr_ty := StartAck\<rparr>))"
proof -
  have "decode_header xs = (decode_header xs)\<lparr>hdr_ty := StartAck\<rparr>" if "xs ! 0 \<notin> {1..7}"
    using that by (auto simp: decode_header_def type_of_byte_def)
  then show ?thesis
    by (auto simp: octets_spec.Header_from_slice_eq [OF assms])
qed

theorem header_parse_total_witness:
  "Header_from_slice list_octets (replicate 25 0) = Err BufferTooShort \<and>
   Header_from_slice list_octets (9 # replicate 25 0) =
     Ok ((decode_header (9 # replicate 25 0))\<lparr>hdr_ty := StartAck\<rparr>)"
  using header_parse_total [OF list_oc.octets_spec_axioms, of "replicate 25 0"]
    header_parse_total [OF list_oc.octets_spec_axioms, of "9 # replicate 25 0"]
  by auto

text \<open>
  A \<open>StartAck\<close> header does not survive the wire: \<open>to_bytes\<close> has no case for it and writes the
  byte of \<open>Fin\<close>, so the peer parses a \<open>Fin\<close> packet.
\<close>

lemma startack_reads_as_fin:
  assumes "octets_spec oc" and "26 \<le> length out" and "hdr_ty h = StartAck"
    and "Header_to_bytes oc h (with_slice oc out) = (r, b)"
  shows "Header_from_slice oc (oct_buf oc b) = Ok (h\<lparr>hdr_ty := Fin\<rparr>)"
proof -
  obtain b' where "Header_to_bytes oc h (with_slice oc out) = (Ok (), b')"
    and buf: "oct_buf oc b' = encode_header h @ drop 26 out"
    using octets_spec.Header_to_bytes_slice [OF assms(1,2)] by metis
  with assms(3,4) show ?thesis
    by (simp add: octets_spec.Header_from_slice_eq [OF assms(1)] decode_encode_header)
qed

section \<open>The retransmission budget\<close>

text \<open>Asking the window \<open>n\<close> times in a row whether a packet that never comes has been received.\<close>

fun recheck :: "nat \<Rightarrow> nat \<Rightarrow> pkt_num_window \<Rightarrow> bool list" where
  "recheck 0 offs w = []"
| "recheck (Suc n) offs w =
     (let (r, w') = check_received offs False w in r # recheck n offs w')"

lemma window_record_update_retrans [simp]:
  "hm_get (window_record (update_retrans offs r c w)) =
     (hm_get (window_record w))(offs \<mapsto> (r, c))"
  by (simp add: update_retrans_def hm_insert_def update_conv')

lemma recheck_received:
  "hm_get (window_record w) offs = Some (r, 1) \<Longrightarrow> recheck n offs w = replicate n True"
  by (induction n) (simp_all add: check_received_def)

lemma recheck_pending:
  "hm_get (window_record w) offs = Some (r, 0) \<Longrightarrow>
     recheck n offs w = replicate (min n (r + 1)) False @ replicate (n - (r + 1)) True"
proof (induction r arbitrary: n w)
  case 0
  then show ?case
    by (cases n) (simp_all add: check_received_def recheck_received)
next
  case (Suc r)
  then show ?case
    by (cases n) (simp_all add: check_received_def)
qed

text \<open>
  (C18) A missing packet is reported as not received a bounded number of times: once per unit of
  the priority of its 1024-byte block (3 when no priority is recorded) and once more; from then
  on it is reported as received, so the sender stops retransmitting it.
\<close>

theorem retransmission_budget:
  assumes "hm_get (window_record w) offs = None"
    and "p = (if get_priority (offs - offs mod 1024) w = 0 then 3
              else get_priority (offs - offs mod 1024) w)"
  shows "recheck n offs w = replicate (min n (p + 1)) False @ replicate (n - (p + 1)) True"
proof (cases n)
  case 0
  then show ?thesis by simp
next
  case (Suc m)
  have "0 < p" using assms(2) by simp
  define w' where "w' = snd (check_received offs False w)"
  have first: "check_received offs False w = (False, w')"
    and rec: "hm_get (window_record w') offs = Some (p - 1, 0)"
    using assms by (auto simp: check_received_def w'_def Let_def)
  have "recheck n offs w = False # replicate (min m p) False @ replicate (m - p) True"
    using recheck_pending [OF rec, of m] \<open>0 < p\<close> by (simp add: Suc first)
  then show ?thesis by (simp add: Suc)
qed

theorem retransmission_budget_witness:
  "recheck 6 1500 PktNumWindow_default = replicate 4 False @ replicate 2 True"
  using retransmission_budget [of PktNumWindow_default 1500 3 6]
  by (simp add: PktNumWindow_default_def get_priority_def)

end
