(* ===== verification/Config.thy ===== *)
theory Config
  imports Errors
begin

text \<open>
  The configuration shared by connections (\<open>Config\<close> of \<open>src/lib.rs\<close>), the choice of the congestion
  control algorithm (\<open>CongestionControlAlgorithm\<close> of \<open>src/recovery/mod.rs\<close>) and the socket
  addresses a connection is opened with.
\<close>

datatype cc_algorithm = NEWCUBIC

definition cc_from_str :: "string \<Rightarrow> cc_algorithm result" where
  "cc_from_str name = (if name = ''newcubic'' then Ok NEWCUBIC else Err CongestionControl)"

definition MIN_CLIENT_INITIAL_LEN :: usize where
  "MIN_CLIENT_INITIAL_LEN = 1350"

definition MAX_SEND_UDP_PAYLOAD_SIZE :: usize where
  "MAX_SEND_UDP_PAYLOAD_SIZE = 1350"

record config =
  cc_algorithm :: cc_algorithm
  max_send_udp_payload_size :: usize
  max_idle_timeout :: nat

definition Config_new :: "config result" where
  "Config_new = Ok \<lparr>cc_algorithm = NEWCUBIC,
                    max_send_udp_payload_size = MAX_SEND_UDP_PAYLOAD_SIZE,
                    max_idle_timeout = 5000\<rparr>"

definition set_max_idle_timeout :: "nat \<Rightarrow> config \<Rightarrow> config" where
  "set_max_idle_timeout v c = c\<lparr>max_idle_timeout := v\<rparr>"

definition set_cc_algorithm_name :: "string \<Rightarrow> config \<Rightarrow> unit result \<times> config" where
  "set_cc_algorithm_name name c =
     (case cc_from_str name of
        Ok a \<Rightarrow> (Ok (), c\<lparr>cc_algorithm := a\<rparr>)
      | Err e \<Rightarrow> (Err e, c))"

definition set_cc_algorithm :: "cc_algorithm \<Rightarrow> config \<Rightarrow> config" where
  "set_cc_algorithm algo c = c\<lparr>cc_algorithm := algo\<rparr>"

text \<open>\<open>std::net::SocketAddr\<close>: an IPv4 or IPv6 address with its port.\<close>

datatype socket_addr =
    SocketAddrV4 "32 word" "16 word"
  | SocketAddrV6 "128 word" "16 word" "32 word" "32 word"

record send_info =
  send_from :: socket_addr
  send_to :: socket_addr

record recv_info =
  recv_from :: socket_addr
  recv_to :: socket_addr

text \<open>
  The only algorithm name that is accepted is \<open>newcubic\<close>; every other name, the \<open>NEWCUBIC\<close> of
  the documentation's example and its \<open>cubic\<close> included, is refused with \<open>CongestionControl\<close> and
  leaves the configuration as it was.
\<close>

lemma cc_algorithm_names:
  "set_cc_algorithm_name name c =
     (if name = ''newcubic'' then (Ok (), c\<lparr>cc_algorithm := NEWCUBIC\<rparr>)
      else (Err CongestionControl, c)) \<and>
   set_cc_algorithm_name ''NEWCUBIC'' c = (Err CongestionControl, c) \<and>
   set_cc_algorithm_name ''cubic'' c = (Err CongestionControl, c)"
  by (simp add: set_cc_algorithm_name_def cc_from_str_def)

end
