(* ===== verification/Ieee.thy ===== *)
theory Ieee
  imports Complex_Main Rust_Prelude
begin

text \<open>
  The \<open>f32\<close> and \<open>f64\<close> arithmetic of the source: IEEE 754 binary32 and binary64 with
  round-to-nearest, ties to even.  A value is \<open>NaN\<close>, an infinity or a finite number given
  exactly as a rational; every operation computes exactly and rounds once.  The two zeros are
  one value here: nothing the source does with a float (\<open>+\<close>, \<open>-\<close>, \<open>*\<close>, comparisons, casts to
  integers, division by a count) tells them apart.  \<open>f64_powi\<close> multiplies by repeated squaring, as
  the compiler's run-time routine does.
\<close>

datatype fl = NaN | PInf | NInf | Fin rat

section \<open>Rounding\<close>

text \<open>Powers of two and bit lengths on \<open>int\<close>, by halving, so that rounding evaluates.\<close>

function pow2 :: "int \<Rightarrow> int" where
  "pow2 e = (if e \<le> 0 then 1
             else if even e then (let h = pow2 (e div 2) in h * h) else 2 * pow2 (e - 1))"
  by pat_completeness auto
termination
  by (relation "measure nat") auto

function blen :: "int \<Rightarrow> int" where
  "blen n = (if n \<le> 0 then 0 else 1 + blen (n div 2))"
  by pat_completeness auto
termination
  by (relation "measure nat") auto

declare pow2.simps [simp del] blen.simps [simp del]

lemma pow2_eq: "pow2 e = 2 ^ nat e"
proof (induction e rule: pow2.induct)
  case (1 e)
  consider "e \<le> 0" | "0 < e" "even e" | "0 < e" "odd e" by linarith
  then show ?case
  proof cases
    case 2
    then have "nat e = nat (e div 2) + nat (e div 2)" by (auto elim!: evenE simp: nat_mult_distrib)
    with 2 1 show ?thesis by (subst pow2.simps) (simp add: Let_def power_add)
  next
    case 3
    then have "nat e = Suc (nat (e - 1))" by simp
    with 3 1 show ?thesis by (subst pow2.simps) simp
  qed (simp add: pow2.simps)
qed

definition pw2 :: "int \<Rightarrow> rat" where
  "pw2 e = (if 0 \<le> e then of_int (pow2 e) else 1 / of_int (pow2 (- e)))"

text \<open>The exponent of a positive number: \<open>pw2 e \<le> x < pw2 (e + 1)\<close>.\<close>

definition ilog2 :: "rat \<Rightarrow> int" where
  "ilog2 x = (let (n, d) = quotient_of x; e = blen n - blen d
              in if pw2 e \<le> x then e else e - 1)"

definition round_even :: "rat \<Rightarrow> int" where
  "round_even x = (let f = \<lfloor>x\<rfloor>; r = x - of_int f
                   in if r < 1 / 2 then f else if 1 / 2 < r then f + 1
                      else if even f then f else f + 1)"

text \<open>
  Rounding to \<open>p\<close> significant bits, with \<open>pw2 qmin\<close> the smallest positive number and overflow
  from \<open>pw2 emax\<close> on.
\<close>

definition rnd :: "nat \<Rightarrow> int \<Rightarrow> int \<Rightarrow> rat \<Rightarrow> fl" where
  "rnd p qmin emax x =
     (if x = 0 then Fin 0
      else let q = max (ilog2 \<bar>x\<bar> - int p + 1) qmin; y = of_int (round_even (x / pw2 q)) * pw2 q
           in if pw2 emax \<le> y then PInf else if y \<le> - pw2 emax then NInf else Fin y)"

definition rnd32 :: "rat \<Rightarrow> fl" where
  "rnd32 = rnd 24 (-149) 128"

definition rnd64 :: "rat \<Rightarrow> fl" where
  "rnd64 = rnd 53 (-1074) 1024"

section \<open>Operations\<close>

fun fl_neg :: "fl \<Rightarrow> fl" where
  "fl_neg NaN = NaN"
| "fl_neg PInf = NInf"
| "fl_neg NInf = PInf"
| "fl_neg (Fin x) = Fin (- x)"

fun fl_add :: "(rat \<Rightarrow> fl) \<Rightarrow> fl \<Rightarrow> fl \<Rightarrow> fl" where
  "fl_add rd (Fin x) (Fin y) = rd (x + y)"
| "fl_add rd NaN _ = NaN"
| "fl_add rd _ NaN = NaN"
| "fl_add rd PInf NInf = NaN"
| "fl_add rd NInf PInf = NaN"
| "fl_add rd PInf _ = PInf"
| "fl_add rd _ PInf = PInf"
| "fl_add rd NInf _ = NInf"
| "fl_add rd _ NInf = NInf"

definition fl_sub :: "(rat \<Rightarrow> fl) \<Rightarrow> fl \<Rightarrow> fl \<Rightarrow> fl" where
  "fl_sub rd a b = fl_add rd a (fl_neg b)"

fun fl_sgn :: "fl \<Rightarrow> int" where
  "fl_sgn NaN = 0"
| "fl_sgn PInf = 1"
| "fl_sgn NInf = -1"
| "fl_sgn (Fin x) = (if 0 < x then 1 else if x < 0 then -1 else 0)"

definition fl_inf :: "int \<Rightarrow> fl" where
  "fl_inf s = (if 0 < s then PInf else if s < 0 then NInf else NaN)"

fun fl_mul :: "(rat \<Rightarrow> fl) \<Rightarrow> fl \<Rightarrow> fl \<Rightarrow> fl" where
  "fl_mul rd (Fin x) (Fin y) = rd (x * y)"
| "fl_mul rd NaN _ = NaN"
| "fl_mul rd _ NaN = NaN"
| "fl_mul rd a b = fl_inf (fl_sgn a * fl_sgn b)"

text \<open>A zero divisor is taken as positive, as the cast of an integer count is.\<close>

fun fl_div :: "(rat \<Rightarrow> fl) \<Rightarrow> fl \<Rightarrow> fl \<Rightarrow> fl" where
  "fl_div rd (Fin x) (Fin y) = (if y = 0 then fl_inf (fl_sgn (Fin x)) else rd (x / y))"
| "fl_div rd (Fin x) PInf = Fin 0"
| "fl_div rd (Fin x) NInf = Fin 0"
| "fl_div rd PInf (Fin y) = (if y < 0 then NInf else PInf)"
| "fl_div rd NInf (Fin y) = (if y < 0 then PInf else NInf)"
| "fl_div rd _ _ = NaN"

fun fl_lt :: "fl \<Rightarrow> fl \<Rightarrow> bool" where
  "fl_lt (Fin x) (Fin y) = (x < y)"
| "fl_lt NaN _ = False"
| "fl_lt _ NaN = False"
| "fl_lt NInf b = (b \<noteq> NInf)"
| "fl_lt PInf b = False"
| "fl_lt (Fin x) PInf = True"
| "fl_lt (Fin x) NInf = False"

definition fl_eq :: "fl \<Rightarrow> fl \<Rightarrow> bool" where
  "fl_eq a b \<longleftrightarrow> a \<noteq> NaN \<and> a = b"

text \<open>\<open>x as usize\<close>: towards zero, saturating, \<open>NaN\<close> to 0.\<close>

fun fl_to_usize :: "fl \<Rightarrow> nat" where
  "fl_to_usize NaN = 0"
| "fl_to_usize NInf = 0"
| "fl_to_usize PInf = lim64 - 1"
| "fl_to_usize (Fin x) = min (nat \<lfloor>x\<rfloor>) (lim64 - 1)"

text \<open>\<open>n as f64\<close>, and \<open>x.powi(n)\<close> on \<open>f64\<close>.\<close>

definition f64_of_nat :: "nat \<Rightarrow> fl" where
  "f64_of_nat n = rnd64 (of_nat n)"

function powi_loop :: "int \<Rightarrow> fl \<Rightarrow> fl \<Rightarrow> fl" where
  "powi_loop n a r =
     (if n \<le> 0 then r
      else let r' = (if odd n then fl_mul rnd64 r a else r)
           in if n div 2 = 0 then r' else powi_loop (n div 2) (fl_mul rnd64 a a) r')"
  by pat_completeness auto
termination
  by (relation "measure (nat \<circ> fst)") auto

declare powi_loop.simps [simp del]

definition f64_powi :: "fl \<Rightarrow> int \<Rightarrow> fl" where
  "f64_powi x n = powi_loop n x (Fin 1)"

section \<open>Signs survive rounding\<close>

text \<open>No comparison calls the value negative, or positive; \<open>NaN\<close> is both.\<close>

definition notneg :: "fl \<Rightarrow> bool" where
  "notneg a \<longleftrightarrow> \<not> fl_lt a (Fin 0)"

definition notpos :: "fl \<Rightarrow> bool" where
  "notpos a \<longleftrightarrow> \<not> fl_lt (Fin 0) a"

lemma sign_simps [simp]:
  "notneg NaN" "notpos NaN" "notneg PInf" "\<not> notpos PInf" "\<not> notneg NInf" "notpos NInf"
  "notneg (Fin x) \<longleftrightarrow> 0 \<le> x" "notpos (Fin x) \<longleftrightarrow> x \<le> 0"
  by (auto simp: notneg_def notpos_def)

lemma pw2_pos: "0 < pw2 e"
  by (simp add: pw2_def pow2_eq)

lemma round_even_sign: "0 \<le> x \<Longrightarrow> 0 \<le> round_even x" "x \<le> 0 \<Longrightarrow> round_even x \<le> 0"
  by (auto simp: round_even_def Let_def)

lemma rnd64_sign: "0 \<le> x \<Longrightarrow> notneg (rnd64 x)" "x \<le> 0 \<Longrightarrow> notpos (rnd64 x)"
proof -
  define q where "q = max (ilog2 \<bar>x\<bar> - 52) (- 1074)"
  define y where "y = of_int (round_even (x / pw2 q)) * pw2 q"
  have r: "rnd64 x = (if x = 0 then Fin 0 else if pw2 1024 \<le> y then PInf else if y \<le> - pw2 1024 then NInf else Fin y)"
    by (simp add: rnd64_def rnd_def y_def q_def Let_def)
  show "notneg (rnd64 x)" if "0 \<le> x"
  proof -
    have "0 \<le> y" using round_even_sign(1) [of "x / pw2 q"] that pw2_pos [of q] by (simp add: y_def)
    then show ?thesis using pw2_pos [of 1024] by (simp add: r)
  qed
  show "notpos (rnd64 x)" if "x \<le> 0"
  proof -
    have "y \<le> 0" using round_even_sign(2) [of "x / pw2 q"] that pw2_pos [of q]
      by (simp add: y_def divide_nonpos_pos mult_nonpos_nonneg)
    then show ?thesis using pw2_pos [of 1024] by (simp add: r)
  qed
qed

lemma mul_sign:
  "notneg a \<Longrightarrow> notneg b \<Longrightarrow> notneg (fl_mul rnd64 a b)" "notpos a \<Longrightarrow> notpos b \<Longrightarrow> notneg (fl_mul rnd64 a b)"
  "notneg a \<Longrightarrow> notpos b \<Longrightarrow> notpos (fl_mul rnd64 a b)" "notpos a \<Longrightarrow> notneg b \<Longrightarrow> notpos (fl_mul rnd64 a b)"
  by (cases a; cases b; simp add: fl_inf_def rnd64_sign mult_nonpos_nonpos mult_nonneg_nonpos mult_nonpos_nonneg)+

lemma div_sign:
  "notneg a \<Longrightarrow> notneg b \<Longrightarrow> notneg (fl_div rnd64 a b)" "notpos a \<Longrightarrow> notneg b \<Longrightarrow> notpos (fl_div rnd64 a b)"
  by (cases a; cases b; simp add: fl_inf_def rnd64_sign divide_nonpos_nonneg)+

lemma neg_sign: "notneg a \<Longrightarrow> notpos (fl_neg a)" "notpos a \<Longrightarrow> notneg (fl_neg a)"
  by (cases a; simp)+

lemma sub_sign: "fl_lt a b \<Longrightarrow> notpos (fl_sub rnd64 a b)" "\<not> fl_lt a b \<Longrightarrow> notneg (fl_sub rnd64 a b)"
  by (cases a; cases b; simp add: fl_sub_def rnd64_sign)+

lemma cube_eq: "f64_powi a 3 = fl_mul rnd64 (fl_mul rnd64 (Fin 1) a) (fl_mul rnd64 a a)"
  by (simp add: f64_powi_def powi_loop.simps [of 3] powi_loop.simps [of 1] Let_def)

lemma cube_sign: "notneg a \<Longrightarrow> notneg (f64_powi a 3)" "notpos a \<Longrightarrow> notpos (f64_powi a 3)"
  by (simp_all add: cube_eq mul_sign)

end
