(* ===== verification/Window.thy ===== *)
theory Window
  imports Ieee
begin

text \<open>
  The contract of a window controller: acknowledgements report a loss weight and a number of
  packets, each report is worth a signed number of bytes, and at the start of a round the window is
  twice what was gained less what was lost since the last round, but never less than eight packets.
  \<open>Recovery\<close> and \<open>Recovery_V1\<close> interpret it on the two versions of the controller.
\<close>

section \<open>Reports\<close>

text \<open>A signed number of bytes, as the source adds it to one of two counters.\<close>

definition gained :: "fl \<Rightarrow> usize" where
  "gained x = (if fl_lt (Fin 0) x then fl_to_usize x else 0)"

definition forfeited :: "fl \<Rightarrow> usize" where
  "forfeited x = (if fl_lt (Fin 0) x then 0 else fl_to_usize (fl_neg x))"

lemma gained_notpos: "notpos x \<Longrightarrow> gained x = 0"
  by (simp add: gained_def notpos_def)

lemma forfeited_notneg: "notneg x \<Longrightarrow> forfeited x = 0"
  by (cases x) (simp_all add: forfeited_def)

primrec reports :: "(fl \<Rightarrow> fl \<Rightarrow> 's \<Rightarrow> 's option) \<Rightarrow> (fl \<times> fl) list \<Rightarrow> 's \<Rightarrow> 's option" where
  "reports upd [] s = Some s"
| "reports upd (x # xs) s = do { s \<leftarrow> upd (fst x) (snd x) s; reports upd xs s }"

definition worth :: "(fl \<Rightarrow> usize) \<Rightarrow> (fl \<Rightarrow> fl \<Rightarrow> fl) \<Rightarrow> (fl \<times> fl) list \<Rightarrow> nat" where
  "worth f v xs = (\<Sum>x \<leftarrow> xs. f (v (fst x) (snd x)))"

lemma worth_simps [simp]:
  "worth f v [] = 0" "worth f v (x # xs) = f (v (fst x) (snd x)) + worth f v xs"
  by (simp_all add: worth_def)

lemma worth_const: "(\<And>x. x \<in> set xs \<Longrightarrow> f (v (fst x) (snd x)) = n) \<Longrightarrow> worth f v xs = n * length xs"
  by (induction xs) simp_all

section \<open>The contract\<close>

locale window_controller =
  fixes credit :: "'s \<Rightarrow> fl \<Rightarrow> fl \<Rightarrow> fl"
    and upd :: "fl \<Rightarrow> fl \<Rightarrow> 's \<Rightarrow> 's option"
    and next_window :: "'s \<Rightarrow> (usize \<times> 's) option"
    and inc :: "'s \<Rightarrow> usize" and dec :: "'s \<Rightarrow> usize" and win :: "'s \<Rightarrow> usize"
  assumes upd_Some: "upd w n s = Some s' \<Longrightarrow>
      inc s' = inc s + gained (credit s w n) \<and> dec s' = dec s + forfeited (credit s w n) \<and>
      win s' = win s \<and> credit s' = credit s"
    and upd_None: "inc s < lim64 \<Longrightarrow> dec s < lim64 \<Longrightarrow> upd w n s = None \<longleftrightarrow>
      lim64 \<le> inc s + gained (credit s w n) \<or> lim64 \<le> dec s + forfeited (credit s w n)"
    and next_window_Some: "next_window s = Some (x, s') \<Longrightarrow>
      x = max 9600 (2 * inc s - dec s) \<and> win s' = x \<and> inc s' = 0 \<and> dec s' = 0 \<and> credit s' = credit s"
    and next_window_None: "next_window s = None \<longleftrightarrow> lim64 \<le> 2 * inc s"
begin

lemma reports_Some:
  "reports upd xs s = Some s' \<Longrightarrow>
     inc s' = inc s + worth gained (credit s) xs \<and> dec s' = dec s + worth forfeited (credit s) xs \<and>
     win s' = win s \<and> credit s' = credit s"
proof (induction xs arbitrary: s)
  case (Cons x xs)
  then obtain s1 where "upd (fst x) (snd x) s = Some s1" "reports upd xs s1 = Some s'"
    by (auto simp: bind_eq_Some_conv)
  with upd_Some [OF this(1)] Cons.IH [of s1] show ?case by simp
qed simp

lemma reports_None:
  assumes "inc s < lim64" and "dec s < lim64"
  shows "reports upd xs s = None \<longleftrightarrow>
     lim64 \<le> inc s + worth gained (credit s) xs \<or> lim64 \<le> dec s + worth forfeited (credit s) xs"
  using assms
proof (induction xs arbitrary: s)
  case (Cons x xs)
  show ?case
  proof (cases "upd (fst x) (snd x) s")
    case None
    with upd_None [OF Cons.prems, of "fst x" "snd x"] show ?thesis by (simp add: None) linarith
  next
    case (Some s1)
    have "inc s1 < lim64" "dec s1 < lim64"
      using upd_Some [OF Some] upd_None [OF Cons.prems, of "fst x" "snd x"] Some by auto
    with Cons.IH [OF this] upd_Some [OF Some] Some show ?thesis by (simp add: add.assoc)
  qed
qed simp

text \<open>The window after any reports, and exactly when computing it panics.\<close>

lemma window_after_reports:
  assumes "inc s < lim64" and "dec s < lim64"
  shows "map_option fst (Option.bind (reports upd xs s) next_window) =
     (let up = inc s + worth gained (credit s) xs; down = dec s + worth forfeited (credit s) xs
      in if 2 * up < lim64 \<and> down < lim64 then Some (max 9600 (2 * up - down)) else None)"
proof (cases "reports upd xs s")
  case None
  with reports_None [OF assms, of xs] show ?thesis by (simp add: None Let_def) linarith
next
  case (Some s')
  with reports_None [OF assms, of xs] have d: "dec s + worth forfeited (credit s) xs < lim64" by auto
  note r = reports_Some [OF Some]
  show ?thesis
  proof (cases "next_window s'")
    case None
    with next_window_None [of s'] r Some show ?thesis by (auto simp: Let_def)
  next
    case (Some y)
    obtain x s'' where "next_window s' = Some (x, s'')" using Some by (cases y) simp
    with next_window_Some [OF this] next_window_None [of s'] r d \<open>reports upd xs s = Some s'\<close>
    show ?thesis by (auto simp: Let_def)
  qed
qed

end

end
