(* ===== verification/Recovery.thy ===== *)
theory Recovery
  imports Config Window Collections
begin

text \<open>
  \<open>src/recovery/mod.rs\<close> and \<open>src/recovery/NewCubic.rs\<close>: the congestion controller.  Acknowledgements
  feed window increments and decrements into \<open>update_win\<close>; \<open>cwnd\<close> turns them into the window of
  the next round, \<open>rollback\<close> returns to an earlier window.  A \<open>Duration\<close> is its number of
  nanoseconds, an \<open>Instant\<close> the time since some epoch.
\<close>

type_synonym duration = nat
type_synonym instant = nat

section \<open>State\<close>

definition INITIAL_RTT :: duration where "INITIAL_RTT = 333000000"
definition INITIAL_WINDOW_PACKETS :: usize where "INITIAL_WINDOW_PACKETS = 8"
definition ELICT_ACK_CONSTANT :: usize where "ELICT_ACK_CONSTANT = 8"
definition MINIMUM_WINDOW_PACKETS :: usize where "MINIMUM_WINDOW_PACKETS = 2"
definition INI_WIN :: usize where "INI_WIN = 1200 * 8"
definition PACKET_SIZE :: usize where "PACKET_SIZE = 1200"

record prior_state =
  prior_congestion_window :: usize
  prior_w_max :: fl
  prior_k :: fl
  prior_lost_count :: usize

record cubic_state =
  cub_k :: fl
  cub_w_max :: fl
  cub_prior :: prior_state

definition State_default :: cubic_state where
  "State_default =
     \<lparr>cub_k = Fin 0, cub_w_max = Fin 0,
      cub_prior = \<lparr>prior_congestion_window = 0, prior_w_max = Fin 0, prior_k = Fin 0,
                   prior_lost_count = 0\<rparr>\<rparr>"

text \<open>
  \<open>cc_ops\<close> is a reference to one of the static tables of \<open>CongestionControlOps\<close>; the model keeps
  the algorithm whose table it is and looks the table up.  The fields that \<open>mod.rs\<close> shares with the
  superseded \<open>modv1.rs\<close> come first, so that the functions of \<open>NewCubic.rs\<close>, which use these only, are
  defined for both.
\<close>

record recovery_core =
  loss_detection_timer :: "instant option"
  cubic_state_of :: cubic_state
  latest_rtt :: duration
  smoothed_rtt :: "duration option"
  rttvar :: duration
  min_rtt :: duration
  loss_time :: "instant option list"
  lost_count :: usize
  loss_probes :: "usize list"
  in_flight_count :: "usize list"
  app_limited :: bool
  cc_ops :: cc_algorithm
  congestion_window :: usize
  bytes_in_flight :: usize
  max_datagram_size :: usize
  rec_k :: fl
  incre_win :: usize
  decre_win :: usize

record recovery = recovery_core +
  former_win_vecter :: "usize list"
  roll_back_flag :: bool

record recovery_config =
  rc_max_send_udp_payload_size :: usize
  rc_max_ack_delay :: duration
  rc_cc_ops :: cc_algorithm

section \<open>The NEWCUBIC table\<close>

definition NewCubic_on_init :: "'a recovery_core_scheme \<Rightarrow> 'a recovery_core_scheme" where
  "NewCubic_on_init r = r"

definition NewCubic_reset :: "'a recovery_core_scheme \<Rightarrow> 'a recovery_core_scheme" where
  "NewCubic_reset r = r\<lparr>cubic_state_of := State_default\<rparr>"

definition NewCubic_collapse_cwnd :: "'a recovery_core_scheme \<Rightarrow> 'a recovery_core_scheme option" where
  "NewCubic_collapse_cwnd r = do {
     w \<leftarrow> mul64 (max_datagram_size r) MINIMUM_WINDOW_PACKETS;
     Some (r\<lparr>cubic_state_of := (cubic_state_of r)\<lparr>cub_w_max := f64_of_nat (congestion_window r)\<rparr>,
             congestion_window := w\<rparr>)
   }"

definition NewCubic_checkpoint :: "'a recovery_core_scheme \<Rightarrow> 'a recovery_core_scheme" where
  "NewCubic_checkpoint r =
     r\<lparr>cubic_state_of := (cubic_state_of r)\<lparr>cub_prior :=
         \<lparr>prior_congestion_window = congestion_window r,
          prior_w_max = cub_w_max (cubic_state_of r),
          prior_k = cub_k (cubic_state_of r),
          prior_lost_count = lost_count r\<rparr>\<rparr>\<rparr>"

definition NewCubic_rollback :: "'a recovery_core_scheme \<Rightarrow> bool \<times> 'a recovery_core_scheme" where
  "NewCubic_rollback r =
     (True, r\<lparr>congestion_window := prior_congestion_window (cub_prior (cubic_state_of r)),
              cubic_state_of := (cubic_state_of r)
                \<lparr>cub_w_max := prior_w_max (cub_prior (cubic_state_of r)),
                 cub_k := prior_k (cub_prior (cubic_state_of r))\<rparr>\<rparr>)"

definition NewCubic_has_custom_pacing :: bool where
  "NewCubic_has_custom_pacing = False"

text \<open>
  \<open>CongestionControlOps\<close>, a table of functions on a controller, its one instance, and the conversion of an
  algorithm into its table.  A function that can panic returns an option; \<open>debug_fmt\<close> is left out.
\<close>

record 'r cc_table =
  op_on_init :: "'r \<Rightarrow> 'r"
  op_reset :: "'r \<Rightarrow> 'r"
  op_collapse_cwnd :: "'r \<Rightarrow> 'r option"
  op_checkpoint :: "'r \<Rightarrow> 'r"
  op_rollback :: "'r \<Rightarrow> bool \<times> 'r"
  op_has_custom_pacing :: bool

definition NEWCUBIC_table :: "'a recovery_core_scheme cc_table" where
  "NEWCUBIC_table = \<lparr>op_on_init = NewCubic_on_init, op_reset = NewCubic_reset,
     op_collapse_cwnd = NewCubic_collapse_cwnd, op_checkpoint = NewCubic_checkpoint,
     op_rollback = NewCubic_rollback, op_has_custom_pacing = NewCubic_has_custom_pacing\<rparr>"

definition table_of :: "cc_algorithm \<Rightarrow> 'a recovery_core_scheme cc_table" where
  "table_of algo = (case algo of NEWCUBIC \<Rightarrow> NEWCUBIC_table)"

lemma table_of_simps [simp]:
  "op_on_init (table_of algo) = NewCubic_on_init" "op_reset (table_of algo) = NewCubic_reset"
  "op_collapse_cwnd (table_of algo) = NewCubic_collapse_cwnd"
  by (cases algo; simp add: table_of_def NEWCUBIC_table_def)+

section \<open>Recovery operations\<close>

definition RecoveryConfig_from_config :: "config \<Rightarrow> recovery_config" where
  "RecoveryConfig_from_config c =
     \<lparr>rc_max_send_udp_payload_size = max_send_udp_payload_size c,
      rc_max_ack_delay = 0, rc_cc_ops = cc_algorithm c\<rparr>"

definition new_with_config :: "recovery_config \<Rightarrow> recovery option" where
  "new_with_config rc = do {
     initial_congestion_window \<leftarrow> mul64 (rc_max_send_udp_payload_size rc) INITIAL_WINDOW_PACKETS;
     Some \<lparr>loss_detection_timer = None, cubic_state_of = State_default, latest_rtt = 0,
           smoothed_rtt = None, rttvar = INITIAL_RTT div 2, min_rtt = 0,
           loss_time = [None, None, None], lost_count = 0, loss_probes = [0, 0, 0],
           in_flight_count = [0, 0, 0], app_limited = False, cc_ops = rc_cc_ops rc,
           congestion_window = initial_congestion_window, bytes_in_flight = 0,
           max_datagram_size = PACKET_SIZE, rec_k = Fin 1, incre_win = 0, decre_win = 0,
           former_win_vecter = [], roll_back_flag = False\<rparr>
   }"

definition Recovery_new :: "config \<Rightarrow> recovery option" where
  "Recovery_new c = new_with_config (RecoveryConfig_from_config c)"

definition Recovery_on_init :: "recovery \<Rightarrow> recovery" where
  "Recovery_on_init r = op_on_init (table_of (cc_ops r)) r"

definition Recovery_reset :: "recovery \<Rightarrow> recovery option" where
  "Recovery_reset r = do {
     w \<leftarrow> mul64 (max_datagram_size r) INITIAL_WINDOW_PACKETS;
     let r = r\<lparr>congestion_window := w, in_flight_count := [0, 0, 0]\<rparr>;
     Some (op_reset (table_of (cc_ops r)) r)
   }"

text \<open>The two cubic polynomials of \<open>update_win\<close>, scaled by the datagram size.\<close>

definition winadd_of :: "fl \<Rightarrow> usize \<Rightarrow> fl" where
  "winadd_of w mds =
     (let poly = (\<lambda>a b c d.
            fl_add rnd64 (fl_sub rnd64 (fl_add rnd64 (fl_mul rnd64 a (f64_powi w 3))
              (fl_mul rnd64 b (f64_powi w 2))) (fl_mul rnd64 c w)) d)
      in fl_mul rnd64
           (if fl_lt w (rnd32 (2 / 10)) \<or> fl_lt (rnd32 (18 / 10)) w
            then poly (rnd64 (- 2294 / 100)) (rnd64 (6583 / 100)) (rnd64 (5189 / 100)) (rnd64 8)
            else fl_add rnd64 (fl_sub rnd64 (fl_sub rnd64
                   (fl_mul rnd64 (rnd64 (- 1587 / 10000)) (f64_powi w 3))
                   (fl_mul rnd64 (rnd64 (4658 / 10000)) (f64_powi w 2)))
                   (fl_mul rnd64 (rnd64 (4538 / 10000)) w)) (rnd64 (1535 / 10000)))
           (f64_of_nat mds))"

definition update_win :: "fl \<Rightarrow> fl \<Rightarrow> recovery \<Rightarrow> recovery option" where
  "update_win weights num r =
     (let winadd = winadd_of weights (max_datagram_size r);
          r = (if \<not> fl_eq winadd num then r\<lparr>roll_back_flag := True\<rparr> else r)
      in if fl_lt (Fin 0) winadd
         then do { n \<leftarrow> add64 (incre_win r) (fl_to_usize winadd); Some (r\<lparr>incre_win := n\<rparr>) }
         else do { n \<leftarrow> add64 (decre_win r) (fl_to_usize (fl_neg winadd)); Some (r\<lparr>decre_win := n\<rparr>) })"

definition should_elicit_ack :: "usize \<Rightarrow> bool" where
  "should_elicit_ack pkt_num \<longleftrightarrow> pkt_num mod ELICT_ACK_CONSTANT = 0"

definition cwnd :: "recovery \<Rightarrow> (usize \<times> recovery) option" where
  "cwnd r = do {
     d \<leftarrow> mul64 2 (incre_win r);
     let tmp_win = (if d > decre_win r then d - decre_win r else 0);
     let r = (if \<not> roll_back_flag r
              then r\<lparr>former_win_vecter := bs_insert tmp_win (former_win_vecter r)\<rparr> else r);
     let r = r\<lparr>congestion_window := tmp_win, incre_win := 0, decre_win := 0\<rparr>;
     if congestion_window r \<ge> PACKET_SIZE * INITIAL_WINDOW_PACKETS
     then Some (congestion_window r, r)
     else Some (PACKET_SIZE * INITIAL_WINDOW_PACKETS,
                r\<lparr>congestion_window := PACKET_SIZE * INITIAL_WINDOW_PACKETS\<rparr>)
   }"

definition cwnd_available :: "recovery \<Rightarrow> usize" where
  "cwnd_available r = congestion_window r - bytes_in_flight r"

definition Recovery_collapse_cwnd :: "recovery \<Rightarrow> recovery option" where
  "Recovery_collapse_cwnd r = op_collapse_cwnd (table_of (cc_ops r)) r"

definition update_app_limited :: "bool \<Rightarrow> recovery \<Rightarrow> recovery" where
  "update_app_limited v r = r\<lparr>app_limited := v\<rparr>"

definition Recovery_app_limited :: "recovery \<Rightarrow> bool" where
  "Recovery_app_limited r = app_limited r"

definition Recovery_loss_detection_timer :: "recovery \<Rightarrow> instant option" where
  "Recovery_loss_detection_timer r = loss_detection_timer r"

definition Recovery_rollback :: "recovery \<Rightarrow> usize \<times> recovery" where
  "Recovery_rollback r =
     (case bs_pop_last (former_win_vecter r) of
        None \<Rightarrow> (INI_WIN, r\<lparr>congestion_window := INI_WIN\<rparr>)
      | Some (w, ws) \<Rightarrow> (w, r\<lparr>congestion_window := w, former_win_vecter := ws\<rparr>))"

lemmas win_consts = PACKET_SIZE_def INITIAL_WINDOW_PACKETS_def INI_WIN_def MINIMUM_WINDOW_PACKETS_def

section \<open>The controller as a state machine\<close>

text \<open>One call of the controller's interface.\<close>

inductive rec_step :: "recovery \<Rightarrow> recovery \<Rightarrow> bool" where
  step_update_win: "update_win weights num r = Some r' \<Longrightarrow> rec_step r r'"
| step_cwnd: "cwnd r = Some (w, r') \<Longrightarrow> rec_step r r'"
| step_rollback: "Recovery_rollback r = (w, r') \<Longrightarrow> rec_step r r'"
| step_reset: "Recovery_reset r = Some r' \<Longrightarrow> rec_step r r'"
| step_collapse: "Recovery_collapse_cwnd r = Some r' \<Longrightarrow> rec_step r r'"
| step_app_limited: "rec_step r (update_app_limited v r)"

definition rec_inv :: "recovery \<Rightarrow> bool" where
  "rec_inv r \<longleftrightarrow> bs_wf (former_win_vecter r) \<and> max_datagram_size r = PACKET_SIZE"

lemma cwnd_eq:
  "2 * incre_win r < lim64 \<Longrightarrow>
   cwnd r = Some (max 9600 (2 * incre_win r - decre_win r),
     r\<lparr>congestion_window := max 9600 (2 * incre_win r - decre_win r),
       incre_win := 0, decre_win := 0,
       former_win_vecter := (if roll_back_flag r then former_win_vecter r
         else bs_insert (2 * incre_win r - decre_win r) (former_win_vecter r))\<rparr>)"
  by (simp add: cwnd_def Let_def win_consts)

lemma cwnd_None: "lim64 \<le> 2 * incre_win r \<Longrightarrow> cwnd r = None"
  by (simp add: cwnd_def)

lemma cwnd_eq_Some:
  "cwnd r = Some (w, r') \<longleftrightarrow>
   2 * incre_win r < lim64 \<and> w = max 9600 (2 * incre_win r - decre_win r) \<and>
   r' = r\<lparr>congestion_window := w, incre_win := 0, decre_win := 0,
          former_win_vecter := (if roll_back_flag r then former_win_vecter r
            else bs_insert (2 * incre_win r - decre_win r) (former_win_vecter r))\<rparr>"
  by (cases "2 * incre_win r < lim64") (auto simp: cwnd_eq cwnd_None)

lemma update_win_frame:
  assumes "update_win weights num r = Some r'"
  shows "former_win_vecter r' = former_win_vecter r" "max_datagram_size r' = max_datagram_size r"
    "congestion_window r' = congestion_window r" "roll_back_flag r \<Longrightarrow> roll_back_flag r'"
    "cc_ops r' = cc_ops r"
  using assms
  by (auto simp: update_win_def Let_def Option.bind_eq_Some_conv split: if_splits)

text \<open>The controller keeps the contract of \<open>Window\<close>.\<close>

lemma update_win_counters:
  "update_win w n r =
     (let x = winadd_of w (max_datagram_size r);
          r = r\<lparr>roll_back_flag := roll_back_flag r \<or> \<not> fl_eq x n\<rparr>
      in if fl_lt (Fin 0) x
         then map_option (\<lambda>k. r\<lparr>incre_win := k\<rparr>) (add64 (incre_win r) (gained x))
         else map_option (\<lambda>k. r\<lparr>decre_win := k\<rparr>) (add64 (decre_win r) (forfeited x)))"
  by (cases r) (simp add: update_win_def Let_def gained_def forfeited_def map_conv_bind_option o_def)

interpretation rw: window_controller "\<lambda>r w n. winadd_of w (max_datagram_size r)" update_win cwnd
  incre_win decre_win congestion_window
proof (unfold_locales, goal_cases)
  case (1 w n s s')
  then show ?case
    by (auto simp: update_win_counters Let_def add64_eq_Some gained_def forfeited_def split: if_splits)
next
  case (2 s w n)
  then show ?case
    by (auto simp: update_win_counters Let_def add64_eq_None gained_def forfeited_def)
next
  case (3 s x s')
  then show ?case by (auto simp: cwnd_eq_Some)
next
  case (4 s)
  then show ?case using cwnd_None [of s] cwnd_eq [of s] by (cases "lim64 \<le> 2 * incre_win s") auto
qed

lemma rec_step_inv:
  assumes "rec_step r r'" and "rec_inv r"
  shows "rec_inv r'"
  using assms
proof (cases rule: rec_step.cases)
  case (step_rollback w)
  with assms(2) show ?thesis
    by (auto simp: Recovery_rollback_def bs_pop_last_def rec_inv_def bs_wf_butlast split: if_splits)
next
  case (step_reset)
  with assms(2) show ?thesis
    by (auto simp: Recovery_reset_def rec_inv_def NewCubic_reset_def Let_def
        Option.bind_eq_Some_conv)
next
  case (step_collapse)
  with assms(2) show ?thesis
    by (auto simp: Recovery_collapse_cwnd_def NewCubic_collapse_cwnd_def rec_inv_def
        Option.bind_eq_Some_conv)
qed (auto simp: rec_inv_def update_win_frame cwnd_eq_Some bs_wf_insert update_app_limited_def)

lemma rec_step_rolled:
  assumes "rec_step r r'" and "roll_back_flag r"
  shows "roll_back_flag r' \<and> set (former_win_vecter r') \<subseteq> set (former_win_vecter r)"
  using assms
proof (cases rule: rec_step.cases)
  case (step_rollback w)
  with assms(2) show ?thesis
    by (auto simp: Recovery_rollback_def bs_pop_last_def dest: in_set_butlastD split: if_splits)
next
  case (step_reset)
  with assms(2) show ?thesis
    by (auto simp: Recovery_reset_def NewCubic_reset_def Let_def
        Option.bind_eq_Some_conv)
next
  case (step_collapse)
  with assms(2) show ?thesis
    by (auto simp: Recovery_collapse_cwnd_def NewCubic_collapse_cwnd_def
        Option.bind_eq_Some_conv)
qed (auto simp: update_win_frame cwnd_eq_Some update_app_limited_def)

section \<open>What the controller guarantees\<close>

text \<open>
  (C21) Once the rollback flag is set it stays set, whatever the controller is asked to do, and
  from then on the set of windows to roll back to only shrinks; it stays in ascending order, so
  \<open>rollback\<close> returns the largest of them, or 9600 when none is left.
\<close>

theorem rollback_flag_sticky:
  assumes "rec_step\<^sup>*\<^sup>* r r'" and "rec_inv r" and "roll_back_flag r"
  shows "roll_back_flag r' \<and> set (former_win_vecter r') \<subseteq> set (former_win_vecter r) \<and>
         fst (Recovery_rollback r') =
           (if former_win_vecter r' = [] then INI_WIN else Max (set (former_win_vecter r')))"
proof -
  have "rec_inv r' \<and> roll_back_flag r' \<and> set (former_win_vecter r') \<subseteq> set (former_win_vecter r)"
    using assms
  proof (induction rule: rtranclp_induct)
    case (step y z)
    then show ?case using rec_step_inv rec_step_rolled by blast
  qed simp
  then show ?thesis
    by (auto simp: Recovery_rollback_def bs_pop_last_def rec_inv_def bs_last_Max)
qed

text \<open>A fresh controller, for the witnesses below.\<close>

definition fresh_recovery :: recovery where
  "fresh_recovery = \<lparr>loss_detection_timer = None, cubic_state_of = State_default, latest_rtt = 0,
     smoothed_rtt = None, rttvar = 166500000, min_rtt = 0, loss_time = [None, None, None],
     lost_count = 0, loss_probes = [0, 0, 0], in_flight_count = [0, 0, 0], app_limited = False,
     cc_ops = NEWCUBIC, congestion_window = 10800, bytes_in_flight = 0, max_datagram_size = 1200,
     rec_k = Fin 1, incre_win = 0, decre_win = 0, former_win_vecter = [], roll_back_flag = False\<rparr>"

lemma Recovery_new_eq:
  "max_send_udp_payload_size c = 1350 \<Longrightarrow> Recovery_new c = Some fresh_recovery"
  by (cases "cc_algorithm c")
    (simp add: Recovery_new_def new_with_config_def RecoveryConfig_from_config_def win_consts
      INITIAL_RTT_def fresh_recovery_def)

theorem rollback_flag_sticky_witness:
  "let r = fresh_recovery\<lparr>roll_back_flag := True, former_win_vecter := [9600, 12000]\<rparr>;
       r' = snd (Recovery_rollback r)
   in roll_back_flag r' \<and> set (former_win_vecter r') \<subseteq> {9600, 12000} \<and>
      fst (Recovery_rollback r') = 9600"
proof -
  let ?r = "fresh_recovery\<lparr>roll_back_flag := True, former_win_vecter := [9600, 12000]\<rparr>"
  have "rec_step\<^sup>*\<^sup>* ?r (snd (Recovery_rollback ?r))"
    by (intro r_into_rtranclp step_rollback [of _ "fst (Recovery_rollback ?r)"]) simp
  moreover have "rec_inv ?r"
    by (simp add: rec_inv_def bs_wf_def fresh_recovery_def PACKET_SIZE_def)
  ultimately show ?thesis
    using rollback_flag_sticky [of ?r "snd (Recovery_rollback ?r)"]
    by (simp add: Recovery_rollback_def bs_pop_last_def)
qed

text \<open>The increment for a round without loss, evaluated with its roundings.\<close>

lemma f64_of_nat_1200: "f64_of_nat 1200 = Fin 1200"
proof -
  have "rnd64 1200 = Fin 1200" by code_simp
  then show ?thesis by (simp add: f64_of_nat_def)
qed

lemma winadd_no_loss: "winadd_of (Fin 0) 1200 = Fin 9600"
  unfolding winadd_of_def f64_of_nat_1200 by code_simp

text \<open>
  (C19) What the acknowledgements of a round are worth together: each adds to the increments or to the
  decrements what the polynomial gives for its loss weight, and the window of the next round is twice
  the increments less the decrements, or 9600 if that is less.  So only the sums matter, not the
  order of the reports, and the number of packets a report covers does not matter at all.  The computation
  panics exactly when the doubled increments or the decrements do not fit into 64 bits.
\<close>

theorem window_from_reports:
  assumes "incre_win r < lim64" and "decre_win r < lim64"
  shows "map_option fst (Option.bind (reports update_win xs r) cwnd) =
     (let up = incre_win r + (\<Sum>(w, n) \<leftarrow> xs. gained (winadd_of w (max_datagram_size r)));
          down = decre_win r + (\<Sum>(w, n) \<leftarrow> xs. forfeited (winadd_of w (max_datagram_size r)))
      in if 2 * up < lim64 \<and> down < lim64 then Some (max 9600 (2 * up - down)) else None)"
  using rw.window_after_reports [OF assms, of xs] by (simp add: worth_def case_prod_beta')

theorem window_from_reports_witness:
  "map_option fst (Option.bind (reports update_win [(Fin 0, Fin 8), (Fin 0, Fin 3)] fresh_recovery) cwnd) = Some 38400"
  using window_from_reports [of fresh_recovery "[(Fin 0, Fin 8), (Fin 0, Fin 3)]"]
  by (simp add: fresh_recovery_def winadd_no_loss gained_def forfeited_def)

text \<open>
  (C24) The window remembered for a rollback is the one computed before the floor of 9600 bytes is
  applied.  The first call of \<open>cwnd\<close> on a new connection therefore remembers 0, and if the first
  acknowledgements cause a rollback, \<open>rollback\<close> returns a window of 0 bytes.
\<close>

theorem rollback_after_first_round_closes_window:
  assumes "Recovery_new c = Some r" and "cwnd r = Some (w, r1)"
    and "update_win weights num r1 = Some r2"
  shows "w = 9600 \<and> fst (Recovery_rollback r2) = 0 \<and>
         congestion_window (snd (Recovery_rollback r2)) = 0"
proof -
  have r: "incre_win r = 0" "decre_win r = 0" "former_win_vecter r = []" "\<not> roll_back_flag r"
    using assms(1) by (auto simp: Recovery_new_def new_with_config_def Option.bind_eq_Some_conv)
  with assms(2) have r1: "w = 9600" "former_win_vecter r1 = [0]"
    by (auto simp: cwnd_eq_Some)
  with update_win_frame(1) [OF assms(3)] show ?thesis
    by (simp add: Recovery_rollback_def bs_pop_last_def)
qed

theorem rollback_after_first_round_closes_window_witness:
  "\<exists>c r w r1 r2. Recovery_new c = Some r \<and> cwnd r = Some (w, r1) \<and>
     update_win (Fin 0) (Fin 8) r1 = Some r2 \<and> fst (Recovery_rollback r2) = 0"
proof -
  obtain c where c: "Config_new = Ok c" by (simp add: Config_new_def)
  then have "max_send_udp_payload_size c = 1350"
    by (auto simp: Config_new_def MAX_SEND_UDP_PAYLOAD_SIZE_def)
  then have new: "Recovery_new c = Some fresh_recovery" by (rule Recovery_new_eq)
  obtain w r1 where cw: "cwnd fresh_recovery = Some (w, r1)" and "rec_inv r1" "incre_win r1 = 0"
    by (simp add: cwnd_eq fresh_recovery_def rec_inv_def bs_wf_def PACKET_SIZE_def)
  then have "\<exists>r2. update_win (Fin 0) (Fin 8) r1 = Some r2"
    by (auto simp: update_win_def winadd_no_loss rec_inv_def PACKET_SIZE_def Let_def)
  then obtain r2 where "update_win (Fin 0) (Fin 8) r1 = Some r2" by blast
  with rollback_after_first_round_closes_window [OF new cw this] new cw show ?thesis by blast
qed

end
