(* ===== verification/Range_Buf.thy ===== *)
theory Range_Buf
  imports Rust_Prelude
begin

text \<open>
  \<open>RangeBuf\<close> of \<open>src/lib.rs\<close>: a chunk of stream data with its offset in the stream, the unit both
  buffers are made of.
\<close>

section \<open>Operations\<close>

record range_buf =
  rb_data :: bytes
  rb_start :: usize
  rb_pos :: usize
  rb_len :: usize
  rb_off :: nat

definition RangeBuf_from :: "bytes \<Rightarrow> nat \<Rightarrow> range_buf" where
  "RangeBuf_from xs offs =
     \<lparr>rb_data = xs, rb_start = 0, rb_pos = 0, rb_len = length xs, rb_off = offs\<rparr>"

definition RangeBuf_off :: "range_buf \<Rightarrow> nat option" where
  "RangeBuf_off b = do { a \<leftarrow> sub64 (rb_off b) (rb_start b); add64 a (rb_pos b) }"

definition RangeBuf_len :: "range_buf \<Rightarrow> usize option" where
  "RangeBuf_len b = sub64 (rb_len b) (rb_pos b)"

definition RangeBuf_max_off :: "range_buf \<Rightarrow> nat option" where
  "RangeBuf_max_off b = do { a \<leftarrow> RangeBuf_off b; l \<leftarrow> RangeBuf_len b; add64 a l }"

definition RangeBuf_is_empty :: "range_buf \<Rightarrow> bool option" where
  "RangeBuf_is_empty b = do { l \<leftarrow> RangeBuf_len b; Some (l = 0) }"

definition RangeBuf_consume :: "usize \<Rightarrow> range_buf \<Rightarrow> range_buf option" where
  "RangeBuf_consume count b = do { p \<leftarrow> add64 (rb_pos b) count; Some (b\<lparr>rb_pos := p\<rparr>) }"

text \<open>The returned buffer comes first, the changed \<open>self\<close> second.\<close>

definition RangeBuf_split_off :: "usize \<Rightarrow> range_buf \<Rightarrow> (range_buf \<times> range_buf) option" where
  "RangeBuf_split_off at b =
     (if at \<le> rb_len b then do {
        xs \<leftarrow> slice_from (rb_data b) at;
        o' \<leftarrow> add64 (rb_off b) at;
        p \<leftarrow> add64 (rb_start b) at;
        Some (\<lparr>rb_data = xs, rb_start = 0, rb_pos = 0, rb_len = rb_len b - at, rb_off = o'\<rparr>,
              b\<lparr>rb_pos := min (rb_pos b) p, rb_len := at\<rparr>)
      } else None)"

definition RangeBuf_deref :: "range_buf \<Rightarrow> bytes option" where
  "RangeBuf_deref b = do { e \<leftarrow> add64 (rb_start b) (rb_len b); slice (rb_data b) (rb_pos b) e }"

text \<open>
  \<open>PartialEq\<close> compares offsets.  \<open>PartialOrd\<close> calls \<open>self.cmp(other)\<close>; \<open>RangeBuf\<close> has no \<open>Ord\<close> of its own,
  so the call resolves through \<open>Deref\<close> to the lexicographic order of byte slices.
\<close>

datatype ordering = Less | Equal | Greater

fun bytes_cmp :: "bytes \<Rightarrow> bytes \<Rightarrow> ordering" where
  "bytes_cmp [] [] = Equal"
| "bytes_cmp [] (_ # _) = Less"
| "bytes_cmp (_ # _) [] = Greater"
| "bytes_cmp (x # xs) (y # ys) =
     (if x < y then Less else if y < x then Greater else bytes_cmp xs ys)"

definition RangeBuf_eq :: "range_buf \<Rightarrow> range_buf \<Rightarrow> bool" where
  "RangeBuf_eq a b \<longleftrightarrow> rb_off a = rb_off b"

definition RangeBuf_partial_cmp :: "range_buf \<Rightarrow> range_buf \<Rightarrow> ordering option" where
  "RangeBuf_partial_cmp a b = do { x \<leftarrow> RangeBuf_deref a; y \<leftarrow> RangeBuf_deref b; Some (bytes_cmp x y) }"

section \<open>Well-formed chunks\<close>

text \<open>
  What \<open>RangeBuf_from\<close> builds and every operation keeps: nothing cut off at the front, a read
  position inside the data, and an end offset that fits in 64 bits.
\<close>

definition rb_wf :: "range_buf \<Rightarrow> bool" where
  "rb_wf b \<longleftrightarrow> rb_start b = 0 \<and> rb_pos b \<le> rb_len b \<and> rb_len b \<le> length (rb_data b) \<and>
             rb_off b + rb_len b < lim64"

definition rb_unread :: "range_buf \<Rightarrow> bytes" where
  "rb_unread b = take (rb_len b - rb_pos b) (drop (rb_pos b) (rb_data b))"

lemma rb_wf_from: "offs + length xs < lim64 \<Longrightarrow> rb_wf (RangeBuf_from xs offs)"
  by (simp add: rb_wf_def RangeBuf_from_def)

lemma rb_wf_ops:
  assumes "rb_wf b"
  shows "RangeBuf_off b = Some (rb_off b + rb_pos b)"
    and "RangeBuf_len b = Some (rb_len b - rb_pos b)"
    and "RangeBuf_max_off b = Some (rb_off b + rb_len b)"
    and "RangeBuf_is_empty b = Some (rb_len b = rb_pos b)"
    and "RangeBuf_deref b = Some (rb_unread b)"
  using assms
  by (auto simp: rb_wf_def RangeBuf_off_def RangeBuf_len_def RangeBuf_max_off_def
      RangeBuf_is_empty_def RangeBuf_deref_def rb_unread_def)

lemma rb_wf_consume:
  assumes "rb_wf b" and "n \<le> rb_len b - rb_pos b"
  shows "\<exists>b'. RangeBuf_consume n b = Some b' \<and> rb_wf b' \<and> rb_unread b' = drop n (rb_unread b) \<and>
              rb_off b' = rb_off b \<and> rb_len b' = rb_len b"
  using assms
  by (auto simp: RangeBuf_consume_def rb_wf_def rb_unread_def drop_take add.commute)

lemma rb_from_simps [simp]:
  "rb_data (RangeBuf_from xs offs) = xs" "rb_start (RangeBuf_from xs offs) = 0"
  "rb_pos (RangeBuf_from xs offs) = 0" "rb_len (RangeBuf_from xs offs) = length xs"
  "rb_off (RangeBuf_from xs offs) = offs"
  by (simp_all add: RangeBuf_from_def)

text \<open>Consecutive chunks with their stream offsets.\<close>

fun at_offsets :: "nat \<Rightarrow> bytes list \<Rightarrow> (nat \<times> bytes) list" where
  "at_offsets k [] = []"
| "at_offsets k (c # cs) = (k, c) # at_offsets (k + length c) cs"

lemma map_snd_at_offsets [simp]: "map snd (at_offsets k cs) = cs"
  by (induction cs arbitrary: k) auto

section \<open>Splitting\<close>

text \<open>
  \<open>split_off\<close> at a point not yet read cuts a chunk in two adjacent ones: no unread byte is lost
  or duplicated, the second starts where the first ends, and both are well formed; beyond the
  length it panics.
\<close>

lemma split_off_partitions:
  assumes "rb_wf b" and "rb_pos b \<le> at"
  shows "if at \<le> rb_len b
         then \<exists>r l. RangeBuf_split_off at b = Some (r, l) \<and> rb_wf l \<and> rb_wf r \<and>
                rb_unread l @ rb_unread r = rb_unread b \<and>
                RangeBuf_max_off l = RangeBuf_off r \<and> RangeBuf_max_off r = RangeBuf_max_off b
         else RangeBuf_split_off at b = None"
proof (cases "at \<le> rb_len b")
  case True
  let ?r = "\<lparr>rb_data = drop at (rb_data b), rb_start = 0, rb_pos = 0, rb_len = rb_len b - at,
             rb_off = rb_off b + at\<rparr>"
  let ?l = "b\<lparr>rb_pos := rb_pos b, rb_len := at\<rparr>"
  have split: "RangeBuf_split_off at b = Some (?r, ?l)"
    using assms True by (simp add: RangeBuf_split_off_def rb_wf_def min_def)
  have wf: "rb_wf ?l" "rb_wf ?r"
    using assms True by (auto simp: rb_wf_def)
  have "rb_unread ?l @ rb_unread ?r = rb_unread b"
    using take_add [of "at - rb_pos b" "rb_len b - at" "drop (rb_pos b) (rb_data b)"] assms True
    by (simp add: rb_unread_def)
  with split wf True assms show ?thesis
    by (simp add: rb_wf_ops)
next
  case False
  then show ?thesis by (simp add: RangeBuf_split_off_def)
qed

text \<open>
  The two comparison traits of \<open>RangeBuf\<close> disagree: two chunks can be equal by \<open>==\<close> and still
  be ordered strictly by \<open>partial_cmp\<close>, and chunks at different offsets can compare as \<open>Equal\<close>,
  so the order is not the order of offsets the buffers' documentation speaks of.
\<close>

lemma rangebuf_orders_disagree:
  "(\<exists>a b. rb_wf a \<and> rb_wf b \<and> RangeBuf_eq a b \<and> RangeBuf_partial_cmp a b = Some Less) \<and>
   (\<exists>a b. rb_wf a \<and> rb_wf b \<and> \<not> RangeBuf_eq a b \<and> RangeBuf_partial_cmp a b = Some Equal)"
proof
  show "\<exists>a b. rb_wf a \<and> rb_wf b \<and> RangeBuf_eq a b \<and> RangeBuf_partial_cmp a b = Some Less"
    by (rule exI [of _ "RangeBuf_from [1] 0"], rule exI [of _ "RangeBuf_from [2] 0"])
      (simp add: rb_wf_def RangeBuf_eq_def RangeBuf_partial_cmp_def RangeBuf_deref_def)
  show "\<exists>a b. rb_wf a \<and> rb_wf b \<and> \<not> RangeBuf_eq a b \<and> RangeBuf_partial_cmp a b = Some Equal"
    by (rule exI [of _ "RangeBuf_from [1] 0"], rule exI [of _ "RangeBuf_from [1] 1024"])
      (simp add: rb_wf_def RangeBuf_eq_def RangeBuf_partial_cmp_def RangeBuf_deref_def)
qed

end
