(* ===== verification/Send_Buf.thy ===== *)
theory Send_Buf
  imports Errors Collections Range_Buf
begin

text \<open>
  \<open>SendBuf\<close> of \<open>src/lib.rs\<close>: the queue of chunks that are sent and resent until the peer has them.
  \<open>write\<close> fills the queue up to the congestion window once per round, \<open>emit\<close> hands out one chunk per
  packet, \<open>ack_and_drop\<close> marks a chunk as received and \<open>recv_and_drop\<close>, at the start of the next
  \<open>write\<close>, removes the marked chunks.
\<close>

section \<open>State and operations\<close>

definition SEND_BUFFER_SIZE :: usize where
  "SEND_BUFFER_SIZE = 1024"

record send_buf =
  sb_data :: "range_buf list"
  sb_pos :: usize
  sb_off :: nat
  sb_len :: nat
  max_data :: nat
  sb_error :: "nat option"
  used_length :: usize
  offset_recv :: "(nat, bool) btree_map"
  removed :: nat
  sb_sent :: usize

definition SendBuf_new :: "nat \<Rightarrow> send_buf" where
  "SendBuf_new md =
     \<lparr>sb_data = [], sb_pos = 0, sb_off = 0, sb_len = 0, max_data = md, sb_error = None,
      used_length = 0, offset_recv = [], removed = 0, sb_sent = 0\<rparr>"

text \<open>The sum of the lengths of vectors that are in memory at the same time: it cannot overflow.\<close>

definition SendBuf_len :: "send_buf \<Rightarrow> usize" where
  "SendBuf_len s = (if sb_data s = [] then 0 else sum_list (map (length \<circ> rb_data) (sb_data s)))"

definition SendBuf_cap :: "send_buf \<Rightarrow> (usize result \<times> send_buf) option" where
  "SendBuf_cap s =
     (case sb_error s of
        Some e \<Rightarrow> Some (Err (StreamStopped e), s)
      | None \<Rightarrow> do {
          let s = s\<lparr>used_length := SendBuf_len s\<rparr>;
          c \<leftarrow> sub64 (max_data s) (used_length s);
          Some (Ok c, s)
        })"

text \<open>
  \<open>data.retain(|_| *iter.next().unwrap())\<close> walks the chunks and the flags, in key order, side by
  side; it panics when there are fewer flags than chunks.
\<close>

definition recv_and_drop :: "nat \<Rightarrow> send_buf \<Rightarrow> send_buf option" where
  "recv_and_drop max_ack s =
     (if sb_data s = [] then Some s
      else let recv_drop = map snd (offset_recv s)
           in if length (sb_data s) \<le> length recv_drop
              then Some (s\<lparr>sb_data := map fst (filter snd (zip (sb_data s) recv_drop)),
                           offset_recv := filter snd (offset_recv s)\<rparr>)
              else None)"

text \<open>
  Appending one chunk at the current offset, as \<open>write\<close> does for the piece that completes a
  1024-byte block and for each further block.
\<close>

definition SendBuf_push :: "bytes \<Rightarrow> send_buf \<Rightarrow> send_buf option" where
  "SendBuf_push chunk s = do {
     o' \<leftarrow> add64 (sb_off s) (length chunk);
     l \<leftarrow> add64 (sb_len s) (length chunk);
     u \<leftarrow> add64 (used_length s) (length chunk);
     Some (s\<lparr>offset_recv := bt_insert (sb_off s) True (offset_recv s),
             sb_data := sb_data s @ [RangeBuf_from chunk (sb_off s)],
             sb_off := o', sb_len := l, used_length := u\<rparr>)
   }"

fun push_chunks :: "bytes list \<Rightarrow> usize \<Rightarrow> send_buf \<Rightarrow> (usize \<times> send_buf) option" where
  "push_chunks [] n s = Some (n, s)"
| "push_chunks (c # cs) n s = do {
     n \<leftarrow> add64 n (length c);
     s \<leftarrow> SendBuf_push c s;
     push_chunks cs n s
   }"

definition SendBuf_write ::
  "bytes \<Rightarrow> usize \<Rightarrow> usize \<Rightarrow> nat \<Rightarrow> send_buf \<Rightarrow> (usize result \<times> send_buf) option" where
  "SendBuf_write dat window_size off_len max_ack s = do {
     s \<leftarrow> recv_and_drop max_ack s;
     let s = s\<lparr>max_data := window_size, removed := 0, sb_sent := 0\<rparr>;
     let s = s\<lparr>sb_len := SendBuf_len s, used_length := SendBuf_len s\<rparr>;
     if sb_len s \<ge> window_size then Some (Ok 0, s)
     else if length dat = 0 then Some (Ok 0, s)
     else do {
       (c, s) \<leftarrow> SendBuf_cap s;
       case c of
         Err e \<Rightarrow> Some (Err e, s)
       | Ok capacity \<Rightarrow>
           let dat = (if length dat > capacity then take capacity dat else dat)
           in if dat = [] then Some (Ok 0, s)
              else if off_len > 0 \<and> \<not> length dat > off_len then do {
                s \<leftarrow> SendBuf_push dat s;
                Some (Ok (length dat), s)
              }
              else do {
                s \<leftarrow> (if off_len > 0 then SendBuf_push (take off_len dat) s else Some s);
                rest \<leftarrow> slice_from dat off_len;
                (n, s) \<leftarrow> push_chunks (chunks SEND_BUFFER_SIZE rest) off_len s;
                Some (Ok n, s)
              }
     }
   }"

fun off_front_from :: "range_buf list \<Rightarrow> nat \<Rightarrow> nat option" where
  "off_front_from [] dflt = Some dflt"
| "off_front_from (b # bs) dflt = do {
     e \<leftarrow> RangeBuf_is_empty b;
     if \<not> e then RangeBuf_off b else off_front_from bs dflt
   }"

definition SendBuf_off_front :: "send_buf \<Rightarrow> nat option" where
  "SendBuf_off_front s = off_front_from (drop (sb_pos s) (sb_data s)) (sb_off s)"

definition SendBuf_ready :: "send_buf \<Rightarrow> bool" where
  "SendBuf_ready s \<longleftrightarrow> sb_data s \<noteq> []"

text \<open>The loop of \<open>emit\<close>: the remaining output length, the output buffer and \<open>self\<close> are its state.\<close>

function emit_loop :: "usize \<Rightarrow> bytes \<Rightarrow> send_buf \<Rightarrow> (usize \<times> bytes \<times> send_buf) option" where
  "emit_loop out_len out s =
     (if out_len \<ge> SEND_BUFFER_SIZE \<and> SendBuf_ready s then
        (if sb_pos s < length (sb_data s) then do {
           let b = sb_data s ! sb_pos s;
           e \<leftarrow> RangeBuf_is_empty b;
           if e then emit_loop out_len out (s\<lparr>sb_pos := sb_pos s + 1\<rparr>)
           else do {
             bl \<leftarrow> RangeBuf_len b;
             let buf_len = min bl out_len;
             let partial = (buf_len \<le> bl);
             src \<leftarrow> slice_to (rb_data b) buf_len;
             out \<leftarrow> copy_at out 0 src;
             l \<leftarrow> sub64 (sb_len s) buf_len;
             u \<leftarrow> sub64 (used_length s) buf_len;
             let s = s\<lparr>sb_len := l, used_length := u, sb_pos := sb_pos s + 1\<rparr>;
             if partial then Some (buf_len, out, s) else emit_loop buf_len out s
           }
         } else Some (out_len, out, s))
      else Some (out_len, out, s))"
  by pat_completeness auto
termination
  by (relation "measure (\<lambda>(_, _, s). length (sb_data s) - sb_pos s)") auto

declare emit_loop.simps [simp del]

definition SendBuf_emit ::
  "bytes \<Rightarrow> send_buf \<Rightarrow> ((usize \<times> nat \<times> bool) result \<times> bytes \<times> send_buf) option" where
  "SendBuf_emit out s = do {
     out_off \<leftarrow> SendBuf_off_front s;
     (out_len, out, s) \<leftarrow> emit_loop (length out) out s;
     n \<leftarrow> add64 (sb_sent s) out_len;
     let s = s\<lparr>sb_sent := n\<rparr>;
     let (stop, s) = (if sb_sent s \<ge> max_data s then (True, s\<lparr>sb_pos := 0\<rparr>) else (False, s));
     let (stop, s) = (if sb_pos s = length (sb_data s) then (True, s\<lparr>sb_pos := 0\<rparr>) else (stop, s));
     Some (Ok (out_len, out_off, stop), out, s)
   }"

definition update_max_data :: "nat \<Rightarrow> send_buf \<Rightarrow> send_buf" where
  "update_max_data md s = s\<lparr>max_data := md\<rparr>"

definition ack_and_drop :: "nat \<Rightarrow> send_buf \<Rightarrow> send_buf" where
  "ack_and_drop offs s = s\<lparr>offset_recv := bt_set offs False (offset_recv s)\<rparr>"

definition SendBuf_off_back :: "send_buf \<Rightarrow> nat" where
  "SendBuf_off_back s = sb_off s"

definition SendBuf_reset :: "send_buf \<Rightarrow> (nat result \<times> send_buf) option" where
  "SendBuf_reset s = do {
     unsent_off \<leftarrow> SendBuf_off_front s;
     unsent_len \<leftarrow> sub64 (SendBuf_off_back s) unsent_off;
     Some (Ok unsent_len, s\<lparr>sb_data := [], sb_pos := 0, sb_len := 0, sb_off := unsent_off\<rparr>)
   }"

definition SendBuf_clear :: "send_buf \<Rightarrow> send_buf" where
  "SendBuf_clear s = s\<lparr>sb_data := [], sb_pos := 0, sb_off := 0\<rparr>"

definition SendBuf_max_off :: "send_buf \<Rightarrow> nat" where
  "SendBuf_max_off s = max_data s"

definition SendBuf_is_empty :: "send_buf \<Rightarrow> bool" where
  "SendBuf_is_empty s \<longleftrightarrow> sb_data s = []"

definition SendBuf_is_stopped :: "send_buf \<Rightarrow> bool" where
  "SendBuf_is_stopped s \<longleftrightarrow> sb_error s \<noteq> None"

section \<open>The contract of a retransmission queue\<close>

text \<open>
  What the connection relies on: an ordered queue of chunks, each known by its offset; marking
  offsets as received changes nothing until the marked chunks are dropped, and exactly they are
  dropped.
\<close>

locale retransmit_queue =
  fixes view :: "'s \<Rightarrow> (nat \<times> bytes) list"
    and acked :: "'s \<Rightarrow> nat set"
    and ack :: "nat \<Rightarrow> 's \<Rightarrow> 's"
    and drop_acked :: "'s \<Rightarrow> 's option"
    and invar :: "'s \<Rightarrow> bool"
  assumes view_ack: "invar s \<Longrightarrow> view (ack k s) = view s"
    and acked_ack: "invar s \<Longrightarrow> acked (ack k s) = acked s \<union> ({k} \<inter> fst ` set (view s))"
    and invar_ack: "invar s \<Longrightarrow> invar (ack k s)"
    and drop_spec: "invar s \<Longrightarrow> \<exists>s'. drop_acked s = Some s' \<and> invar s' \<and> acked s' = {} \<and>
        view s' = filter (\<lambda>(k, _). k \<notin> acked s) (view s)"
begin

lemma acks_spec:
  assumes "invar s"
  shows "invar (fold ack ks s) \<and> view (fold ack ks s) = view s \<and>
         acked (fold ack ks s) = acked s \<union> (set ks \<inter> fst ` set (view s))"
  using assms
proof (induction ks arbitrary: s)
  case (Cons k ks)
  from Cons.prems have "invar (ack k s)" by (rule invar_ack)
  from Cons.IH [OF this] show ?case
    using Cons.prems by (auto simp: view_ack acked_ack)
qed simp

text \<open>Acknowledging any set of offsets, in any order and with repetitions, and then dropping.\<close>

lemma acks_then_drop:
  assumes "invar s"
  shows "\<exists>s'. drop_acked (fold ack ks s) = Some s' \<and> invar s' \<and>
              view s' = filter (\<lambda>(k, _). k \<notin> acked s \<and> k \<notin> set ks) (view s)"
proof -
  note acks = acks_spec [OF assms, of ks]
  from drop_spec [of "fold ack ks s"] acks
  obtain s' where "drop_acked (fold ack ks s) = Some s'" "invar s'"
    and "view s' = filter (\<lambda>(k, _). k \<notin> acked (fold ack ks s)) (view s)"
    by auto
  moreover have "filter (\<lambda>(k, _). k \<notin> acked (fold ack ks s)) (view s) =
      filter (\<lambda>(k, _). k \<notin> acked s \<and> k \<notin> set ks) (view s)"
    using acks by (intro filter_cong) (auto simp: image_iff split: prod.splits)
  ultimately show ?thesis by auto
qed

end

section \<open>The invariant of the send buffer\<close>

definition chunk_ok :: "nat \<Rightarrow> range_buf \<Rightarrow> bool" where
  "chunk_ok e b \<longleftrightarrow> rb_start b = 0 \<and> rb_pos b = 0 \<and> rb_len b = length (rb_data b) \<and>
     0 < rb_len b \<and> rb_len b \<le> SEND_BUFFER_SIZE \<and> rb_off b + rb_len b \<le> e"

definition before :: "range_buf \<Rightarrow> range_buf \<Rightarrow> bool" where
  "before a b \<longleftrightarrow> rb_off a + rb_len a \<le> rb_off b"

text \<open>
  The keys of \<open>offset_recv\<close> are, in order, the offsets of the queued chunks; the chunks are
  non-empty, at most 1024 bytes long, disjoint and ascending, and end before \<open>off\<close>.
\<close>

definition sb_inv :: "send_buf \<Rightarrow> bool" where
  "sb_inv s \<longleftrightarrow> map fst (offset_recv s) = map rb_off (sb_data s) \<and>
     sorted_wrt before (sb_data s) \<and> (\<forall>b \<in> set (sb_data s). chunk_ok (sb_off s) b) \<and>
     sb_off s < lim64 \<and> sb_error s = None"

definition sb_view :: "send_buf \<Rightarrow> (nat \<times> bytes) list" where
  "sb_view s = map (\<lambda>b. (rb_off b, rb_data b)) (sb_data s)"

definition sb_acked :: "send_buf \<Rightarrow> nat set" where
  "sb_acked s = {k. bt_get (offset_recv s) k = Some False}"

lemma sb_inv_new [simp]: "sb_inv (SendBuf_new md)"
  by (simp add: sb_inv_def SendBuf_new_def)

lemma chunk_ok_wf: "chunk_ok e b \<Longrightarrow> e < lim64 \<Longrightarrow> rb_wf b"
  by (auto simp: chunk_ok_def rb_wf_def)

lemma sorted_before_offsets:
  assumes "sorted_wrt before bs" and "\<forall>b \<in> set bs. chunk_ok e b"
  shows "sorted_wrt (<) (map rb_off bs)"
proof -
  have "sorted_wrt (\<lambda>a b. rb_off a < rb_off b) bs"
    using assms(1)
    by (rule sorted_wrt_mono_rel [rotated]) (use assms(2) in \<open>fastforce simp: before_def chunk_ok_def\<close>)
  then show ?thesis by (simp add: sorted_wrt_map)
qed

lemma sb_inv_bt_wf: "sb_inv s \<Longrightarrow> bt_wf (offset_recv s)"
  using sorted_before_offsets by (auto simp: sb_inv_def bt_wf_def)

lemma sb_inv_distinct: "sb_inv s \<Longrightarrow> distinct (map rb_off (sb_data s))"
  using sorted_before_offsets strict_sorted_iff by (auto simp: sb_inv_def)

text \<open>Walking chunks and flags side by side is looking each chunk's offset up.\<close>

lemma filter_zip_flags:
  assumes "map fst m = map f xs" and "distinct (map f xs)"
  shows "map fst (filter snd (zip xs (map snd m))) = filter (\<lambda>x. map_of m (f x) = Some True) xs"
proof -
  have "length xs = length m" using assms(1) by (metis length_map)
  then show ?thesis
    using assms
  proof (induction xs m rule: list_induct2)
    case (Cons x xs kv m)
    moreover have "filter (\<lambda>y. map_of (kv # m) (f y) = Some True) xs =
        filter (\<lambda>y. map_of m (f y) = Some True) xs"
      using Cons.prems by (intro filter_cong) (auto simp: image_iff)
    ultimately show ?case by (cases kv) auto
  qed simp
qed

lemma filter_flags_keys:
  assumes "distinct (map fst m)"
  shows "map fst (filter snd m) = filter (\<lambda>k. map_of m k = Some True) (map fst m)"
  using assms
proof (induction m)
  case (Cons kv m)
  moreover have "filter (\<lambda>k. map_of (kv # m) k = Some True) (map fst m) =
      filter (\<lambda>k. map_of m k = Some True) (map fst m)"
    using Cons.prems by (intro filter_cong) (force simp: image_iff)+
  ultimately show ?case by (cases kv) auto
qed simp

lemma sb_inv_keys: "sb_inv s \<Longrightarrow> fst ` set (offset_recv s) = rb_off ` set (sb_data s)"
  by (auto simp: sb_inv_def simp flip: set_map)

lemma sb_inv_chunk: "sb_inv s \<Longrightarrow> b \<in> set (sb_data s) \<Longrightarrow> chunk_ok (sb_off s) b"
  by (simp add: sb_inv_def)

lemma sb_view_entry:
  assumes "sb_inv s" and "(k, c) \<in> set (sb_view s)"
  shows "c \<noteq> []" "length c \<le> 1024" "k + length c \<le> sb_off s" "k < sb_off s" "k < lim64"
proof -
  obtain b where b: "b \<in> set (sb_data s)" "k = rb_off b" "c = rb_data b"
    using assms(2) by (auto simp: sb_view_def)
  have ok: "chunk_ok (sb_off s) b" and "sb_off s < lim64"
    using assms(1) b(1) by (simp_all add: sb_inv_def)
  then have l: "0 < length c" "length c \<le> 1024" "k + length c \<le> sb_off s"
    using b by (auto simp: chunk_ok_def SEND_BUFFER_SIZE_def)
  then show "c \<noteq> []" "length c \<le> 1024" "k + length c \<le> sb_off s" by auto
  show "k < sb_off s" using l by linarith
  then show "k < lim64" using \<open>sb_off s < lim64\<close> by linarith
qed

lemma sb_flag_lookup:
  assumes "sb_inv s" and "b \<in> set (sb_data s)"
  shows "bt_get (offset_recv s) (rb_off b) = Some True \<longleftrightarrow> rb_off b \<notin> sb_acked s"
proof -
  have "rb_off b \<in> fst ` set (offset_recv s)" using assms by (simp add: sb_inv_keys)
  then have "bt_get (offset_recv s) (rb_off b) \<noteq> None" by (simp add: map_of_eq_None_iff)
  then show ?thesis by (auto simp: sb_acked_def)
qed

lemma recv_and_drop_spec:
  assumes "sb_inv s"
  shows "recv_and_drop k s =
           Some (s\<lparr>sb_data := filter (\<lambda>b. rb_off b \<notin> sb_acked s) (sb_data s),
                   offset_recv := filter snd (offset_recv s)\<rparr>)"
proof -
  have keys: "map fst (offset_recv s) = map rb_off (sb_data s)"
    using assms by (simp add: sb_inv_def)
  then have "length (sb_data s) = length (offset_recv s)" by (metis length_map)
  moreover have "filter (\<lambda>b. bt_get (offset_recv s) (rb_off b) = Some True) (sb_data s) =
      filter (\<lambda>b. rb_off b \<notin> sb_acked s) (sb_data s)"
    using assms by (intro filter_cong) (simp_all add: sb_flag_lookup)
  ultimately show ?thesis
    using filter_zip_flags [OF keys sb_inv_distinct [OF assms]]
    by (cases "sb_data s = []") (simp_all add: recv_and_drop_def)
qed

lemma recv_and_drop_inv:
  assumes "sb_inv s" and "recv_and_drop k s = Some s'"
  shows "sb_inv s'"
proof -
  have keys: "map fst (offset_recv s) = map rb_off (sb_data s)"
    using assms(1) by (simp add: sb_inv_def)
  have "map fst (filter snd (offset_recv s)) =
      map rb_off (filter (\<lambda>b. bt_get (offset_recv s) (rb_off b) = Some True) (sb_data s))"
    using filter_flags_keys [of "offset_recv s"] sb_inv_distinct [OF assms(1)]
    by (simp add: keys filter_map o_def)
  also have "\<dots> = map rb_off (filter (\<lambda>b. rb_off b \<notin> sb_acked s) (sb_data s))"
    using assms(1) by (intro arg_cong [of _ _ "map rb_off"] filter_cong) (simp_all add: sb_flag_lookup)
  finally show ?thesis
    using assms by (auto simp: recv_and_drop_spec sb_inv_def sorted_wrt_filter)
qed

lemma ack_and_drop_inv: "sb_inv s \<Longrightarrow> sb_inv (ack_and_drop k s)"
  by (simp add: sb_inv_def ack_and_drop_def)

lemma sb_view_ack [simp]: "sb_view (ack_and_drop k s) = sb_view s"
  by (simp add: sb_view_def ack_and_drop_def)

lemma sb_view_keys: "sb_inv s \<Longrightarrow> fst ` set (sb_view s) = dom (bt_get (offset_recv s))"
  by (simp add: sb_view_def dom_map_of_conv_image_fst sb_inv_keys image_image)

lemma sb_acked_ack: "sb_inv s \<Longrightarrow> sb_acked (ack_and_drop k s) = sb_acked s \<union> ({k} \<inter> fst ` set (sb_view s))"
  by (auto simp: sb_acked_def ack_and_drop_def get_bt_set sb_view_keys split: if_splits)

lemma recv_and_drop_contract:
  assumes "sb_inv s"
  shows "\<exists>s'. recv_and_drop k s = Some s' \<and> sb_inv s' \<and> sb_acked s' = {} \<and>
              sb_view s' = filter (\<lambda>(k, _). k \<notin> sb_acked s) (sb_view s)"
proof -
  from recv_and_drop_spec [OF assms] obtain s' where s': "recv_and_drop k s = Some s'"
    and eq: "s' = s\<lparr>sb_data := filter (\<lambda>b. rb_off b \<notin> sb_acked s) (sb_data s),
                   offset_recv := filter snd (offset_recv s)\<rparr>" by simp
  have "sb_acked s' = {}"
    using eq by (auto simp: sb_acked_def dest!: map_of_SomeD)
  moreover have "sb_view s' = filter (\<lambda>(k, _). k \<notin> sb_acked s) (sb_view s)"
    using eq by (simp add: sb_view_def filter_map o_def)
  ultimately show ?thesis
    using s' recv_and_drop_inv [OF assms s'] by blast
qed

interpretation sbq: retransmit_queue sb_view sb_acked ack_and_drop "recv_and_drop k" sb_inv
  by unfold_locales
    (simp_all add: sb_acked_ack ack_and_drop_inv recv_and_drop_contract)

section \<open>Writing a round\<close>

text \<open>The pieces \<open>write\<close> cuts its input into: one that completes a block, then whole blocks.\<close>

definition pieces :: "usize \<Rightarrow> bytes \<Rightarrow> bytes list" where
  "pieces off_len dat =
     (if 0 < off_len
      then if off_len < length dat then take off_len dat # chunks 1024 (drop off_len dat) else [dat]
      else chunks 1024 dat)"

lemma concat_pieces: "concat (pieces off_len dat) = dat"
  by (simp add: pieces_def)

lemma pieces_sizes:
  assumes "dat \<noteq> []" and "off_len \<le> 1024" and "c \<in> set (pieces off_len dat)"
  shows "c \<noteq> [] \<and> length c \<le> 1024"
  using assms chunks_sizes [of 1024 c dat] chunks_sizes [of 1024 c "drop off_len dat"]
  by (auto simp: pieces_def split: if_splits)

lemma SendBuf_push_spec:
  assumes inv: "sb_inv s" and c: "c \<noteq> []" "length c \<le> 1024" and "sb_off s + length c < lim64"
    and "sb_len s + length c < lim64" and "used_length s + length c < lim64"
  shows "\<exists>s'. SendBuf_push c s = Some s' \<and> sb_inv s' \<and> sb_view s' = sb_view s @ [(sb_off s, c)] \<and>
              sb_off s' = sb_off s + length c \<and> sb_len s' = sb_len s + length c \<and>
              used_length s' = used_length s + length c \<and> max_data s' = max_data s \<and>
              sb_sent s' = sb_sent s \<and> sb_pos s' = sb_pos s \<and> sb_acked s' = sb_acked s"
proof -
  let ?m = "bt_insert (sb_off s) True (offset_recv s)"
  let ?b = "RangeBuf_from c (sb_off s)"
  have below: "rb_off b < sb_off s" if "b \<in> set (sb_data s)" for b
    using sb_inv_chunk [OF inv that] by (simp add: chunk_ok_def)
  have "?m = offset_recv s @ [(sb_off s, True)]"
    by (rule bt_insert_last) (use below in \<open>auto simp: sb_inv_keys [OF inv]\<close>)
  moreover have "{k. bt_get ?m k = Some False} = sb_acked s"
  proof -
    have "sb_off s \<notin> fst ` set (offset_recv s)" using below unfolding sb_inv_keys [OF inv] by (metis imageE less_irrefl)
    then have "bt_get (offset_recv s) (sb_off s) = None" by (simp add: map_of_eq_None_iff)
    then show ?thesis
      using get_bt_insert [OF sb_inv_bt_wf [OF inv], of "sb_off s" True] by (auto simp: sb_acked_def)
  qed
  moreover have "sorted_wrt before (sb_data s @ [?b])"
    using inv by (auto simp: sb_inv_def sorted_wrt_append before_def chunk_ok_def)
  moreover have "\<forall>b \<in> set (sb_data s @ [?b]). chunk_ok (sb_off s + length c) b"
    using inv c by (auto simp: sb_inv_def chunk_ok_def SEND_BUFFER_SIZE_def)
  ultimately show ?thesis
    using assms by (simp add: SendBuf_push_def sb_inv_def sb_view_def sb_acked_def)
qed

lemma push_chunks_spec:
  assumes "sb_inv s" and "\<forall>c \<in> set cs. c \<noteq> [] \<and> length c \<le> 1024"
    and "sb_off s + length (concat cs) < lim64" and "sb_len s + length (concat cs) < lim64"
    and "used_length s + length (concat cs) < lim64" and "n + length (concat cs) < lim64"
  shows "\<exists>s'. push_chunks cs n s = Some (n + length (concat cs), s') \<and> sb_inv s' \<and>
              sb_view s' = sb_view s @ at_offsets (sb_off s) cs \<and>
              sb_off s' = sb_off s + length (concat cs) \<and> sb_len s' = sb_len s + length (concat cs) \<and>
              used_length s' = used_length s + length (concat cs) \<and> max_data s' = max_data s \<and>
              sb_sent s' = sb_sent s \<and> sb_pos s' = sb_pos s \<and> sb_acked s' = sb_acked s"
  using assms
proof (induction cs arbitrary: n s)
  case (Cons c cs)
  obtain s1 where s1: "SendBuf_push c s = Some s1" "sb_inv s1"
      "sb_view s1 = sb_view s @ [(sb_off s, c)]" "sb_off s1 = sb_off s + length c"
      "sb_len s1 = sb_len s + length c" "used_length s1 = used_length s + length c"
      "max_data s1 = max_data s" "sb_sent s1 = sb_sent s" "sb_pos s1 = sb_pos s" "sb_acked s1 = sb_acked s"
    using SendBuf_push_spec [of s c] Cons.prems by auto
  with Cons.prems Cons.IH [of s1 "n + length c"] show ?case
    by (auto simp: add.assoc)
qed simp

text \<open>The three branches of \<open>write\<close> are one loop over the pieces.\<close>

lemma write_branches:
  assumes "d \<noteq> []" and "length d < lim64"
  shows "(if off_len > 0 \<and> \<not> length d > off_len then do {
            s \<leftarrow> SendBuf_push d s;
            Some (Ok (length d), s)
          }
          else do {
            s \<leftarrow> (if off_len > 0 then SendBuf_push (take off_len d) s else Some s);
            rest \<leftarrow> slice_from d off_len;
            (n, s) \<leftarrow> push_chunks (chunks SEND_BUFFER_SIZE rest) off_len s;
            Some (Ok n, s)
          }) = map_option (\<lambda>(n, s). (Ok n, s)) (push_chunks (pieces off_len d) 0 s)"
proof -
  have "(do { (n, s) \<leftarrow> p; Some (Ok n, s) }) = map_option (\<lambda>(n, s). (Ok n, s)) p"
    for p :: "(nat \<times> send_buf) option"
    by (cases p) auto
  with assms show ?thesis
    by (cases "SendBuf_push (take off_len d) s")
      (auto simp: pieces_def SEND_BUFFER_SIZE_def split: option.split)
qed

definition queued :: "(nat \<times> bytes) list \<Rightarrow> nat" where
  "queued v = sum_list (map (length \<circ> snd) v)"

lemma SendBuf_len_view: "SendBuf_len s = queued (sb_view s)"
  by (simp add: SendBuf_len_def sb_view_def queued_def o_def)

definition unacked :: "send_buf \<Rightarrow> (nat \<times> bytes) list" where
  "unacked s = filter (\<lambda>(k, _). k \<notin> sb_acked s) (sb_view s)"

definition accepted :: "bytes \<Rightarrow> usize \<Rightarrow> send_buf \<Rightarrow> nat" where
  "accepted dat window s =
     (if window \<le> queued (unacked s) then 0 else min (length dat) (window - queued (unacked s)))"

text \<open>\<open>write\<close> after the marked chunks are dropped: nothing, or one run over the pieces of what is accepted.\<close>

lemma SendBuf_write_eq:
  fixes window :: usize
  assumes s1: "recv_and_drop k s = Some s1" "sb_view s1 = unacked s" "sb_error s1 = None" and room: "length dat < lim64"
  defines "u \<equiv> queued (unacked s)" and "n \<equiv> accepted dat window s"
  defines "s2 \<equiv> s1\<lparr>max_data := window, removed := 0, sb_sent := 0, sb_len := u, used_length := u\<rparr>"
  shows "SendBuf_write dat window off_len k s =
      (if n = 0 then Some (Ok 0, s2)
       else map_option (\<lambda>(n, s). (Ok n, s)) (push_chunks (pieces off_len (take n dat)) 0 s2))"
proof -
  have len: "SendBuf_len (s1\<lparr>max_data := window, removed := 0, sb_sent := 0\<rparr>) = u" "SendBuf_len s2 = u"
    using s1(2) by (simp_all add: SendBuf_len_view sb_view_def u_def s2_def)
  show ?thesis
  proof (cases "window \<le> u \<or> dat = []")
    case True
    then have "n = 0" by (auto simp: n_def accepted_def u_def)
    with True show ?thesis by (auto simp: SendBuf_write_def s1(1) len(1) s2_def Let_def)
  next
    case False
    then have n: "n = min (length dat) (window - u)" "take n dat \<noteq> []" "length (take n dat) < lim64" "n \<noteq> 0"
      using room by (auto simp: n_def accepted_def u_def)
    have "SendBuf_cap s2 = Some (Ok (window - u), s2)"
      using False len(2) s1(3) by (simp add: SendBuf_cap_def s2_def)
    moreover have "(if window - u < length dat then take (window - u) dat else dat) = take n dat"
      by (simp add: n(1) min_def)
    ultimately show ?thesis
      using False n(2,4) write_branches [OF n(2,3), of off_len s2]
      by (simp add: SendBuf_write_def s1(1) len(1) flip: s2_def)
  qed
qed

lemma SendBuf_write_spec:
  assumes inv: "sb_inv s" and off: "off_len \<le> 1024" and win: "window < lim64"
    and room: "sb_off s + length dat < lim64"
  defines "n \<equiv> accepted dat window s"
  shows "\<exists>s'. SendBuf_write dat window off_len k s = Some (Ok n, s') \<and> sb_inv s' \<and>
     sb_view s' = unacked s @ (if n = 0 then [] else at_offsets (sb_off s) (pieces off_len (take n dat))) \<and>
     sb_off s' = sb_off s + n \<and> sb_len s' = queued (unacked s) + n \<and>
     used_length s' = queued (unacked s) + n \<and> max_data s' = window \<and> sb_sent s' = 0 \<and>
     sb_pos s' = sb_pos s \<and> sb_acked s' = {}"
proof -
  obtain s1 where s1: "recv_and_drop k s = Some s1" "sb_inv s1" "sb_view s1 = unacked s" "sb_acked s1 = {}"
    using recv_and_drop_contract [OF inv, of k] by (auto simp: unacked_def)
  have fr: "sb_off s1 = sb_off s" "sb_pos s1 = sb_pos s" "sb_error s1 = None"
    using s1(1,2) by (auto simp: recv_and_drop_spec [OF inv] sb_inv_def)
  define u where "u = queued (unacked s)"
  define s2 where "s2 = s1\<lparr>max_data := window, removed := 0, sb_sent := 0, sb_len := u, used_length := u\<rparr>"
  have s2: "sb_inv s2" "sb_view s2 = unacked s" "sb_acked s2 = {}" "sb_off s2 = sb_off s" "sb_len s2 = u"
    "used_length s2 = u" "max_data s2 = window" "sb_sent s2 = 0" "sb_pos s2 = sb_pos s"
    using s1(2-4) fr by (auto simp: s2_def sb_inv_def sb_view_def sb_acked_def)
  note eq = SendBuf_write_eq [OF s1(1,3) fr(3), of dat window off_len, folded n_def u_def, folded s2_def]
  show ?thesis
  proof (cases "n = 0")
    case True
    with eq s2 room show ?thesis by (simp add: u_def)
  next
    case False
    then have n: "n \<le> length dat" "take n dat \<noteq> []" "u + n \<le> window"
      by (auto simp: n_def accepted_def u_def split: if_splits)
    have sizes: "\<forall>c \<in> set (pieces off_len (take n dat)). c \<noteq> [] \<and> length c \<le> 1024"
      using pieces_sizes [OF n(2) off] by blast
    have len_n: "length (concat (pieces off_len (take n dat))) = n"
      using n(1) by (simp add: concat_pieces)
    from push_chunks_spec [OF s2(1) sizes, of 0, unfolded len_n s2] n win room
    show ?thesis using False eq by (auto simp: u_def)
  qed
qed

section \<open>Emitting a round\<close>

lemma queued_simps [simp]:
  "queued [] = 0" "queued (x # v) = length (snd x) + queued v" "queued (v @ v') = queued v + queued v'"
  by (simp_all add: queued_def)

lemma queued_drop_nth:
  "p < length v \<Longrightarrow> queued (drop p v) = length (snd (v ! p)) + queued (drop (Suc p) v)"
  by (simp flip: Cons_nth_drop_Suc)

lemma queued_take_Suc:
  "p < length v \<Longrightarrow> queued (take (Suc p) v) = queued (take p v) + length (snd (v ! p))"
  by (simp add: take_Suc_conv_app_nth)

lemma queued_take_drop: "queued (take p v) + queued (drop p v) = queued v"
  by (metis append_take_drop_id queued_simps(3))

text \<open>The state in the middle of a round, with \<open>pos\<close> chunks sent.\<close>

definition in_round :: "send_buf \<Rightarrow> bool" where
  "in_round s \<longleftrightarrow> sb_inv s \<and> sb_pos s < length (sb_data s) \<and> queued (sb_view s) < lim64 \<and>
     sb_len s = queued (drop (sb_pos s) (sb_view s)) \<and> used_length s = sb_len s \<and>
     sb_sent s = queued (take (sb_pos s) (sb_view s))"

lemma sb_view_nth: "p < length (sb_data s) \<Longrightarrow> sb_view s ! p = (rb_off (sb_data s ! p), rb_data (sb_data s ! p))"
  by (simp add: sb_view_def)

lemma length_sb_view [simp]: "length (sb_view s) = length (sb_data s)"
  by (simp add: sb_view_def)

lemma off_front_in_round:
  assumes "sb_inv s" and "sb_pos s < length (sb_data s)"
  shows "SendBuf_off_front s = Some (rb_off (sb_data s ! sb_pos s))"
proof -
  let ?b = "sb_data s ! sb_pos s"
  have "chunk_ok (sb_off s) ?b" using assms by (simp add: sb_inv_chunk)
  moreover have "rb_wf ?b"
    using calculation assms(1) by (auto intro: chunk_ok_wf simp: sb_inv_def)
  ultimately show ?thesis
    using assms(2) by (auto simp: SendBuf_off_front_def rb_wf_ops chunk_ok_def simp flip: Cons_nth_drop_Suc)
qed

lemma emit_loop_in_round:
  assumes "sb_inv s" and p: "sb_pos s < length (sb_data s)" and out: "1024 \<le> length out"
    and b: "b = sb_data s ! sb_pos s" and "rb_len b \<le> sb_len s" "rb_len b \<le> used_length s"
  shows "emit_loop (length out) out s =
     Some (rb_len b, rb_data b @ drop (rb_len b) out,
           s\<lparr>sb_len := sb_len s - rb_len b, used_length := used_length s - rb_len b,
             sb_pos := sb_pos s + 1\<rparr>)"
proof -
  have ok: "chunk_ok (sb_off s) b" using assms by (simp add: sb_inv_chunk)
  moreover have "rb_wf b"
    using ok assms(1) by (auto intro: chunk_ok_wf simp: sb_inv_def)
  ultimately show ?thesis
    using assms
    by (subst emit_loop.simps)
      (auto simp: rb_wf_ops chunk_ok_def SEND_BUFFER_SIZE_def SendBuf_ready_def Let_def)
qed

text \<open>One packet: the chunk at \<open>pos\<close>, whole, with its offset.\<close>

lemma emit_in_round:
  assumes r: "in_round s" and out: "1024 \<le> length out"
    and c: "sb_view s ! sb_pos s = (k, c)"
    and stop: "stop \<longleftrightarrow> max_data s \<le> queued (take (Suc (sb_pos s)) (sb_view s)) \<or>
                        Suc (sb_pos s) = length (sb_data s)"
  shows "\<exists>s'. SendBuf_emit out s = Some (Ok (length c, k, stop), c @ drop (length c) out, s') \<and>
     sb_inv s' \<and> sb_view s' = sb_view s \<and> max_data s' = max_data s \<and> sb_acked s' = sb_acked s \<and>
     (if stop then sb_pos s' = 0 else in_round s' \<and> sb_pos s' = Suc (sb_pos s))"
proof -
  let ?v = "sb_view s" and ?p = "sb_pos s" and ?b = "sb_data s ! sb_pos s"
  have p: "?p < length (sb_data s)" and inv: "sb_inv s" using r by (simp_all add: in_round_def)
  have b: "rb_off ?b = k" "rb_data ?b = c" using c p by (simp_all add: sb_view_nth)
  have len: "rb_len ?b = length c"
    using sb_inv_chunk [OF inv, of ?b] p b by (simp add: chunk_ok_def)
  have q: "queued (drop ?p ?v) = length c + queued (drop (Suc ?p) ?v)"
    and t: "queued (take (Suc ?p) ?v) = queued (take ?p ?v) + length c"
    using queued_drop_nth [of ?p ?v] queued_take_Suc [of ?p ?v] p c by simp_all
  have tot: "queued (take (Suc ?p) ?v) < lim64"
    using queued_take_drop [of "Suc ?p" ?v] r by (simp add: in_round_def)
  define s1 where "s1 = s\<lparr>sb_len := sb_len s - length c, used_length := used_length s - length c,
      sb_pos := Suc ?p, sb_sent := queued (take (Suc ?p) ?v)\<rparr>"
  have "emit_loop (length out) out s = Some (length c, c @ drop (length c) out,
      s\<lparr>sb_len := sb_len s - length c, used_length := used_length s - length c, sb_pos := Suc ?p\<rparr>)"
    using emit_loop_in_round [OF inv p out refl] r q len b by (simp add: in_round_def)
  then have "SendBuf_emit out s = Some (Ok (length c, k, stop), c @ drop (length c) out,
      if stop then s1\<lparr>sb_pos := 0\<rparr> else s1)"
    using off_front_in_round [OF inv p] r t tot stop b p
    by (auto simp: SendBuf_emit_def s1_def in_round_def Let_def)
  moreover have "in_round s1" if "\<not> stop"
    using that r stop p q t by (auto simp: in_round_def s1_def sb_inv_def sb_view_def)
  moreover have "sb_inv s1" "sb_view s1 = ?v" "max_data s1 = max_data s" "sb_acked s1 = sb_acked s"
    using inv by (simp_all add: s1_def sb_inv_def sb_view_def sb_acked_def)
  ultimately show ?thesis
    by (auto simp: s1_def sb_inv_def sb_view_def sb_acked_def)
qed

text \<open>Emitting packets until \<open>emit\<close> says stop, with at most \<open>n\<close> of them.\<close>

fun emit_round :: "nat \<Rightarrow> bytes \<Rightarrow> send_buf \<Rightarrow> ((nat \<times> bytes) list \<times> bool \<times> send_buf) option" where
  "emit_round 0 out s = Some ([], False, s)"
| "emit_round (Suc n) out s = do {
     (r, out', s') \<leftarrow> SendBuf_emit out s;
     case r of
       Err e \<Rightarrow> None
     | Ok (len, offs, stop) \<Rightarrow>
         if stop then Some ([(offs, take len out')], True, s')
         else do {
           (ps, st, s'') \<leftarrow> emit_round n out s';
           Some ((offs, take len out') # ps, st, s'')
         }
   }"

text \<open>The packets of a round: until the window is used up or the queue is at its end.\<close>

fun window_prefix :: "nat \<Rightarrow> nat \<Rightarrow> (nat \<times> bytes) list \<Rightarrow> (nat \<times> bytes) list" where
  "window_prefix w sent [] = []"
| "window_prefix w sent (x # xs) =
     x # (if w \<le> sent + length (snd x) then [] else window_prefix w (sent + length (snd x)) xs)"

lemma window_prefix_all: "sent + queued v \<le> w \<Longrightarrow> \<forall>x \<in> set v. snd x \<noteq> [] \<Longrightarrow> window_prefix w sent v = v"
proof (induction v arbitrary: sent)
  case (Cons x v)
  have "v = [] \<or> 0 < queued v" using Cons.prems(2) by (cases v) auto
  with Cons show ?case by (auto simp: add.assoc)
qed simp

lemma emit_round_spec:
  assumes "in_round s" and "1024 \<le> length out" and "length (sb_data s) - sb_pos s \<le> n"
  shows "\<exists>s'. emit_round n out s =
       Some (window_prefix (max_data s) (sb_sent s) (drop (sb_pos s) (sb_view s)), True, s') \<and>
     sb_inv s' \<and> sb_view s' = sb_view s \<and> sb_acked s' = sb_acked s \<and> sb_pos s' = 0"
  using assms
proof (induction n arbitrary: s)
  case 0
  then show ?case by (simp add: in_round_def)
next
  case (Suc n)
  let ?v = "sb_view s" and ?p = "sb_pos s"
  obtain k c where c: "?v ! ?p = (k, c)" by force
  have p: "?p < length ?v" and sent: "sb_sent s = queued (take ?p ?v)"
    using Suc.prems(1) by (simp_all add: in_round_def)
  define stop where "stop \<longleftrightarrow> max_data s \<le> queued (take (Suc ?p) ?v) \<or> Suc ?p = length (sb_data s)"
  have dr: "drop ?p ?v = (k, c) # drop (Suc ?p) ?v" using p c by (metis Cons_nth_drop_Suc)
  have t: "queued (take (Suc ?p) ?v) = sb_sent s + length c"
    using queued_take_Suc [OF p] c sent by simp
  obtain s' where e: "SendBuf_emit out s = Some (Ok (length c, k, stop), c @ drop (length c) out, s')"
      "sb_inv s'" "sb_view s' = ?v" "max_data s' = max_data s" "sb_acked s' = sb_acked s"
      "if stop then sb_pos s' = 0 else in_round s' \<and> sb_pos s' = Suc ?p"
    using emit_in_round [OF Suc.prems(1,2) c stop_def] by blast
  show ?case
  proof (cases stop)
    case True
    with e t dr stop_def show ?thesis by auto
  next
    case False
    with e have r': "in_round s'" "sb_pos s' = Suc ?p" by simp_all
    have "length (sb_data s') = length (sb_data s)" using arg_cong [OF e(3), of length] by simp
    then have "length (sb_data s') - sb_pos s' \<le> n" using Suc.prems(3) r'(2) by simp
    from Suc.IH [OF r'(1) Suc.prems(2) this]
    obtain s'' where IH: "emit_round n out s' =
        Some (window_prefix (max_data s) (sb_sent s') (drop (Suc ?p) ?v), True, s'')"
      "sb_inv s''" "sb_view s'' = ?v" "sb_acked s'' = sb_acked s" "sb_pos s'' = 0"
      unfolding e(3-5) r'(2) by blast
    have "sb_sent s' = sb_sent s + length c"
      using r' e(3) t by (simp add: in_round_def)
    then have "window_prefix (max_data s) (sb_sent s) (drop ?p ?v) =
        (k, c) # window_prefix (max_data s) (sb_sent s') (drop (Suc ?p) ?v)"
      using False stop_def t by (simp add: dr)
    with IH e(1) False show ?thesis by simp
  qed
qed

section \<open>Every reachable buffer\<close>

lemma emit_loop_frame:
  "emit_loop n out s = Some (n', out', s') \<Longrightarrow>
     sb_data s' = sb_data s \<and> offset_recv s' = offset_recv s \<and> sb_off s' = sb_off s \<and>
     sb_error s' = sb_error s \<and> length out' = length out"
proof (induction n out s rule: emit_loop.induct)
  case (1 out_len out s)
  show ?case
  proof (cases "SEND_BUFFER_SIZE \<le> out_len \<and> SendBuf_ready s \<and> sb_pos s < length (sb_data s)")
    case True
    let ?b = "sb_data s ! sb_pos s"
    from 1(3) True obtain e where e: "RangeBuf_is_empty ?b = Some e"
      by (subst (asm) emit_loop.simps) (auto simp: Let_def Option.bind_eq_Some_conv)
    show ?thesis
    proof (cases e)
      case True': True
      then have "emit_loop out_len out (s\<lparr>sb_pos := sb_pos s + 1\<rparr>) = Some (n', out', s')"
        using 1(3) True e by (subst (asm) emit_loop.simps) simp
      with 1(1) True e True' show ?thesis by fastforce
    next
      case False
      have "min x out_len \<le> x" for x by simp
      then show ?thesis
        using 1(3) True e False
        by (subst (asm) emit_loop.simps) (auto simp: Let_def Option.bind_eq_Some_conv panic_simps)
    qed
  next
    case False
    with 1(3) show ?thesis
      by (subst (asm) emit_loop.simps) (auto split: if_splits)
  qed
qed

lemma emit_frame:
  "SendBuf_emit out s = Some (r, out', s') \<Longrightarrow>
     sb_data s' = sb_data s \<and> offset_recv s' = offset_recv s \<and> sb_off s' = sb_off s \<and>
     sb_error s' = sb_error s \<and> length out' = length out"
  by (auto simp: SendBuf_emit_def Let_def Option.bind_eq_Some_conv split: if_splits
      dest!: emit_loop_frame)

text \<open>Outside a round too, \<open>emit\<close> sends the chunk at the position or reports the end of the buffer.\<close>

lemma emit_loop_room:
  assumes "sb_inv s" and "sb_pos s < length (sb_data s)" and "1024 \<le> length out"
    and "b = sb_data s ! sb_pos s" and "\<not> (rb_len b \<le> sb_len s \<and> rb_len b \<le> used_length s)"
  shows "emit_loop (length out) out s = None"
proof -
  have ok: "chunk_ok (sb_off s) b" using assms by (simp add: sb_inv_chunk)
  moreover have "rb_wf b" using ok assms(1) by (auto intro: chunk_ok_wf simp: sb_inv_def)
  ultimately show ?thesis
    using assms
    by (subst emit_loop.simps)
      (auto simp: rb_wf_ops chunk_ok_def SEND_BUFFER_SIZE_def SendBuf_ready_def Let_def
        Option.bind_eq_None_conv panic_simps)
qed

lemma emit_any:
  assumes inv: "sb_inv s" and out: "1024 \<le> length out" and e: "SendBuf_emit out s = Some (r, out', s')"
  shows "if sb_pos s < length (sb_data s)
     then \<exists>stop. r = Ok (length (snd (sb_view s ! sb_pos s)), fst (sb_view s ! sb_pos s), stop) \<and>
            out' = snd (sb_view s ! sb_pos s) @ drop (length (snd (sb_view s ! sb_pos s))) out
     else \<exists>n stop. r = Ok (n, sb_off s, stop)"
proof (cases "sb_pos s < length (sb_data s)")
  case True
  let ?b = "sb_data s ! sb_pos s"
  have len: "rb_len ?b = length (rb_data ?b)"
    using sb_inv_chunk [OF inv, of ?b] True by (simp add: chunk_ok_def)
  obtain n o1 s1 where l: "emit_loop (length out) out s = Some (n, o1, s1)"
    using e by (cases "emit_loop (length out) out s") (auto simp: SendBuf_emit_def off_front_in_round [OF inv True])
  then have "rb_len ?b \<le> sb_len s \<and> rb_len ?b \<le> used_length s"
    using emit_loop_room [OF inv True out refl] by auto
  with emit_loop_in_round [OF inv True out refl] l
  have "n = rb_len ?b" "o1 = rb_data ?b @ drop (rb_len ?b) out" by auto
  with e l len True show ?thesis
    by (auto simp: SendBuf_emit_def off_front_in_round [OF inv True] Option.bind_eq_Some_conv Let_def
        sb_view_nth split: if_splits)
next
  case False
  have "SendBuf_off_front s = Some (sb_off s)" using False by (simp add: SendBuf_off_front_def)
  with e False show ?thesis
    by (auto simp: SendBuf_emit_def Option.bind_eq_Some_conv Let_def split: if_splits)
qed

text \<open>
  The states the operations of the buffer lead to.  The side conditions of \<open>write\<close> are what
  \<open>Connection::write\<close> passes: the rest of a 1024-byte block, and offsets within 64 bits.  \<open>clear\<close> and
  \<open>reset\<close> keep the flags of the chunks they drop, so they are steps here only on an empty queue.
\<close>

inductive sb_reachable :: "send_buf \<Rightarrow> bool" where
  sbr_new: "sb_reachable (SendBuf_new md)"
| sbr_write: "sb_reachable s \<Longrightarrow> off_len \<le> 1024 \<Longrightarrow> window < lim64 \<Longrightarrow>
     sb_off s + length dat < lim64 \<Longrightarrow>
     SendBuf_write dat window off_len k s = Some (r, s') \<Longrightarrow> sb_reachable s'"
| sbr_emit: "sb_reachable s \<Longrightarrow> SendBuf_emit out s = Some (r, out', s') \<Longrightarrow> sb_reachable s'"
| sbr_ack: "sb_reachable s \<Longrightarrow> sb_reachable (ack_and_drop k s)"
| sbr_update: "sb_reachable s \<Longrightarrow> sb_reachable (update_max_data md s)"
| sbr_drop: "sb_reachable s \<Longrightarrow> recv_and_drop k s = Some s' \<Longrightarrow> sb_reachable s'"
| sbr_cap: "sb_reachable s \<Longrightarrow> SendBuf_cap s = Some (r, s') \<Longrightarrow> sb_reachable s'"
| sbr_clear: "sb_reachable s \<Longrightarrow> sb_data s = [] \<Longrightarrow> sb_reachable (SendBuf_clear s)"
| sbr_reset: "sb_reachable s \<Longrightarrow> sb_data s = [] \<Longrightarrow> SendBuf_reset s = Some (r, s') \<Longrightarrow> sb_reachable s'"

text \<open>What \<open>clear\<close> and \<open>reset\<close> do to the flags and the chunks.\<close>

lemma clear_queue: "sb_data (SendBuf_clear s) = []" "offset_recv (SendBuf_clear s) = offset_recv s"
  by (simp_all add: SendBuf_clear_def)

lemma reset_queue:
  assumes "SendBuf_reset s = Some (r, s')"
  shows "sb_data s' = []" "offset_recv s' = offset_recv s" "sb_error s' = sb_error s" "sb_off s' \<le> sb_off s"
  using assms by (auto simp: SendBuf_reset_def SendBuf_off_back_def sub64_eq_Some Option.bind_eq_Some_conv)

lemma sb_reachable_inv: "sb_reachable s \<Longrightarrow> sb_inv s"
proof (induction rule: sb_reachable.induct)
  case (sbr_write s off_len window dat k r s')
  from SendBuf_write_spec [OF sbr_write.IH sbr_write.hyps(2-4), of k] sbr_write.hyps(5)
  show ?case by auto
next
  case (sbr_emit s out r out' s')
  then show ?case by (auto simp: sb_inv_def dest: emit_frame)
next
  case (sbr_drop s k s')
  then show ?case by (simp add: recv_and_drop_inv)
next
  case (sbr_cap s r s')
  then show ?case by (auto simp: SendBuf_cap_def sb_inv_def Let_def Option.bind_eq_Some_conv)
next
  case (sbr_clear s)
  then show ?case by (simp add: sb_inv_def SendBuf_clear_def)
next
  case (sbr_reset s r s')
  then show ?case using reset_queue [OF sbr_reset.hyps(3)] by (simp add: sb_inv_def)
qed (simp_all add: ack_and_drop_inv, simp add: sb_inv_def update_max_data_def)

text \<open>The first write of a new buffer, when its data fits one chunk and the window.\<close>

lemma new_simps [simp]:
  "sb_view (SendBuf_new md) = []" "unacked (SendBuf_new md) = []" "sb_off (SendBuf_new md) = 0"
  "sb_pos (SendBuf_new md) = 0" "sb_acked (SendBuf_new md) = {}"
  by (simp_all add: SendBuf_new_def sb_view_def unacked_def sb_acked_def)

lemma write_new:
  assumes "dat \<noteq> []" and "length dat \<le> 1024" and "length dat \<le> window" and "window < lim64"
  shows "\<exists>s'. SendBuf_write dat window 0 k (SendBuf_new md) = Some (Ok (length dat), s') \<and>
              sb_view s' = [(0, dat)]"
proof -
  have acc: "accepted dat window (SendBuf_new md) = length dat"
    using assms by (cases dat) (auto simp: accepted_def)
  have "pieces 0 dat = [dat]"
    using assms(1,2) by (simp add: pieces_def chunks_step)
  then show ?thesis
    using SendBuf_write_spec [of "SendBuf_new md" 0 window dat k] assms unfolding acc by auto
qed

text \<open>A \<open>write\<close> that leaves the queue within the window opens a round.\<close>

lemma write_opens_round:
  assumes "sb_inv s" and "sb_pos s = 0" and "off_len \<le> 1024" and "window < lim64"
    and "sb_off s + length dat < lim64" and "queued (unacked s) \<le> window"
    and "SendBuf_write dat window off_len k s = Some (r, s1)" and "sb_view s1 \<noteq> []"
  shows "in_round s1 \<and> sb_pos s1 = 0 \<and> max_data s1 = window \<and> queued (sb_view s1) \<le> window \<and> sb_sent s1 = 0"
proof -
  let ?n = "accepted dat window s"
  obtain s1' where w: "SendBuf_write dat window off_len k s = Some (Ok ?n, s1')" "sb_inv s1'"
      "sb_len s1' = queued (unacked s) + ?n" "used_length s1' = queued (unacked s) + ?n"
      "max_data s1' = window" "sb_sent s1' = 0" "sb_pos s1' = sb_pos s"
    and v: "sb_view s1' = unacked s @
      (if ?n = 0 then [] else at_offsets (sb_off s) (pieces off_len (take ?n dat)))"
    using SendBuf_write_spec [OF assms(1,3,4,5), of k] by blast
  have eq: "s1' = s1" using w(1) assms(7) by simp
  have "queued (at_offsets i cs) = length (concat cs)" for i cs
    by (induction cs arbitrary: i) auto
  then have q: "queued (sb_view s1) = queued (unacked s) + ?n"
    using v eq by (simp add: concat_pieces accepted_def)
  then have win: "queued (sb_view s1) \<le> window"
    using assms(6) by (auto simp: accepted_def)
  with w assms(2,8) eq q assms(4) show ?thesis by (simp add: in_round_def sb_view_def)
qed

section \<open>What the send buffer guarantees\<close>

text \<open>
  (C8) In every send buffer that \<open>new\<close>, \<open>write\<close>, \<open>emit\<close>, \<open>ack_and_drop\<close>, \<open>recv_and_drop\<close>, \<open>cap\<close> and
  \<open>update_max_data\<close>, and \<open>clear\<close> and \<open>reset\<close> of an empty queue can produce, the acknowledgement flags are
  exactly the offsets of the queued chunks, in the same order; the chunks are non-empty, at most 1024
  bytes, disjoint and ascending.  So dropping acknowledged chunks by walking the two containers side
  by side never panics and drops exactly the acknowledged ones.  \<open>clear\<close> and \<open>reset\<close> of any such buffer keep
  flags and chunks in step exactly when the queue was empty already; otherwise the flags stay behind.
\<close>

theorem send_buffer_invariant:
  assumes "sb_reachable s"
  shows "map fst (offset_recv s) = map rb_off (sb_data s) \<and>
         sorted_wrt before (sb_data s) \<and>
         (\<forall>b \<in> set (sb_data s). 0 < length (rb_data b) \<and> length (rb_data b) \<le> 1024) \<and>
         (\<exists>s'. recv_and_drop k s = Some s' \<and>
               sb_data s' = filter (\<lambda>b. bt_get (offset_recv s) (rb_off b) \<noteq> Some False) (sb_data s)) \<and>
         (map fst (offset_recv (SendBuf_clear s)) = map rb_off (sb_data (SendBuf_clear s)) \<longleftrightarrow> sb_data s = []) \<and>
         (\<forall>r s'. SendBuf_reset s = Some (r, s') \<longrightarrow>
            (map fst (offset_recv s') = map rb_off (sb_data s') \<longleftrightarrow> sb_data s = []))"
proof -
  have inv: "sb_inv s" using assms by (rule sb_reachable_inv)
  then have flags: "offset_recv s = [] \<longleftrightarrow> sb_data s = []" unfolding sb_inv_def by (metis Nil_is_map_conv)
  have "map fst (offset_recv s') = map rb_off (sb_data s') \<longleftrightarrow> sb_data s = []" if "SendBuf_reset s = Some (r, s')" for r s'
    using reset_queue [OF that] flags by simp
  moreover have "map fst (offset_recv (SendBuf_clear s)) = map rb_off (sb_data (SendBuf_clear s)) \<longleftrightarrow> sb_data s = []"
    using flags by (simp add: clear_queue)
  moreover have "\<forall>b \<in> set (sb_data s). 0 < length (rb_data b) \<and> length (rb_data b) \<le> 1024"
    using inv by (auto simp: sb_inv_def chunk_ok_def SEND_BUFFER_SIZE_def)
  ultimately show ?thesis
    using recv_and_drop_spec [OF inv, of k] inv by (simp add: sb_inv_def sb_acked_def)
qed

theorem send_buffer_invariant_witness:
  "\<exists>s. sb_reachable s \<and> sb_data s \<noteq> [] \<and> map fst (offset_recv s) = map rb_off (sb_data s) \<and>
     map fst (offset_recv (SendBuf_clear s)) \<noteq> map rb_off (sb_data (SendBuf_clear s))"
proof -
  obtain s' where w: "SendBuf_write [1, 2, 3] 9600 0 0 (SendBuf_new 10800) = Some (Ok 3, s')"
    and v: "sb_view s' = [(0, [1, 2, 3])]"
    using write_new [of "[1, 2, 3]" 9600 0 10800] by (auto simp: numeral_3_eq_3)
  have "sb_reachable s'"
    by (rule sbr_write [OF sbr_new _ _ _ w]) simp_all
  with send_buffer_invariant [OF this] v show ?thesis by (auto simp: sb_view_def)
qed

text \<open>
  (C10) Acknowledging any list of offsets, in any order and with repetitions or unknown offsets,
  and then dropping removes exactly the chunks acknowledged now or before and keeps all others
  with their bytes and their order; it never panics.
\<close>

theorem acks_remove_exactly:
  assumes "sb_inv s"
  shows "\<exists>s'. recv_and_drop k (fold ack_and_drop ks s) = Some s' \<and> sb_inv s' \<and>
              sb_view s' = filter (\<lambda>(k, _). k \<notin> sb_acked s \<and> k \<notin> set ks) (sb_view s)"
  using assms by (rule sbq.acks_then_drop)

theorem acks_remove_exactly_witness:
  "\<exists>s'. recv_and_drop 0 (fold ack_and_drop [7, 7]
          (SendBuf_new 0\<lparr>sb_data := [RangeBuf_from [1] 0, RangeBuf_from [2] 7], sb_off := 8,
                          offset_recv := [(0, True), (7, True)]\<rparr>)) = Some s' \<and>
        sb_view s' = [(0, [1])]"
proof -
  let ?s = "SendBuf_new 0\<lparr>sb_data := [RangeBuf_from [1] 0, RangeBuf_from [2] 7], sb_off := 8,
      offset_recv := [(0, True), (7, True)]\<rparr>"
  have "sb_inv ?s"
    by (simp add: sb_inv_def SendBuf_new_def before_def chunk_ok_def SEND_BUFFER_SIZE_def)
  from acks_remove_exactly [OF this, of 0 "[7, 7]"] show ?thesis
    by (auto simp: sb_view_def sb_acked_def)
qed

text \<open>
  (C11) One \<open>write\<close> takes from the input as many bytes as the window leaves beside the chunks not yet
  acknowledged, and reports that number.  It drops the acknowledged chunks, keeps the others, and
  appends the taken bytes unchanged as consecutive chunks from the current offset on, so the
  queue never exceeds the larger of the window and what was still unacknowledged.
\<close>

theorem write_fills_the_window:
  assumes "sb_inv s" and "off_len \<le> 1024" and "window < lim64"
    and "sb_off s + length dat < lim64" and "n = accepted dat window s"
  shows "\<exists>s' new. SendBuf_write dat window off_len k s = Some (Ok n, s') \<and> sb_inv s' \<and>
     sb_view s' = unacked s @ new \<and> concat (map snd new) = take n dat \<and>
     new = at_offsets (sb_off s) (map snd new) \<and> sb_off s' = sb_off s + n \<and>
     queued (sb_view s') \<le> max window (queued (unacked s))"
proof -
  obtain s' where s': "SendBuf_write dat window off_len k s = Some (Ok n, s')" "sb_inv s'"
      "sb_view s' = unacked s @ (if n = 0 then [] else at_offsets (sb_off s) (pieces off_len (take n dat)))"
      "sb_off s' = sb_off s + n"
    using SendBuf_write_spec [OF assms(1-4), of k] assms(5) by blast
  let ?new = "if n = 0 then [] else at_offsets (sb_off s) (pieces off_len (take n dat))"
  have new: "concat (map snd ?new) = take n dat" "?new = at_offsets (sb_off s) (map snd ?new)"
    by (auto simp: concat_pieces)
  have "queued ?new = length (concat (map snd ?new))"
    by (simp add: queued_def length_concat o_def)
  then have "queued (sb_view s') = queued (unacked s) + n"
    using s'(3) new(1) assms(5) by (simp add: accepted_def)
  then have "queued (sb_view s') \<le> max window (queued (unacked s))"
    using assms(5) by (auto simp: accepted_def)
  with s' new show ?thesis by blast
qed

theorem write_fills_the_window_witness:
  "\<exists>s' new. SendBuf_write [1, 2, 3] 2 0 0 (SendBuf_new 10800) = Some (Ok 2, s') \<and>
     concat (map snd new) = [1, 2] \<and> sb_view s' = new"
proof -
  have "2 = accepted [1, 2, 3] 2 (SendBuf_new 10800)" by (simp add: accepted_def)
  from write_fills_the_window [OF sb_inv_new _ _ _ this, of 0 0] show ?thesis by auto
qed



end
