(* ===== verification/Recv_Buf.thy ===== *)
theory Recv_Buf
  imports Errors Collections Range_Buf "HOL-Library.Sublist"
begin

text \<open>
  \<open>RecvBuf\<close> of \<open>src/lib.rs\<close>: the received chunks, keyed by the offset of their end, and the read
  position \<open>last_maxoff\<close>.  Missing data is not waited for: \<open>emit\<close> skips over a gap, leaving the bytes
  of the output buffer there as the caller initialised them.
\<close>

section \<open>State and operations\<close>

record recv_buf =
  rv_data :: "(nat, range_buf) btree_map"
  rv_off :: nat
  rv_len :: nat
  last_maxoff :: nat
  max_recv_off :: nat

definition RecvBuf_new :: recv_buf where
  "RecvBuf_new = \<lparr>rv_data = [], rv_off = 0, rv_len = 0, last_maxoff = 0, max_recv_off = 0\<rparr>"

definition RecvBuf_write :: "bytes \<Rightarrow> nat \<Rightarrow> recv_buf \<Rightarrow> (unit result \<times> recv_buf) option" where
  "RecvBuf_write out out_off s = do {
     let buf = RangeBuf_from out out_off;
     buf_len \<leftarrow> RangeBuf_len buf;
     e \<leftarrow> RangeBuf_max_off buf;
     tmp_off \<leftarrow> sub64 e buf_len;
     let s = (if rv_data s \<noteq> [] \<and> fst (last (rv_data s)) = tmp_off
              then s\<lparr>max_recv_off := tmp_off\<rparr> else s);
     Some (Ok (), s\<lparr>rv_data := bt_insert e buf (rv_data s)\<rparr>)
   }"

definition RecvBuf_max_ack :: "recv_buf \<Rightarrow> nat" where
  "RecvBuf_max_ack s = max_recv_off s"

definition RecvBuf_ready :: "recv_buf \<Rightarrow> bool" where
  "RecvBuf_ready s \<longleftrightarrow> rv_data s \<noteq> []"

text \<open>
  The loop of \<open>emit\<close>; \<open>len\<close>, \<open>cap\<close>, the output buffer and \<open>self\<close> are its state.  The three branches
  are those of the source: the gap before the first chunk is shorter than the room left, fills it
  exactly, or is longer.
\<close>

function recv_emit_loop ::
  "usize \<Rightarrow> usize \<Rightarrow> bytes \<Rightarrow> recv_buf \<Rightarrow> (usize \<times> bytes \<times> recv_buf) option" where
  "recv_emit_loop len cap out s =
     (if cap > 0 \<and> RecvBuf_ready s then
        (case rv_data s of
           [] \<Rightarrow> Some (len, out, s)
         | (k, buf) # rest \<Rightarrow> do {
             m \<leftarrow> RangeBuf_max_off buf;
             data_len \<leftarrow> RangeBuf_len buf;
             d \<leftarrow> sub64 m (last_maxoff s);
             zero_len \<leftarrow> (if d \<noteq> data_len then sub64 d data_len else Some 0);
             if zero_len < cap then do {
               cap \<leftarrow> sub64 cap zero_len;
               len \<leftarrow> add64 len zero_len;
               lm \<leftarrow> add64 (last_maxoff s) zero_len;
               let buf_len = min data_len cap;
               src \<leftarrow> slice_to (rb_data buf) buf_len;
               out \<leftarrow> copy_at out len src;
               lm \<leftarrow> add64 lm buf_len;
               if buf_len < data_len then do {
                 buf \<leftarrow> RangeBuf_consume buf_len buf;
                 Some (len, out, s\<lparr>last_maxoff := lm, rv_data := (k, buf) # rest\<rparr>)
               } else recv_emit_loop len cap out (s\<lparr>last_maxoff := lm, rv_data := rest\<rparr>)
             } else if zero_len = cap then do {
               lm \<leftarrow> add64 (last_maxoff s) zero_len;
               len \<leftarrow> add64 len zero_len;
               Some (len, out, s\<lparr>last_maxoff := lm\<rparr>)
             } else do {
               lm \<leftarrow> add64 (last_maxoff s) cap;
               Some (len, out, s\<lparr>last_maxoff := lm\<rparr>)
             }
           })
      else Some (len, out, s))"
  by pat_completeness auto
termination
  by (relation "measure (\<lambda>(_, _, _, s). length (rv_data s))") auto

declare recv_emit_loop.simps [simp del]

definition RecvBuf_emit :: "bytes \<Rightarrow> recv_buf \<Rightarrow> (usize result \<times> bytes \<times> recv_buf) option" where
  "RecvBuf_emit out s =
     (if \<not> RecvBuf_ready s then Some (Err Done, out, s)
      else do {
        (len, out, s) \<leftarrow> recv_emit_loop 0 (length out) out s;
        Some (Ok len, out, s)
      })"

definition RecvBuf_reset :: "nat \<Rightarrow> recv_buf \<Rightarrow> usize result \<times> recv_buf" where
  "RecvBuf_reset final_size s =
     (if final_size < rv_len s then (Err FinalSize, s)
      else (Ok (final_size - rv_len s), s\<lparr>rv_off := final_size, rv_data := []\<rparr>))"

definition RecvBuf_shutdown :: "recv_buf \<Rightarrow> recv_buf" where
  "RecvBuf_shutdown s = s\<lparr>rv_data := []\<rparr>"

definition RecvBuf_off_front :: "recv_buf \<Rightarrow> nat" where
  "RecvBuf_off_front s = rv_off s"

section \<open>Receiving chunks\<close>

text \<open>The end of a chunk, its key in the buffer, and a run of \<open>write\<close> calls.\<close>

definition chunk_end :: "nat \<times> bytes \<Rightarrow> nat" where
  "chunk_end c = fst c + length (snd c)"

fun write_chunks :: "(nat \<times> bytes) list \<Rightarrow> recv_buf \<Rightarrow> recv_buf option" where
  "write_chunks [] s = Some s"
| "write_chunks ((off, c) # cs) s = do { (r, s) \<leftarrow> RecvBuf_write c off s; write_chunks cs s }"

lemma RecvBuf_write_spec:
  assumes "off + length c < lim64"
  shows "\<exists>m. RecvBuf_write c off s =
     Some (Ok (), s\<lparr>max_recv_off := m, rv_data := bt_insert (off + length c) (RangeBuf_from c off) (rv_data s)\<rparr>)"
proof (rule exI)
  let ?m = "if rv_data s \<noteq> [] \<and> fst (last (rv_data s)) = off then off else max_recv_off s"
  show "RecvBuf_write c off s =
     Some (Ok (), s\<lparr>max_recv_off := ?m, rv_data := bt_insert (off + length c) (RangeBuf_from c off) (rv_data s)\<rparr>)"
    using assms rb_wf_ops [OF rb_wf_from [OF assms]]
    by (cases s) (simp add: RecvBuf_write_def Let_def)
qed

lemma RecvBuf_write_panics: "lim64 \<le> off + length c \<Longrightarrow> RecvBuf_write c off s = None"
  by (auto simp: RecvBuf_write_def RangeBuf_max_off_def RangeBuf_off_def RangeBuf_len_def
      Let_def Option.bind_eq_None_conv panic_simps)

lemma write_chunks_spec:
  assumes "\<forall>c \<in> set cs. chunk_end c < lim64"
  shows "\<exists>s'. write_chunks cs s = Some s' \<and> last_maxoff s' = last_maxoff s \<and>
     rv_data s' = fold (\<lambda>(k, b). bt_insert k b)
       (map (\<lambda>c. (chunk_end c, RangeBuf_from (snd c) (fst c))) cs) (rv_data s)"
  using assms
proof (induction cs arbitrary: s)
  case (Cons x cs)
  obtain off c where x: "x = (off, c)" by force
  with Cons.prems have "off + length c < lim64" by (simp add: chunk_end_def)
  from RecvBuf_write_spec [OF this, of s] obtain m where
    "RecvBuf_write c off s = Some (Ok (), s\<lparr>max_recv_off := m,
       rv_data := bt_insert (off + length c) (RangeBuf_from c off) (rv_data s)\<rparr>)" by blast
  moreover note Cons.IH [of "s\<lparr>max_recv_off := m,
       rv_data := bt_insert (off + length c) (RangeBuf_from c off) (rv_data s)\<rparr>"]
  ultimately show ?case
    using Cons.prems x by (auto simp: chunk_end_def)
qed simp

text \<open>
  What the receiver holds after any run of \<open>write\<close> calls, when no two different chunks end at the
  same offset: for every offset the one chunk that ends there.
\<close>

lemma write_chunks_get:
  assumes "\<forall>c \<in> set cs. chunk_end c < lim64" and "inj_on chunk_end (set cs)"
    and "bt_wf (rv_data s)" and "write_chunks cs s = Some s'"
  shows "bt_wf (rv_data s')"
    and "c \<in> set cs \<Longrightarrow> bt_get (rv_data s') (chunk_end c) = Some (RangeBuf_from (snd c) (fst c))"
    and "k \<notin> chunk_end ` set cs \<Longrightarrow> bt_get (rv_data s') k = bt_get (rv_data s) k"
proof -
  let ?kvs = "map (\<lambda>c. (chunk_end c, RangeBuf_from (snd c) (fst c))) cs"
  have d: "rv_data s' = fold (\<lambda>(k, b). bt_insert k b) ?kvs (rv_data s)"
    using write_chunks_spec [OF assms(1), of s] assms(4) by simp
  show "bt_wf (rv_data s')"
    unfolding d by (rule bt.invar_inserts [OF assms(3)])
  have g: "bt_get (rv_data s') = bt_get (rv_data s) ++ map_of (rev ?kvs)"
    unfolding d by (rule bt.get_inserts [OF assms(3)])
  show "bt_get (rv_data s') k = bt_get (rv_data s) k" if "k \<notin> chunk_end ` set cs"
  proof -
    have "map_of (rev ?kvs) k = None"
      using that by (auto simp: map_of_eq_None_iff)
    then show ?thesis by (simp add: g map_add_def)
  qed
  show "bt_get (rv_data s') (chunk_end c) = Some (RangeBuf_from (snd c) (fst c))" if "c \<in> set cs"
  proof -
    have "map_of (rev ?kvs) (chunk_end c) \<noteq> None"
      using that by (simp add: map_of_eq_None_iff image_image)
    then obtain b where b: "map_of (rev ?kvs) (chunk_end c) = Some b" by blast
    from map_of_SomeD [OF this] obtain c' where "c' \<in> set cs" "chunk_end c' = chunk_end c"
      and "b = RangeBuf_from (snd c') (fst c')" by auto
    with assms(2) that have "b = RangeBuf_from (snd c) (fst c)" by (auto dest: inj_onD)
    with b show ?thesis by (simp add: g)
  qed
qed

section \<open>Reading\<close>

text \<open>
  A readable buffer: the chunks are well formed, keyed by their ends, and each starts where the
  previous one ends or later; the first does not start before the read position.
\<close>

fun follows :: "nat \<Rightarrow> (nat \<times> range_buf) list \<Rightarrow> bool" where
  "follows lm [] \<longleftrightarrow> lm < lim64"
| "follows lm ((k, b) # m) \<longleftrightarrow>
     rb_wf b \<and> k = rb_off b + rb_len b \<and> lm \<le> rb_off b + rb_pos b \<and> follows k m"

definition readable :: "recv_buf \<Rightarrow> bool" where
  "readable s \<longleftrightarrow> follows (last_maxoff s) (rv_data s)"

lemma follows_mono: "follows lm m \<Longrightarrow> lm' \<le> lm \<Longrightarrow> follows lm' m"
  by (cases "(lm, m)" rule: follows.cases) auto

lemma follows_lim: "follows lm m \<Longrightarrow> lm < lim64"
  by (cases "(lm, m)" rule: follows.cases) (auto simp: rb_wf_def)

text \<open>One turn of the loop on a readable buffer, branch by branch.\<close>

definition gap :: "recv_buf \<Rightarrow> nat" where
  "gap s = (case rv_data s of [] \<Rightarrow> 0 | (_, b) # _ \<Rightarrow> rb_off b + rb_pos b - last_maxoff s)"

lemma emit_turn:
  assumes "readable s" and d: "rv_data s = (k, b) # rest" and "0 < cap" "len + cap = length out"
    and "length out < lim64"
  shows "recv_emit_loop len cap out s =
     (if gap s < cap then
        let n = min (rb_len b - rb_pos b) (cap - gap s);
            out' = take (len + gap s) out @ take n (rb_data b) @ drop (len + gap s + n) out;
            s' = s\<lparr>last_maxoff := rb_off b + rb_pos b + n\<rparr>
        in if n < rb_len b - rb_pos b
           then Some (len + gap s, out', s'\<lparr>rv_data := (k, b\<lparr>rb_pos := rb_pos b + n\<rparr>) # rest\<rparr>)
           else recv_emit_loop (len + gap s) (cap - gap s) out' (s'\<lparr>rv_data := rest\<rparr>)
      else if gap s = cap then Some (len + cap, out, s\<lparr>last_maxoff := last_maxoff s + cap\<rparr>)
      else Some (len, out, s\<lparr>last_maxoff := last_maxoff s + cap\<rparr>))"
proof -
  have b: "rb_wf b" "last_maxoff s \<le> rb_off b + rb_pos b" "k = rb_off b + rb_len b"
    using assms(1) d by (auto simp: readable_def)
  define g where "g = gap s"
  define l where "l = rb_len b - rb_pos b"
  have g: "rb_off b + rb_pos b = last_maxoff s + g" using b(2) d by (simp add: g_def gap_def)
  have w: "rb_off b + rb_len b < lim64" "rb_pos b \<le> rb_len b" "rb_len b \<le> length (rb_data b)"
    using b(1) by (auto simp: rb_wf_def)
  then have e: "rb_off b + rb_len b = last_maxoff s + g + l" using g by (simp add: l_def)
  have ops: "RangeBuf_max_off b = Some (last_maxoff s + g + l)" "RangeBuf_len b = Some l"
    using b(1) e by (simp_all add: rb_wf_ops l_def)
  have z: "(if g + l \<noteq> l then sub64 (g + l) l else Some 0) = Some g" by simp
  have lim: "last_maxoff s + g + l < lim64" using w(1) e by simp
  have l': "l \<le> length (rb_data b)" "rb_pos b + l < lim64" using w by (auto simp: l_def)
  consider "g < cap" | "g = cap" | "cap < g" by linarith
  then show ?thesis
  proof cases
    case 1
    then show ?thesis
      using assms(3-5) d ops z lim l' g unfolding g_def [symmetric] l_def [symmetric]
      by (subst recv_emit_loop.simps)
        (simp add: RecvBuf_ready_def RangeBuf_consume_def Let_def min_def)
  next
    case 2
    then show ?thesis
      using assms(3-5) d ops z lim unfolding g_def [symmetric] l_def [symmetric]
      by (subst recv_emit_loop.simps) (simp add: RecvBuf_ready_def)
  next
    case 3
    then show ?thesis
      using assms(3-5) d ops z lim unfolding g_def [symmetric] l_def [symmetric]
      by (subst recv_emit_loop.simps) (simp add: RecvBuf_ready_def)
  qed
qed

lemma emit_loop_idle: "cap = 0 \<or> rv_data s = [] \<Longrightarrow> recv_emit_loop len cap out s = Some (len, out, s)"
  by (subst recv_emit_loop.simps) (auto simp: RecvBuf_ready_def)

text \<open>What one call guarantees; \<open>progress\<close> is relative to the state before.\<close>

definition progress :: "recv_buf \<Rightarrow> recv_buf \<Rightarrow> bool" where
  "progress s s' \<longleftrightarrow> length (rv_data s') < length (rv_data s) \<or> last_maxoff s < last_maxoff s'"

definition emit_post :: "usize \<Rightarrow> bytes \<Rightarrow> recv_buf \<Rightarrow> usize \<times> bytes \<times> recv_buf \<Rightarrow> bool" where
  "emit_post len out s = (\<lambda>(n, out', s'). readable s' \<and> length out' = length out \<and>
     len \<le> n \<and> n \<le> length out \<and> last_maxoff s \<le> last_maxoff s' \<and>
     suffix (map fst (rv_data s')) (map fst (rv_data s)))"

text \<open>A turn of the loop ends the call, or it takes the whole first chunk and goes on behind it.\<close>

lemma emit_turn_cases:
  assumes s: "readable s" and d: "rv_data s = (k, b) # rest" and cap: "0 < cap" and len: "len + cap = length out"
    and out: "length out < lim64"
  obtains (stops) r where "recv_emit_loop len cap out s = Some r" "emit_post len out s r" "progress s (snd (snd r))"
    | (goes) out' where "gap s < cap" "length out' = length out" "readable (s\<lparr>last_maxoff := k, rv_data := rest\<rparr>)" "last_maxoff s \<le> k"
      "recv_emit_loop len cap out s = recv_emit_loop (len + gap s) (cap - gap s) out' (s\<lparr>last_maxoff := k, rv_data := rest\<rparr>)"
proof -
  have b: "rb_wf b" "last_maxoff s + gap s = rb_off b + rb_pos b" "k = rb_off b + rb_len b" "rb_pos b \<le> rb_len b" "follows k rest"
    using s d by (auto simp: readable_def gap_def rb_wf_def)
  note turn = emit_turn [OF s d cap len out]
  define n where "n = min (rb_len b - rb_pos b) (cap - gap s)"
  define out' where "out' = take (len + gap s) out @ take n (rb_data b) @ drop (len + gap s + n) out"
  have out': "length out' = length out" if "gap s < cap"
    using that len b(1) by (auto simp: out'_def n_def rb_wf_def)
  consider (skip) "cap \<le> gap s" | (part) "gap s < cap" "n < rb_len b - rb_pos b"
    | (whole) "gap s < cap" "n = rb_len b - rb_pos b"
    by (fastforce simp: n_def)
  then show thesis
  proof cases
    case skip
    then have "readable (s\<lparr>last_maxoff := last_maxoff s + cap\<rparr>)" using b d by (auto simp: readable_def)
    moreover have "recv_emit_loop len cap out s =
        Some (if gap s = cap then len + cap else len, out, s\<lparr>last_maxoff := last_maxoff s + cap\<rparr>)"
      using skip by (simp add: turn)
    ultimately show thesis using cap len by (intro stops) (auto simp: emit_post_def progress_def)
  next
    case part
    let ?s = "s\<lparr>last_maxoff := rb_off b + rb_pos b + n, rv_data := (k, b\<lparr>rb_pos := rb_pos b + n\<rparr>) # rest\<rparr>"
    have "0 < n" using part by (simp add: n_def)
    have "recv_emit_loop len cap out s = Some (len + gap s, out', ?s)"
      using part by (simp add: turn Let_def flip: n_def out'_def)
    moreover have "readable ?s" using b part(2) by (auto simp: readable_def rb_wf_def)
    ultimately show thesis
      using part(1) out' len d b(2) \<open>0 < n\<close> by (intro stops) (auto simp: emit_post_def progress_def)
  next
    case whole
    have k: "rb_off b + rb_pos b + n = k" "\<not> n < rb_len b - rb_pos b" using whole(2) b(3,4) by simp_all
    have "recv_emit_loop len cap out s = recv_emit_loop (len + gap s) (cap - gap s) out' (s\<lparr>last_maxoff := k, rv_data := rest\<rparr>)"
      using whole(1) k by (simp add: turn Let_def flip: n_def out'_def)
    moreover have "readable (s\<lparr>last_maxoff := k, rv_data := rest\<rparr>)" "last_maxoff s \<le> k"
      using b(2-5) by (simp_all add: readable_def)
    ultimately show thesis using whole(1) out' by (intro goes)
  qed
qed

lemma emit_loop_safe:
  assumes "readable s" and "len + cap = length out" and "length out < lim64"
  shows "\<exists>r. recv_emit_loop len cap out s = Some r \<and> emit_post len out s r \<and>
             (0 < cap \<and> rv_data s \<noteq> [] \<longrightarrow> progress s (snd (snd r)))"
  using assms
proof (induction "length (rv_data s)" arbitrary: len cap out s)
  case 0
  then show ?case by (simp add: emit_loop_idle emit_post_def)
next
  case (Suc j)
  then obtain k b rest where d: "rv_data s = (k, b) # rest" by (cases "rv_data s") auto
  show ?case
  proof (cases "cap = 0")
    case True
    with Suc.prems show ?thesis by (simp add: emit_loop_idle emit_post_def)
  next
    case False
    then have "0 < cap" by simp
    with Suc.prems(1) d show ?thesis using Suc.prems(2,3)
    proof (cases rule: emit_turn_cases)
      case (goes out')
      let ?s = "s\<lparr>last_maxoff := k, rv_data := rest\<rparr>"
      obtain r where r: "recv_emit_loop (len + gap s) (cap - gap s) out' ?s = Some r" "emit_post (len + gap s) out' ?s r"
        using Suc.hyps(1) [OF _ goes(3), of "len + gap s" "cap - gap s" out'] Suc.hyps(2) Suc.prems(2,3) goes(1,2) d by auto
      have "emit_post len out s r" using r(2) goes(2,4) d by (auto simp: emit_post_def suffix_Cons)
      moreover have "progress s (snd (snd r))"
        using r(2) d by (auto simp: emit_post_def progress_def dest!: suffix_length_le)
      ultimately show ?thesis using goes(5) r(1) by simp
    qed auto
  qed
qed

text \<open>Chunks as \<open>write\<close> stores them.\<close>

definition stored :: "(nat \<times> bytes) list \<Rightarrow> (nat, range_buf) btree_map" where
  "stored cs = map (\<lambda>c. (chunk_end c, RangeBuf_from (snd c) (fst c))) cs"

lemma stored_simps [simp]:
  "stored [] = []"
  "stored ((off, c) # cs) = (off + length c, RangeBuf_from c off) # stored cs"
  by (simp_all add: stored_def chunk_end_def)

lemma follows_stored_at_offsets:
  "lm + length (concat cs) < lim64 \<Longrightarrow> follows lm (stored (at_offsets lm cs))"
  by (induction cs arbitrary: lm) (auto simp: rb_wf_def)

lemma emit_loop_contiguous:
  assumes "rv_data s = stored (at_offsets (last_maxoff s) cs)"
    and "last_maxoff s + length (concat cs) < lim64"
    and "\<forall>c \<in> set cs. length c \<le> length out" and "out \<noteq> []" and "length out < lim64"
  shows "recv_emit_loop 0 (length out) out s =
     Some (0, fold (\<lambda>c out. c @ drop (length c) out) cs out,
           s\<lparr>last_maxoff := last_maxoff s + length (concat cs), rv_data := []\<rparr>)"
  using assms
proof (induction cs arbitrary: out s)
  case Nil
  then show ?case by (cases s) (simp add: emit_loop_idle)
next
  case (Cons c cs)
  let ?s = "s\<lparr>last_maxoff := last_maxoff s + length c, rv_data := stored (at_offsets (last_maxoff s + length c) cs)\<rparr>"
  let ?out = "c @ drop (length c) out"
  have r: "readable s"
    using Cons.prems(1,2) follows_stored_at_offsets [of "last_maxoff s" "c # cs"]
    by (simp add: readable_def)
  have d: "rv_data s = (last_maxoff s + length c, RangeBuf_from c (last_maxoff s)) #
      stored (at_offsets (last_maxoff s + length c) cs)"
    using Cons.prems(1) by simp
  have "gap s = 0" using d by (simp add: gap_def)
  then have "recv_emit_loop 0 (length out) out s = recv_emit_loop 0 (length out) ?out ?s"
    using emit_turn [OF r d, of "length out" 0 out] Cons.prems(3-5)
    by (simp add: min_absorb1 Let_def)
  moreover have len: "length ?out = length out" using Cons.prems(3) by simp
  moreover have "?out \<noteq> []" using len Cons.prems(4) by (metis length_0_conv)
  ultimately show ?case
    using Cons.IH [of ?s ?out] Cons.prems by (simp add: add.assoc)
qed

text \<open>A single chunk, at or after the read position.\<close>

lemma write_then_emit:
  assumes "rv_data s = []" and "last_maxoff s \<le> off" and "off + length c < lim64"
    and "g = off - last_maxoff s" and "g + length c \<le> length out" and "c \<noteq> []" and "length out < lim64"
  shows "\<exists>s1 s2. RecvBuf_write c off s = Some (Ok (), s1) \<and>
     RecvBuf_emit out s1 = Some (Ok g, take g out @ c @ drop (g + length c) out, s2) \<and>
     rv_data s2 = [] \<and> last_maxoff s2 = off + length c"
proof -
  obtain m where m: "RecvBuf_write c off s =
      Some (Ok (), s\<lparr>max_recv_off := m, rv_data := [(off + length c, RangeBuf_from c off)]\<rparr>)"
    using RecvBuf_write_spec [OF assms(3), of s] assms(1) by auto
  let ?s1 = "s\<lparr>max_recv_off := m, rv_data := [(off + length c, RangeBuf_from c off)]\<rparr>"
  have "0 < length c" using assms(6) by simp
  then have out: "0 < length out" "g < length out" using assms(5) by linarith+
  have r: "readable ?s1" using assms(2,3) by (simp add: readable_def rb_wf_def)
  have "gap ?s1 = g" using assms(4) by (simp add: gap_def)
  with emit_turn [OF r, of _ _ "[]" "length out" 0 out] out assms
  have "RecvBuf_emit out ?s1 = Some (Ok g, take g out @ c @ drop (g + length c) out,
      ?s1\<lparr>last_maxoff := off + length c, rv_data := []\<rparr>)"
    by (simp add: RecvBuf_emit_def RecvBuf_ready_def emit_loop_idle min_absorb1 Let_def)
  with m show ?thesis by auto
qed

lemma emit_late_panics:
  assumes "rv_data s = (k, b) # rest" and "rb_wf b" and "rb_off b + rb_pos b < last_maxoff s"
    and "out \<noteq> []"
  shows "RecvBuf_emit out s = None"
proof -
  have "rb_off b + rb_len b < last_maxoff s + (rb_len b - rb_pos b)" "rb_pos b \<le> rb_len b"
    using assms(2,3) by (auto simp: rb_wf_def)
  then show ?thesis
    using assms rb_wf_ops [OF assms(2)]
    by (cases "rb_off b + rb_len b < last_maxoff s")
      (auto simp: RecvBuf_emit_def RecvBuf_ready_def recv_emit_loop.simps)
qed

section \<open>What the receive buffer guarantees\<close>

text \<open>
  (C15) Reordering and duplication on the way do not matter: if two arrival sequences bring the
  same chunks, in whatever order and however often, the receiver ends up with the same contents;
  every chunk is there with its bytes, under its end offset, once.
\<close>

theorem arrival_order_irrelevant:
  assumes "set cs = set cs'" and "\<forall>c \<in> set cs. chunk_end c < lim64" and "inj_on chunk_end (set cs)"
  shows "\<exists>s s'. write_chunks cs RecvBuf_new = Some s \<and> write_chunks cs' RecvBuf_new = Some s' \<and>
     rv_data s = rv_data s' \<and> length (rv_data s) = card (set cs) \<and>
     (\<forall>c \<in> set cs. bt_get (rv_data s) (chunk_end c) = Some (RangeBuf_from (snd c) (fst c)))"
proof -
  have wf: "bt_wf (rv_data RecvBuf_new)" by (simp add: RecvBuf_new_def bt_wf_def)
  obtain s s' where w: "write_chunks cs RecvBuf_new = Some s" "write_chunks cs' RecvBuf_new = Some s'"
    using write_chunks_spec [OF assms(2)] write_chunks_spec [OF assms(2) [unfolded assms(1)]] by blast
  note g = write_chunks_get [OF assms(2,3) wf w(1)]
  note g' = write_chunks_get [OF assms(2,3) [unfolded assms(1)] wf w(2)]
  have "bt_get (rv_data s) k = bt_get (rv_data s') k" for k
    using g(2,3) g'(2,3) assms(1) by (cases "k \<in> chunk_end ` set cs") auto
  then have "rv_data s = rv_data s'"
    using bt.entries_unique [OF g(1) g'(1)] by blast
  moreover have "fst ` set (rv_data s) = chunk_end ` set cs"
  proof -
    have "dom (bt_get (rv_data s)) = chunk_end ` set cs"
    proof (rule set_eqI)
      fix k
      show "k \<in> dom (bt_get (rv_data s)) \<longleftrightarrow> k \<in> chunk_end ` set cs"
        using g(2,3) by (cases "k \<in> chunk_end ` set cs") (auto simp: RecvBuf_new_def)
    qed
    then show ?thesis using bt.entries_keys [OF g(1)] by simp
  qed
  then have "length (rv_data s) = card (set cs)"
    using distinct_card [OF bt.entries_distinct [OF g(1)]] card_image [OF assms(3)] by simp
  ultimately show ?thesis using w g(2) by blast
qed

theorem arrival_order_irrelevant_witness:
  "\<exists>s s'. write_chunks [(0, [1, 2]), (2, [3])] RecvBuf_new = Some s \<and>
     write_chunks [(2, [3]), (0, [1, 2]), (2, [3])] RecvBuf_new = Some s' \<and> rv_data s = rv_data s'"
  using arrival_order_irrelevant [of "[(0, [1, 2]), (2, [3])]" "[(2, [3]), (0, [1, 2]), (2, [3])]"]
  by (auto simp: chunk_end_def inj_on_def)

text \<open>
  (C16) Reading never panics while no chunk starts before the read position: an empty buffer
  reports \<open>Done\<close>; otherwise the output buffer keeps its length, the reported length fits in it, the
  read position does not move back, only chunks at the front are removed, and with room in the
  output buffer the call makes progress, so a reader that calls it in a loop comes to the end.
\<close>

theorem read_safe_and_progressing:
  assumes "readable s" and "length out < lim64"
  shows "if rv_data s = [] then RecvBuf_emit out s = Some (Err Done, out, s)
         else \<exists>n out' s'. RecvBuf_emit out s = Some (Ok n, out', s') \<and> readable s' \<and>
                length out' = length out \<and> n \<le> length out \<and> last_maxoff s \<le> last_maxoff s' \<and>
                suffix (map fst (rv_data s')) (map fst (rv_data s)) \<and>
                (out \<noteq> [] \<longrightarrow> length (rv_data s') < length (rv_data s) \<or> last_maxoff s < last_maxoff s')"
proof (cases "rv_data s = []")
  case True
  then show ?thesis by (simp add: RecvBuf_emit_def RecvBuf_ready_def)
next
  case False
  from emit_loop_safe [OF assms(1) _ assms(2), of 0 "length out"]
  obtain n out' s' where "recv_emit_loop 0 (length out) out s = Some (n, out', s')"
    "emit_post 0 out s (n, out', s')" "out \<noteq> [] \<longrightarrow> progress s s'"
    using False by force
  with False show ?thesis
    by (simp add: RecvBuf_emit_def RecvBuf_ready_def emit_post_def progress_def)
qed

theorem read_safe_and_progressing_witness:
  "\<exists>n out' s'. RecvBuf_emit [0, 0, 0] (RecvBuf_new\<lparr>rv_data := stored [(1, [7]), (3, [8])]\<rparr>) =
     Some (Ok n, out', s') \<and> n \<le> 3"
proof -
  have "readable (RecvBuf_new\<lparr>rv_data := stored [(1, [7]), (3, [8])]\<rparr>)"
    by (simp add: readable_def RecvBuf_new_def rb_wf_def)
  from read_safe_and_progressing [OF this, of "[0, 0, 0]"] show ?thesis by auto
qed

text \<open>
  (C23) A chunk at or after the read position is delivered at its place: it is copied behind as
  many untouched bytes of the output buffer as there are missing bytes before it.  The reported
  length, though, is the length of the gap alone; the bytes of the chunk are not counted, and
  the same chunk received again afterwards (a retransmission whose acknowledgement was lost)
  makes the next read panic on the subtraction of the read position.
\<close>

theorem late_duplicate_panics:
  assumes "rv_data s = []" and "last_maxoff s \<le> off" and "off + length c < lim64" and "c \<noteq> []"
    and "g = off - last_maxoff s" and "g + length c \<le> length out" and "length out < lim64"
  shows "\<exists>s1 s2 s3. RecvBuf_write c off s = Some (Ok (), s1) \<and>
     RecvBuf_emit out s1 = Some (Ok g, take g out @ c @ drop (g + length c) out, s2) \<and>
     RecvBuf_write c off s2 = Some (Ok (), s3) \<and> RecvBuf_emit out s3 = None"
proof -
  obtain s1 s2 where s: "RecvBuf_write c off s = Some (Ok (), s1)"
      "RecvBuf_emit out s1 = Some (Ok g, take g out @ c @ drop (g + length c) out, s2)"
      "rv_data s2 = []" "last_maxoff s2 = off + length c"
    using write_then_emit [OF assms(1,2,3,5,6,4,7)] by blast
  obtain m where m: "RecvBuf_write c off s2 =
      Some (Ok (), s2\<lparr>max_recv_off := m, rv_data := [(off + length c, RangeBuf_from c off)]\<rparr>)"
    using RecvBuf_write_spec [OF assms(3), of s2] s(3) by auto
  have "out \<noteq> []" using assms(4,6) by auto
  then have "RecvBuf_emit out (s2\<lparr>max_recv_off := m, rv_data := [(off + length c, RangeBuf_from c off)]\<rparr>) = None"
    using assms(3,4) s(4) by (intro emit_late_panics) (auto simp: rb_wf_from)
  with s(1,2) m show ?thesis by blast
qed

theorem late_duplicate_panics_witness:
  "\<exists>s1 s2 s3. RecvBuf_write [7, 8] 0 RecvBuf_new = Some (Ok (), s1) \<and>
     RecvBuf_emit [0, 0, 0] s1 = Some (Ok 0, [7, 8, 0], s2) \<and>
     RecvBuf_write [7, 8] 0 s2 = Some (Ok (), s3) \<and> RecvBuf_emit [0, 0, 0] s3 = None"
  using late_duplicate_panics [of RecvBuf_new 0 "[7, 8]" 0 "[0, 0, 0]"]
  by (simp add: RecvBuf_new_def)

text \<open>
  (C22) Contiguous chunks that each fit the output buffer are all consumed by one read, but all are
  copied to the start of the output buffer, one over the other, and the reported length is 0: the
  loop advances neither its length nor its remaining capacity by the bytes it copies.
\<close>

theorem contiguous_read_overwrites:
  assumes "rv_data s = stored (at_offsets (last_maxoff s) cs)" and "cs \<noteq> []"
    and "last_maxoff s + length (concat cs) < lim64"
    and "\<forall>c \<in> set cs. length c \<le> length out" and "out \<noteq> []" and "length out < lim64"
  shows "\<exists>out' s'. RecvBuf_emit out s = Some (Ok 0, out', s') \<and> rv_data s' = [] \<and>
     last_maxoff s' = last_maxoff s + length (concat cs) \<and>
     out' = fold (\<lambda>c out. c @ drop (length c) out) cs out \<and> take (length (last cs)) out' = last cs"
proof -
  have "rv_data s \<noteq> []" using assms(1,2) by (cases cs) auto
  moreover have "take (length (last cs)) (fold (\<lambda>c out. c @ drop (length c) out) cs out) = last cs"
    using assms(2) by (cases cs rule: rev_cases) auto
  ultimately show ?thesis
    using emit_loop_contiguous [OF assms(1,3-6)]
    by (simp add: RecvBuf_emit_def RecvBuf_ready_def)
qed

theorem contiguous_read_overwrites_witness:
  "\<exists>s'. RecvBuf_emit [0, 0, 0, 0] (RecvBuf_new\<lparr>rv_data := stored (at_offsets 0 [[1, 2], [3, 4]])\<rparr>) =
     Some (Ok 0, [3, 4, 0, 0], s')"
  using contiguous_read_overwrites
    [of "RecvBuf_new\<lparr>rv_data := stored (at_offsets 0 [[1, 2], [3, 4]])\<rparr>" "[[1, 2], [3, 4]]" "[0, 0, 0, 0]"]
  by (auto simp: RecvBuf_new_def)

text \<open>
  A chunk whose offset and length do not fit in 64 bits makes \<open>write\<close> panic; every other chunk
  is stored.  The offset comes from the packet header, so a single packet with an offset close to
  \<open>2^64\<close> and a payload stops the receiver.
\<close>

lemma recv_write_panics_iff:
  "RecvBuf_write c off s = None \<longleftrightarrow> 2 ^ 64 \<le> off + length c"
  using RecvBuf_write_spec [of off c s] RecvBuf_write_panics [of off c s]
  by (cases "off + length c < lim64") auto

end
