(* ===== verification/Connection.thy ===== *)
theory Connection
  imports Packet Recovery Send_Buf Recv_Buf
begin

text \<open>
  \<open>Connection\<close> of \<open>src/lib.rs\<close>: one endpoint.  The side opened with \<open>accept\<close> (\<open>is_server\<close>) holds the
  data and sends it in rounds: \<open>send_all\<close> fills the send buffer up to the congestion window,
  \<open>send_data\<close> is called for one packet after the other, with an \<open>ElictAck\<close> packet after every eighth
  and at the end of the round, and \<open>recv_slice\<close> digests the \<open>ACK\<close> packets that come back.  The side
  opened with \<open>connect\<close> stores the payloads and answers each \<open>ElictAck\<close> with an \<open>ACK\<close>.

  \<open>Instant::now()\<close> is an argument \<open>now\<close> of the operations that call it; the iteration order of a
  \<open>HashMap\<close> is an argument \<open>iter\<close>.  \<open>println!\<close> is left out.
\<close>

section \<open>State\<close>

definition HEADER_LENGTH :: usize where "HEADER_LENGTH = 26"
definition ELICT_FLAG :: usize where "ELICT_FLAG = 8"
definition CONGESTION_THREAHOLD :: fl where "CONGESTION_THREAHOLD = rnd64 (1 / 100)"

record connection =
  recv_count :: usize
  sent_count :: usize
  draining_timer :: "instant option"
  is_server :: bool
  handshake_completed :: bool
  handshake_confirmed :: bool
  closed :: bool
  timed_out :: bool
  server :: bool
  localaddr :: socket_addr
  peeraddr :: socket_addr
  recovery_of :: recovery
  pkt_num_spaces :: "pkt_num_space \<times> pkt_num_space"
  rtt :: duration
  handshake :: instant
  send_buffer :: send_buf
  rec_buffer :: recv_buf
  written_data :: usize
  stop_flag :: bool
  stop_ack :: bool
  prioritydic :: "(nat, u8) hash_map"
  sent_pkt :: "nat list"
  recv_dic :: "(nat, u8) hash_map"
  low_split_point :: fl
  high_split_point :: fl
  data_to_send :: bytes \<comment> \<open>the field \<open>send_data\<close>\<close>
  norm2_vec :: "fl list"
  total_offset :: nat
  recv_flag :: bool
  recv_hashmap :: "(nat, nat) hash_map"
  feed_back :: bool
  ack_point :: usize
  max_off :: nat
  send_num :: nat
  high_priority :: usize
  sent_number :: usize
  recv_pkt_sent_num :: "usize list"
  sent_dic :: "(nat, nat) hash_map"

definition Connection_new ::
  "socket_addr \<Rightarrow> socket_addr \<Rightarrow> config \<Rightarrow> bool \<Rightarrow> instant \<Rightarrow> connection result option" where
  "Connection_new loc peer cfg srv now = do {
     r \<leftarrow> Recovery_new cfg;
     Some (Ok \<lparr>recv_count = 0, sent_count = 0, draining_timer = None, is_server = srv,
       handshake_completed = False, handshake_confirmed = True, closed = False, timed_out = False,
       server = srv, localaddr = loc, peeraddr = peer, recovery_of = Recovery_on_init r,
       pkt_num_spaces = (PktNumSpace_new, PktNumSpace_new), rtt = 0, handshake = now,
       send_buffer = SendBuf_new (MIN_CLIENT_INITIAL_LEN * 8), rec_buffer = RecvBuf_new,
       written_data = 0, stop_flag = False, stop_ack = False, prioritydic = [], sent_pkt = [],
       recv_dic = [], low_split_point = Fin 0, high_split_point = Fin 0, data_to_send = [],
       norm2_vec = [], total_offset = 0, recv_flag = False, recv_hashmap = [], feed_back = False,
       ack_point = 0, max_off = 0, send_num = 0, high_priority = 0, sent_number = 0,
       recv_pkt_sent_num = [], sent_dic = []\<rparr>)
   }"

definition accept :: "socket_addr \<Rightarrow> socket_addr \<Rightarrow> config \<Rightarrow> instant \<Rightarrow> connection result option" where
  "accept loc peer cfg now = Connection_new loc peer cfg True now"

definition connect :: "socket_addr \<Rightarrow> socket_addr \<Rightarrow> config \<Rightarrow> instant \<Rightarrow> connection result option" where
  "connect loc peer cfg now = Connection_new loc peer cfg False now"

section \<open>Time\<close>

text \<open>
  A \<open>Duration\<close> counts nanoseconds up to \<open>2^64\<close> seconds; its arithmetic panics beyond.
  \<open>duration_since\<close> saturates at zero.
\<close>

definition dur :: "nat \<Rightarrow> duration option" where
  "dur n = (if n < 2 ^ 64 * 10 ^ 9 then Some n else None)"

definition duration_since :: "instant \<Rightarrow> instant \<Rightarrow> duration" where
  "duration_since t t0 = t - t0"

definition update_rtt :: "instant \<Rightarrow> connection \<Rightarrow> connection option" where
  "update_rtt now c =
     (if rtt c = 0 then Some (c\<lparr>rtt := duration_since now (handshake c)\<rparr>)
      else do { d \<leftarrow> dur (17 * duration_since now (handshake c)); Some (c\<lparr>rtt := d div 16\<rparr>) })"

definition new_rtt :: "duration \<Rightarrow> connection \<Rightarrow> connection option" where
  "new_rtt lst c = do {
     d \<leftarrow> dur (3 * lst);
     r \<leftarrow> dur (rtt c div 4 + d div 4);
     Some (c\<lparr>rtt := r\<rparr>)
   }"

definition set_handshake :: "instant \<Rightarrow> connection \<Rightarrow> connection" where
  "set_handshake now c = c\<lparr>handshake := now\<rparr>"

definition is_ack :: "instant \<Rightarrow> connection \<Rightarrow> bool" where
  "is_ack now c \<longleftrightarrow> duration_since now (handshake c) > rtt c"

section \<open>Priorities and accessors\<close>

definition priority_calculation :: "nat \<Rightarrow> connection \<Rightarrow> nat option" where
  "priority_calculation off c = do {
     let real_index = off div 1024;
     n \<leftarrow> index (norm2_vec c) real_index;
     Some (if fl_lt n (low_split_point c) then 1
           else if fl_lt n (high_split_point c) then 2 else 3)
   }"

definition findweight :: "nat \<Rightarrow> connection \<Rightarrow> u8 option" where
  "findweight unack c = hm_get (prioritydic c) unack"

definition send_ack :: "connection \<Rightarrow> bool" where
  "send_ack c = feed_back c"

definition is_stopped :: "connection \<Rightarrow> bool" where
  "is_stopped c \<longleftrightarrow> stop_flag c \<and> stop_ack c"

definition Connection_max_ack :: "connection \<Rightarrow> nat" where
  "Connection_max_ack c = RecvBuf_max_ack (rec_buffer c)"

definition Connection_reset :: "connection \<Rightarrow> connection" where
  "Connection_reset c = c\<lparr>norm2_vec := [], send_buffer := SendBuf_clear (send_buffer c)\<rparr>"

definition Connection_max_send_udp_payload_size :: "connection \<Rightarrow> usize" where
  "Connection_max_send_udp_payload_size c = MIN_CLIENT_INITIAL_LEN"

definition is_established :: "connection \<Rightarrow> bool" where
  "is_established c = handshake_completed c"

definition is_draining :: "connection \<Rightarrow> bool" where
  "is_draining c \<longleftrightarrow> draining_timer c \<noteq> None"

definition is_closed :: "connection \<Rightarrow> bool" where
  "is_closed c = closed c"

definition is_timed_out :: "connection \<Rightarrow> bool" where
  "is_timed_out c = timed_out c"

definition Connection_read :: "bytes \<Rightarrow> connection \<Rightarrow> (usize result \<times> bytes \<times> connection) option" where
  "Connection_read out c = do {
     (r, out, rb) \<leftarrow> RecvBuf_emit out (rec_buffer c);
     Some (r, out, c\<lparr>rec_buffer := rb\<rparr>)
   }"

section \<open>Receiving\<close>

text \<open>
  \<open>check_loss\<close>: the offsets of an \<open>ElictAck\<close>, each noted as received (0) or missing (1).  It ends
  because the cursor advances; as the cursor is a parameter, the loop is a partial function,
  undefined (like a panic) where it would not end.
\<close>

partial_function (option) check_loss_loop ::
  "'b octets \<Rightarrow> 'b \<Rightarrow> connection \<Rightarrow> connection option" where
  "check_loss_loop oc b c =
     (if oct_cap oc b > 0 then
        (case get_u64 oc b of
           None \<Rightarrow> None
         | Some (w, b) \<Rightarrow>
             check_loss_loop oc b
               (if hm_contains_key (recv_dic c) (unat w)
                then c\<lparr>recv_hashmap := hm_insert (unat w) 0 (recv_hashmap c)\<rparr>
                else c\<lparr>recv_hashmap := hm_insert (unat w) 1 (recv_hashmap c)\<rparr>))
      else Some c)"

definition check_loss :: "'b octets \<Rightarrow> bytes \<Rightarrow> connection \<Rightarrow> connection option" where
  "check_loss oc buf c = check_loss_loop oc (with_slice oc buf) c"

text \<open>The body of the loop of \<open>process_ack\<close>, for one offset and its flag.\<close>

definition ack_sent :: "nat \<Rightarrow> connection \<Rightarrow> connection" where
  "ack_sent unack c = c\<lparr>send_buffer := ack_and_drop unack (send_buffer c)\<rparr>"

definition process_ack_item :: "nat \<Rightarrow> nat \<Rightarrow> fl \<times> connection \<Rightarrow> (fl \<times> connection) option" where
  "process_ack_item unack prio = (\<lambda>(weights, c). do {
     let c = (case hm_get (sent_dic c) unack of
                Some n \<Rightarrow> if n = 0 then ack_sent unack c else c
              | None \<Rightarrow> c);
     prio \<leftarrow> (if prio \<noteq> 0 then priority_calculation unack c else Some prio);
     let (weights, c) =
       (if prio = 1 then (fl_add rnd32 weights (rnd32 (15 / 100)), c)
        else if prio = 2 then (fl_add rnd32 weights (rnd32 (2 / 10)), c)
        else if prio = 3 then (fl_add rnd32 weights (rnd32 (25 / 100)), c)
        else (weights, ack_sent unack c));
     real_priority \<leftarrow> priority_calculation unack c;
     h \<leftarrow> (if prio \<noteq> 0 \<and> real_priority = 3 then add64 (high_priority c) 1 else Some (high_priority c));
     Some (weights, c\<lparr>high_priority := h\<rparr>)
   })"

function process_ack_loop ::
  "bytes \<Rightarrow> nat \<Rightarrow> fl \<times> connection \<Rightarrow> (fl \<times> connection) option" where
  "process_ack_loop unackbuf start st =
     (if start < length unackbuf then do {
        u \<leftarrow> slice unackbuf start (start + 8);
        p \<leftarrow> slice unackbuf (start + 8) (start + 16);
        st \<leftarrow> process_ack_item (unat (from_be_bytes u)) (unat (from_be_bytes p)) st;
        process_ack_loop unackbuf (start + 16) st
      } else Some st)"
  by pat_completeness auto
termination
  by (relation "measure (\<lambda>(xs, i, _). length xs - i)") auto

declare process_ack_loop.simps [simp del]

definition process_ack :: "bytes \<Rightarrow> connection \<Rightarrow> connection option" where
  "process_ack buf c = do {
     unackbuf \<leftarrow> slice_from buf 26;
     m \<leftarrow> slice_to unackbuf 8;
     let max_ack = unat (from_be_bytes m);
     let c = (if max_ack > max_off c then c\<lparr>max_off := max_ack\<rparr> else c);
     (weights, c) \<leftarrow> process_ack_loop unackbuf 8 (Fin 0, c);
     r \<leftarrow> update_win weights (f64_of_nat (length unackbuf div (8 * 2))) (recovery_of c);
     Some (c\<lparr>recovery_of := r\<rparr>)
   }"

text \<open>The four packet types \<open>recv_slice\<close> acts on, in its order.\<close>

definition recv_handshake :: "instant \<Rightarrow> header \<Rightarrow> connection \<Rightarrow> connection option" where
  "recv_handshake now hdr c = do {
     c \<leftarrow> (if hdr_ty hdr = Handshake \<and> is_server c then do {
             c \<leftarrow> update_rtt now c;
             Some (c\<lparr>handshake_completed := True\<rparr>)
           } else Some c);
     Some (if hdr_ty hdr = Handshake \<and> \<not> is_server c
           then c\<lparr>handshake_confirmed := False, feed_back := True\<rparr> else c)
   }"

definition recv_elict_ack :: "'b octets \<Rightarrow> bytes \<Rightarrow> connection \<Rightarrow> connection option" where
  "recv_elict_ack oc buf c = do {
     n \<leftarrow> slice buf 1 9;
     payload \<leftarrow> slice_from buf 26;
     c \<leftarrow> check_loss oc payload (c\<lparr>recv_flag := True, send_num := unat (from_be_bytes n)\<rparr>);
     Some (c\<lparr>feed_back := True\<rparr>)
   }"

definition recv_application :: "header \<Rightarrow> bytes \<Rightarrow> connection \<Rightarrow> (usize \<times> connection) option" where
  "recv_application hdr buf c = do {
     n \<leftarrow> add64 (recv_count c) 1;
     payload \<leftarrow> slice_from buf 26;
     (r, rb) \<leftarrow> RecvBuf_write payload (unat (hdr_offset hdr)) (rec_buffer c);
     case r of
       Err e \<Rightarrow> None
     | Ok _ \<Rightarrow> Some (unat (hdr_pkt_length hdr),
         c\<lparr>recv_count := n, rec_buffer := rb,
           recv_dic := hm_insert (unat (hdr_offset hdr)) (hdr_priority hdr) (recv_dic c)\<rparr>)
   }"

text \<open>\<open>recv_slice\<close> after the header is parsed, and the whole of it.\<close>

definition recv_dispatch ::
  "'b octets \<Rightarrow> instant \<Rightarrow> header \<Rightarrow> bytes \<Rightarrow> connection \<Rightarrow> (usize result \<times> connection) option" where
  "recv_dispatch oc now hdr buf c = do {
     c \<leftarrow> recv_handshake now hdr c;
     c \<leftarrow> (if hdr_ty hdr = ACK \<and> is_server c then process_ack buf c else Some c);
     c \<leftarrow> (if hdr_ty hdr = ElictAck then recv_elict_ack oc buf c else Some c);
     (read, c) \<leftarrow> (if hdr_ty hdr = Application then recv_application hdr buf c else Some (0, c));
     if hdr_ty hdr = Stop then Some (Err Stopped, c) else Some (Ok read, c)
   }"

definition recv_slice ::
  "'b octets \<Rightarrow> instant \<Rightarrow> bytes \<Rightarrow> connection \<Rightarrow> (usize result \<times> connection) option" where
  "recv_slice oc now buf c =
     (if length buf = 0 then Some (Err BufferTooShort, c)
      else do {
        n \<leftarrow> add64 (recv_count c) 1;
        let c = c\<lparr>recv_count := n\<rparr>;
        case Header_from_bytes oc (with_slice oc buf) of
          Err e \<Rightarrow> Some (Err e, c)
        | Ok hdr \<Rightarrow> recv_dispatch oc now hdr buf c
      })"

section \<open>Filling the send buffer\<close>

definition Connection_write :: "connection \<Rightarrow> (usize result \<times> connection) option" where
  "Connection_write c = do {
     let toffset = total_offset c mod 1024;
     let off_len = (if toffset mod 1024 \<noteq> 0 then 1024 - total_offset c mod 1024 else 0);
     let high_ratio = fl_div rnd64 (f64_of_nat (high_priority c)) (f64_of_nat (sent_number c));
     let c = c\<lparr>high_priority := 0, sent_number := 0\<rparr>;
     (w, r) \<leftarrow> (if fl_lt CONGESTION_THREAHOLD high_ratio then Some (Recovery_rollback (recovery_of c))
                else cwnd (recovery_of c));
     dat \<leftarrow> slice_from (data_to_send c) (written_data c);
     (res, sb) \<leftarrow> SendBuf_write dat w off_len (max_off c) (send_buffer c);
     Some (res, c\<lparr>recovery_of := r, send_buffer := sb\<rparr>)
   }"

definition send_all_write :: "connection \<Rightarrow> (bool result \<times> connection) option" where
  "send_all_write c = do {
     (res, c) \<leftarrow> Connection_write c;
     case res of
       Err e \<Rightarrow> None
     | Ok n \<Rightarrow> do {
         w \<leftarrow> add64 (written_data c) n;
         t \<leftarrow> add64 (total_offset c) n;
         Some (Ok True, c\<lparr>written_data := w, total_offset := t\<rparr>)
       }
   }"

definition send_all :: "instant \<Rightarrow> connection \<Rightarrow> (bool result \<times> connection) option" where
  "send_all now c =
     (let c = set_handshake now (c\<lparr>stop_flag := False, stop_ack := False\<rparr>)
      in if length (data_to_send c) > written_data c then send_all_write c
         else if sb_data (send_buffer c) = [] then Some (Ok False, c)
         else send_all_write c)"

section \<open>Sending one packet\<close>

definition write_pkt_type :: "connection \<Rightarrow> pkt_type result \<times> connection" where
  "write_pkt_type c =
     (if rtt c = 0 \<and> is_server c then (Ok Handshake, c\<lparr>handshake_completed := True\<rparr>)
      else if \<not> handshake_confirmed c \<and> \<not> is_server c
      then (Ok Handshake, c\<lparr>handshake_confirmed := True\<rparr>)
      else if sent_count c mod ELICT_FLAG = 0 \<and> sent_count c > 0 \<or> stop_flag c
      then (Ok ElictAck, c\<lparr>sent_count := 0\<rparr>)
      else if recv_flag c then (Ok ACK, c\<lparr>recv_flag := False\<rparr>)
      else if rtt c \<noteq> 0 then (Ok Application, c)
      else if sb_data (send_buffer c) = [] then (Ok Stop, c)
      else (Err Done, c))"

text \<open>
  The branches of \<open>send_data\<close>.  Each returns its payload size or an early error, the output buffer
  and the connection; an early error keeps what was written before it.
\<close>

type_synonym 'a sending = "('a result \<times> bytes \<times> connection) option"

definition put_header :: "'b octets \<Rightarrow> header \<Rightarrow> bytes \<Rightarrow> unit result \<times> 'b" where
  "put_header oc hdr out = Header_to_bytes oc hdr (with_slice oc out)"

definition send_handshake :: "'b octets \<Rightarrow> instant \<Rightarrow> bytes \<Rightarrow> connection \<Rightarrow> nat sending" where
  "send_handshake oc now out c =
     (let hdr = \<lparr>hdr_ty = Handshake, hdr_pkt_num = 0, hdr_priority = 0, hdr_offset = 0,
                 hdr_pkt_length = 0\<rparr>
      in case put_header oc hdr out of
           (Err e, b) \<Rightarrow> Some (Err e, oct_buf oc b, c)
         | (Ok _, b) \<Rightarrow> Some (Ok 0, oct_buf oc b,
             if server c then set_handshake now c else c\<lparr>feed_back := False\<rparr>))"

fun put_all :: "'b octets \<Rightarrow> u64 list \<Rightarrow> 'b \<Rightarrow> unit result \<times> 'b" where
  "put_all oc [] b = (Ok (), b)"
| "put_all oc (w # ws) b =
     (case put_u64 oc w b of None \<Rightarrow> (Err BufferTooShort, b) | Some b \<Rightarrow> put_all oc ws b)"

fun flatten_pairs :: "(nat \<times> nat) list \<Rightarrow> u64 list" where
  "flatten_pairs [] = []"
| "flatten_pairs ((k, v) # kvs) = of_nat k # of_nat v # flatten_pairs kvs"

definition send_ACK ::
  "'b octets \<Rightarrow> ((nat, nat) hash_map \<Rightarrow> (nat \<times> nat) list) \<Rightarrow> bytes \<Rightarrow> connection \<Rightarrow> nat sending" where
  "send_ACK oc iter out c =
     (let c = c\<lparr>feed_back := False\<rparr>;
          psize = length (recv_hashmap c) * 8 * 2 + 8;
          hdr = \<lparr>hdr_ty = ACK, hdr_pkt_num = of_nat (send_num c), hdr_priority = 0,
                 hdr_offset = 0, hdr_pkt_length = of_nat psize\<rparr>
      in case put_header oc hdr out of
           (Err e, b) \<Rightarrow> Some (Err e, oct_buf oc b, c)
         | (Ok _, b) \<Rightarrow>
             (case put_all oc (of_nat (Connection_max_ack c) # flatten_pairs (iter (recv_hashmap c))) b of
                (Err e, b) \<Rightarrow> Some (Err e, oct_buf oc b, c)
              | (Ok _, b) \<Rightarrow> Some (Ok psize, oct_buf oc b, c\<lparr>recv_hashmap := []\<rparr>)))"

definition send_ElictAck :: "'b octets \<Rightarrow> bytes \<Rightarrow> connection \<Rightarrow> nat sending" where
  "send_ElictAck oc out c = do {
     let pn = next_pkt_num (snd (pkt_num_spaces c));
     pn' \<leftarrow> add64 pn 1;
     let c = c\<lparr>pkt_num_spaces := (fst (pkt_num_spaces c), (snd (pkt_num_spaces c))\<lparr>next_pkt_num := pn'\<rparr>)\<rparr>;
     res \<leftarrow> slice_from (sent_pkt c) (ack_point c);
     pkt_counter \<leftarrow> sub64 (length (sent_pkt c)) (ack_point c);
     let psize = (if stop_flag c then pkt_counter * 8 else 64);
     let hdr = \<lparr>hdr_ty = ElictAck, hdr_pkt_num = of_nat pn, hdr_priority = 0, hdr_offset = 0,
                hdr_pkt_length = of_nat psize\<rparr>;
     case put_header oc hdr out of
       (Err e, b) \<Rightarrow> None
     | (Ok _, b) \<Rightarrow>
         (case put_all oc (map of_nat res) b of
            (Err e, b) \<Rightarrow> Some (Err e, oct_buf oc b, c)
          | (Ok _, b) \<Rightarrow> Some (Ok psize, oct_buf oc b,
              c\<lparr>ack_point := length (sent_pkt c), stop_ack := (stop_flag c \<or> stop_ack c)\<rparr>))
   }"

text \<open>The second send of an offset and every later one counts its budget in \<open>sent_dic\<close> down.\<close>

definition count_down :: "nat \<Rightarrow> nat \<Rightarrow> (nat, nat) hash_map \<Rightarrow> (nat, nat) hash_map option" where
  "count_down off prio m =
     (case hm_get m off of
        Some x \<Rightarrow> do { y \<leftarrow> sub64 x 1; Some (hm_insert off y m) }
      | None \<Rightarrow> Some (hm_insert off prio m))"

definition send_Application :: "'b octets \<Rightarrow> bytes \<Rightarrow> connection \<Rightarrow> nat sending" where
  "send_Application oc out c = do {
     body \<leftarrow> slice_from out 26;
     (r, body, sb) \<leftarrow> SendBuf_emit body (send_buffer c);
     let out = take 26 out @ body;
     let c = c\<lparr>send_buffer := sb\<rparr>;
     case r of
       Err e \<Rightarrow> Some (Ok 0, out, c)
     | Ok (result_len, off, stop) \<Rightarrow>
         if off \<ge> written_data c then Some (Err Done, out, c)
         else do {
           sc \<leftarrow> add64 (sent_count c) 1;
           sn \<leftarrow> add64 (sent_number c) 1;
           let pn = next_pkt_num (fst (pkt_num_spaces c));
           prio \<leftarrow> priority_calculation off c;
           pn' \<leftarrow> add64 pn 1;
           sd \<leftarrow> count_down off prio (sent_dic c);
           let c = c\<lparr>sent_count := sc, sent_number := sn,
                     pkt_num_spaces := ((fst (pkt_num_spaces c))\<lparr>next_pkt_num := pn'\<rparr>, snd (pkt_num_spaces c)),
                     sent_dic := sd\<rparr>;
           let hdr = \<lparr>hdr_ty = Application, hdr_pkt_num = of_nat pn, hdr_priority = of_nat prio,
                      hdr_offset = of_nat off, hdr_pkt_length = of_nat result_len\<rparr>;
           case put_header oc hdr out of
             (Err e, b) \<Rightarrow> Some (Err e, oct_buf oc b, c)
           | (Ok _, b) \<Rightarrow> Some (Ok result_len, oct_buf oc b,
               c\<lparr>stop_flag := (stop \<or> stop_flag c), sent_pkt := sent_pkt c @ [unat (hdr_offset hdr)]\<rparr>)
         }
   }"

definition send_Stop :: "'b octets \<Rightarrow> bytes \<Rightarrow> connection \<Rightarrow> nat sending" where
  "send_Stop oc out c =
     (let hdr = \<lparr>hdr_ty = Stop, hdr_pkt_num = 0, hdr_priority = 0, hdr_offset = 0,
                 hdr_pkt_length = 0\<rparr>
      in case put_header oc hdr out of
           (Err e, b) \<Rightarrow> Some (Err e, oct_buf oc b, c)
         | (Ok _, b) \<Rightarrow> Some (Ok 0, oct_buf oc b, c))"

definition send_info_of :: "connection \<Rightarrow> send_info" where
  "send_info_of c = \<lparr>send_from = localaddr c, send_to = peeraddr c\<rparr>"

text \<open>
  \<open>ElictAck\<close> and \<open>Stop\<close> packets return at once; the others come to the common end, which reports
  \<open>Done\<close> on a stopped connection and otherwise restarts the clock.
\<close>

definition finish_now :: "nat sending \<Rightarrow> (usize \<times> send_info) sending" where
  "finish_now s = do {
     (r, out, c) \<leftarrow> s;
     case r of
       Err e \<Rightarrow> Some (Err e, out, c)
     | Ok psize \<Rightarrow> Some (Ok (HEADER_LENGTH + psize, send_info_of c), out, c)
   }"

definition finish_common :: "instant \<Rightarrow> nat sending \<Rightarrow> (usize \<times> send_info) sending" where
  "finish_common now s = do {
     (r, out, c) \<leftarrow> s;
     case r of
       Err e \<Rightarrow> Some (Err e, out, c)
     | Ok psize \<Rightarrow>
         if is_stopped c then Some (Err Done, out, c)
         else Some (Ok (HEADER_LENGTH + psize, send_info_of c), out, c\<lparr>handshake := now\<rparr>)
   }"

definition Connection_send_data ::
  "'b octets \<Rightarrow> ((nat, nat) hash_map \<Rightarrow> (nat \<times> nat) list) \<Rightarrow> instant \<Rightarrow> bytes \<Rightarrow> connection \<Rightarrow>
   (usize \<times> send_info) sending" where
  "Connection_send_data oc iter now out c =
     (if out = [] then Some (Err BufferTooShort, out, c)
      else case write_pkt_type c of
        (Err e, c) \<Rightarrow> Some (Err e, out, c)
      | (Ok ty, c) \<Rightarrow>
          if ty = Handshake then finish_common now (send_handshake oc now out c)
          else if ty = ACK then finish_common now (send_ACK oc iter out c)
          else if ty = ElictAck then finish_now (send_ElictAck oc out c)
          else if ty = Application then finish_common now (send_Application oc out c)
          else if ty = Stop then finish_now (send_Stop oc out c)
          else finish_common now (Some (Ok 0, out, c)))"

section \<open>A new connection\<close>

definition fresh_connection :: "socket_addr \<Rightarrow> socket_addr \<Rightarrow> bool \<Rightarrow> instant \<Rightarrow> connection" where
  "fresh_connection loc peer srv now =
     \<lparr>recv_count = 0, sent_count = 0, draining_timer = None, is_server = srv,
      handshake_completed = False, handshake_confirmed = True, closed = False, timed_out = False,
      server = srv, localaddr = loc, peeraddr = peer, recovery_of = fresh_recovery,
      pkt_num_spaces = (PktNumSpace_new, PktNumSpace_new), rtt = 0, handshake = now,
      send_buffer = SendBuf_new 10800, rec_buffer = RecvBuf_new, written_data = 0,
      stop_flag = False, stop_ack = False, prioritydic = [], sent_pkt = [], recv_dic = [],
      low_split_point = Fin 0, high_split_point = Fin 0, data_to_send = [], norm2_vec = [],
      total_offset = 0, recv_flag = False, recv_hashmap = [], feed_back = False, ack_point = 0,
      max_off = 0, send_num = 0, high_priority = 0, sent_number = 0, recv_pkt_sent_num = [],
      sent_dic = []\<rparr>"

lemma Connection_new_eq:
  "max_send_udp_payload_size cfg = 1350 \<Longrightarrow>
     Connection_new loc peer cfg srv now = Some (Ok (fresh_connection loc peer srv now))"
  by (simp add: Connection_new_def Recovery_new_eq fresh_connection_def Recovery_on_init_def
      NewCubic_on_init_def MIN_CLIENT_INITIAL_LEN_def)

lemma fresh_connection_simps [simp]:
  "recv_count (fresh_connection loc peer srv now) = 0"
  "sent_count (fresh_connection loc peer srv now) = 0"
  "is_server (fresh_connection loc peer srv now) = srv"
  "server (fresh_connection loc peer srv now) = srv"
  "handshake_confirmed (fresh_connection loc peer srv now)"
  "rtt (fresh_connection loc peer srv now) = 0"
  "handshake (fresh_connection loc peer srv now) = now"
  "send_buffer (fresh_connection loc peer srv now) = SendBuf_new 10800"
  "rec_buffer (fresh_connection loc peer srv now) = RecvBuf_new"
  "recovery_of (fresh_connection loc peer srv now) = fresh_recovery"
  "written_data (fresh_connection loc peer srv now) = 0"
  "total_offset (fresh_connection loc peer srv now) = 0"
  "stop_flag (fresh_connection loc peer srv now) = False"
  "stop_ack (fresh_connection loc peer srv now) = False"
  "recv_flag (fresh_connection loc peer srv now) = False"
  "sent_pkt (fresh_connection loc peer srv now) = []"
  "ack_point (fresh_connection loc peer srv now) = 0"
  "sent_dic (fresh_connection loc peer srv now) = []"
  "recv_dic (fresh_connection loc peer srv now) = []"
  "recv_hashmap (fresh_connection loc peer srv now) = []"
  "high_priority (fresh_connection loc peer srv now) = 0"
  "sent_number (fresh_connection loc peer srv now) = 0"
  "data_to_send (fresh_connection loc peer srv now) = []"
  "norm2_vec (fresh_connection loc peer srv now) = []"
  "pkt_num_spaces (fresh_connection loc peer srv now) = (PktNumSpace_new, PktNumSpace_new)"
  by (simp_all add: fresh_connection_def)

lemma update_rtt_frame [simp]: "update_rtt now c = Some c' \<Longrightarrow> is_server c' = is_server c"
  by (auto simp: update_rtt_def Option.bind_eq_Some_conv split: if_splits)

end
