(* ===== verification/Receiver.thy ===== *)
theory Receiver
  imports Connection
begin

text \<open>
  What a connection does with the packets it receives: the bookkeeping of \<open>check_loss\<close>, the effect
  of an acknowledgement on the send buffer, and when a packet makes \<open>recv_slice\<close> panic.
\<close>

section \<open>Loss bookkeeping\<close>

definition note_offset :: "(nat, u8) hash_map \<Rightarrow> u64 \<Rightarrow> (nat, nat) hash_map \<Rightarrow> (nat, nat) hash_map" where
  "note_offset d w m = hm_insert (unat w) (if hm_contains_key d (unat w) then 0 else 1) m"

lemma noted_entries:
  "(k, v) \<in> set (fold (note_offset d) ws m) \<Longrightarrow>
     (k, v) \<in> set m \<or> k < lim64 \<and> v < 2 \<and> (v = 0 \<longrightarrow> k \<in> dom (hm_get d))"
proof (induction ws arbitrary: m)
  case (Cons w ws)
  from Cons.prems Cons.IH [of "note_offset d w m"] have
    "(k, v) \<in> set (note_offset d w m) \<or> k < lim64 \<and> v < 2 \<and> (v = 0 \<longrightarrow> k \<in> dom (hm_get d))" by simp
  moreover have "(k, v) \<in> set m \<or> k < lim64 \<and> v < 2 \<and> (v = 0 \<longrightarrow> k \<in> dom (hm_get d))"
    if "(k, v) \<in> set (note_offset d w m)"
    using that set_hm_insert unfolding note_offset_def
    by (fastforce simp: hm_contains_key_def split: if_splits)
  ultimately show ?case by blast
qed simp

context octets_spec
begin

lemma check_loss_loop_panics:
  assumes "oct_cap oc b mod 8 \<noteq> 0"
  shows "check_loss_loop oc b c = None"
  using assms
proof (induction "oct_cap oc b" arbitrary: b c rule: less_induct)
  case less
  show ?case
  proof (cases "8 \<le> oct_cap oc b")
    case True
    from get_u64_reads [OF this] obtain w b' where b': "get_u64 oc b = Some (w, b')"
      and "oct_cap oc b' = oct_cap oc b - 8" by (auto simp: cap_eq)
    moreover from this True less.prems have "oct_cap oc b' mod 8 \<noteq> 0" by (simp add: le_mod_geq)
    ultimately have "check_loss_loop oc b' c' = None" for c'
      using less.hyps [of b'] True by simp
    with b' True show ?thesis by (subst check_loss_loop.simps) simp
  next
    case False
    with less.prems show ?thesis
      by (subst check_loss_loop.simps) (auto simp: get_u64_short)
  qed
qed

lemma check_loss_loop_words:
  assumes "oct_buf oc b = pre @ xs" and "oct_off oc b = length pre" and "length xs mod 8 = 0"
  shows "check_loss_loop oc b c =
     Some (c\<lparr>recv_hashmap := fold (note_offset (recv_dic c)) (words_of xs) (recv_hashmap c)\<rparr>)"
  using assms
proof (induction "length xs" arbitrary: b c pre xs rule: less_induct)
  case less
  show ?case
  proof (cases "xs = []")
    case True
    with less.prems show ?thesis by (subst check_loss_loop.simps) (simp add: cap_eq)
  next
    case False
    with less.prems(3) have len: "8 \<le> length xs" by (metis length_0_conv mod_less not_le)
    define x y where "x = take 8 xs" and "y = drop 8 xs"
    have xs: "xs = x @ y" and x: "length x = 8" using len by (simp_all add: x_def y_def)
    obtain b' where b': "get_u64 oc b = Some (from_be_bytes x, b')"
        "oct_buf oc b' = (pre @ x) @ y" "oct_off oc b' = length (pre @ x)"
      using get_u64_split [of b pre x y] less.prems xs x by auto
    have "length y < length xs" "length y mod 8 = 0" using less.prems(3) len xs x by auto
    from less.hyps [OF this(1) b'(2,3) this(2)] b'(1) less.prems len show ?thesis
      by (subst check_loss_loop.simps)
        (simp add: cap_eq xs x words_of_append note_offset_def)
  qed
qed

lemma check_loss_eq:
  "check_loss oc xs c =
     (if length xs mod 8 = 0
      then Some (c\<lparr>recv_hashmap := fold (note_offset (recv_dic c)) (words_of xs) (recv_hashmap c)\<rparr>)
      else None)"
  using check_loss_loop_panics [of "with_slice oc xs" c]
    check_loss_loop_words [of "with_slice oc xs" "[]" xs c]
  by (simp add: check_loss_def cursor_simps)

end

section \<open>Acknowledgements\<close>

text \<open>The reports of an \<open>ACK\<close> packet as pairs of an offset and a flag, and the loop over them.\<close>

fun process_ack_items :: "(nat \<times> nat) list \<Rightarrow> fl \<times> connection \<Rightarrow> (fl \<times> connection) option" where
  "process_ack_items [] st = Some st"
| "process_ack_items ((k, p) # kps) st = do {
     st \<leftarrow> process_ack_item k p st;
     process_ack_items kps st
   }"

definition u64_pairs :: "(nat \<times> nat) list \<Rightarrow> bool" where
  "u64_pairs kps \<longleftrightarrow> (\<forall>(k, p) \<in> set kps. k < lim64 \<and> p < lim64)"

lemma u64_pairs_simps [simp]:
  "u64_pairs []" "u64_pairs ((k, p) # kps) \<longleftrightarrow> k < lim64 \<and> p < lim64 \<and> u64_pairs kps"
  by (auto simp: u64_pairs_def)

lemma length_flatten_pairs [simp]: "length (flatten_pairs kps) = 2 * length kps"
  by (induction kps rule: flatten_pairs.induct) auto

lemma process_ack_loop_items:
  assumes "xs = pre @ bytes_of (flatten_pairs kps)" and "u64_pairs kps"
  shows "process_ack_loop xs (length pre) st = process_ack_items kps st"
  using assms
proof (induction kps arbitrary: pre st)
  case Nil
  then show ?case by (subst process_ack_loop.simps) simp
next
  case (Cons kp kps)
  obtain k p where kp: "kp = (k, p)" by force
  let ?k = "to_be_bytes (of_nat k)" and ?p = "to_be_bytes (of_nat p)"
  have xs: "xs = (pre @ ?k @ ?p) @ bytes_of (flatten_pairs kps)"
    using Cons.prems(1) kp by simp
  have step: "process_ack_loop xs (length pre + 16) st' = process_ack_items kps st'" for st'
    using Cons.IH [OF xs, of st'] Cons.prems(2) kp by simp
  have "slice xs (length pre) (length pre + 8) = Some ?k"
    "slice xs (length pre + 8) (length pre + 16) = Some ?p"
    unfolding xs by simp_all
  then show ?case
    using Cons.prems(2) kp xs
    by (subst process_ack_loop.simps) (cases "process_ack_item k p st"; simp add: step [unfolded xs, simplified])
qed

text \<open>
  What a run of reports does: the offsets it drops from the send buffer are the ones reported as
  received (flag 0) and the ones whose retransmission budget is used up.
\<close>

fun acked_by :: "(nat, nat) hash_map \<Rightarrow> (nat \<times> nat) list \<Rightarrow> nat list" where
  "acked_by sd [] = []"
| "acked_by sd ((k, p) # kps) =
     (if hm_get sd k = Some 0 then [k] else []) @ (if p = 0 then [k] else []) @ acked_by sd kps"

definition prio_of :: "fl list \<Rightarrow> fl \<Rightarrow> fl \<Rightarrow> nat \<Rightarrow> nat" where
  "prio_of ns lo hi k = (let n = ns ! (k div 1024) in if fl_lt n lo then 1 else if fl_lt n hi then 2 else 3)"

definition prio_at :: "connection \<Rightarrow> nat \<Rightarrow> nat" where
  "prio_at c = prio_of (norm2_vec c) (low_split_point c) (high_split_point c)"

definition prio_weight :: "nat \<Rightarrow> fl" where
  "prio_weight n = rnd32 (if n = 1 then 15 / 100 else if n = 2 then 2 / 10 else 25 / 100)"

fun loss_weight :: "connection \<Rightarrow> (nat \<times> nat) list \<Rightarrow> fl \<Rightarrow> fl" where
  "loss_weight c [] w = w"
| "loss_weight c ((k, p) # kps) w =
     loss_weight c kps (if p = 0 then w else fl_add rnd32 w (prio_weight (prio_at c k)))"

definition lost_high :: "connection \<Rightarrow> (nat \<times> nat) list \<Rightarrow> nat" where
  "lost_high c kps = length (filter (\<lambda>(k, p). p \<noteq> 0 \<and> prio_at c k = 3) kps)"

lemma priority_calculation_eq:
  "priority_calculation off c =
     (if off div 1024 < length (norm2_vec c) then Some (prio_at c off) else None)"
  by (simp add: priority_calculation_def prio_at_def prio_of_def index_def Let_def)

lemma prio_at_range: "prio_at c k \<in> {1, 2, 3}"
  by (simp add: prio_at_def prio_of_def Let_def)

lemma prio_at_updates [simp]:
  "prio_at (c\<lparr>send_buffer := x\<rparr>) = prio_at c" "prio_at (c\<lparr>high_priority := n\<rparr>) = prio_at c"
  "prio_at (c\<lparr>max_off := n\<rparr>) = prio_at c"
  by (simp_all add: prio_at_def)

lemma loss_weight_cong: "prio_at c' = prio_at c \<Longrightarrow> loss_weight c' kps w = loss_weight c kps w"
  by (induction kps arbitrary: w) auto

lemma loss_weight_updates [simp]:
  "loss_weight (c\<lparr>send_buffer := x\<rparr>) kps w = loss_weight c kps w"
  "loss_weight (c\<lparr>high_priority := n\<rparr>) kps w = loss_weight c kps w"
  "loss_weight (c\<lparr>max_off := n\<rparr>) kps w = loss_weight c kps w"
  by (rule loss_weight_cong, simp)+

lemma process_ack_item_cases:
  "process_ack_item k p (w, c) =
     (if k div 1024 < length (norm2_vec c) then do {
        h \<leftarrow> (if p \<noteq> 0 \<and> prio_at c k = 3 then add64 (high_priority c) 1 else Some (high_priority c));
        Some (if p = 0 then w else fl_add rnd32 w (prio_weight (prio_at c k)),
              c\<lparr>send_buffer := fold ack_and_drop (acked_by (sent_dic c) [(k, p)]) (send_buffer c),
                high_priority := h\<rparr>)
      } else None)"
proof -
  define c1 where "c1 = (case hm_get (sent_dic c) k of Some n \<Rightarrow> if n = 0 then ack_sent k c else c | None \<Rightarrow> c)"
  have c1: "c1 = c\<lparr>send_buffer := fold ack_and_drop (if hm_get (sent_dic c) k = Some 0 then [k] else []) (send_buffer c)\<rparr>"
    by (auto simp: c1_def ack_sent_def split: option.split)
  have h1: "high_priority c1 = high_priority c" by (simp add: c1)
  have p1: "priority_calculation k c1 = priority_calculation k c"
    "priority_calculation k (ack_sent k c1) = priority_calculation k c"
    by (simp_all add: priority_calculation_eq c1 ack_sent_def prio_at_def)
  show ?thesis
  proof (cases "k div 1024 < length (norm2_vec c)")
    case idx: True
    then have pr: "priority_calculation k c1 = Some (prio_at c k)"
      "priority_calculation k (ack_sent k c1) = Some (prio_at c k)"
      unfolding p1 by (simp_all add: priority_calculation_eq)
    show ?thesis
    proof (cases "p = 0")
      case True
      with idx show ?thesis
        unfolding process_ack_item_def
        by (simp add: pr flip: c1_def) (simp add: c1 ack_sent_def)
    next
      case False
      with idx show ?thesis
        using prio_at_range [of c k] unfolding process_ack_item_def
        by (auto simp: pr h1 prio_weight_def simp flip: c1_def) (simp_all add: c1)
    qed
  next
    case False
    then have pr: "priority_calculation k c1 = None" "priority_calculation k (ack_sent k c1) = None"
      unfolding p1 by (simp_all add: priority_calculation_eq)
    with False show ?thesis
      unfolding process_ack_item_def
      by (cases "p = 0") (simp_all flip: c1_def)
  qed
qed

lemma process_ack_item_eq:
  assumes "k div 1024 < length (norm2_vec c)" and "high_priority c + 1 < lim64"
  shows "process_ack_item k p (w, c) =
     Some (if p = 0 then w else fl_add rnd32 w (prio_weight (prio_at c k)),
           c\<lparr>send_buffer := fold ack_and_drop (acked_by (sent_dic c) [(k, p)]) (send_buffer c),
             high_priority := high_priority c + (if p \<noteq> 0 \<and> prio_at c k = 3 then 1 else 0)\<rparr>)"
  using assms by (simp add: process_ack_item_cases)

lemma process_ack_items_eq:
  assumes "\<forall>(k, p) \<in> set kps. k div 1024 < length (norm2_vec c)"
    and "high_priority c + length kps < lim64"
  shows "process_ack_items kps (w, c) =
     Some (loss_weight c kps w,
           c\<lparr>send_buffer := fold ack_and_drop (acked_by (sent_dic c) kps) (send_buffer c),
             high_priority := high_priority c + lost_high c kps\<rparr>)"
  using assms
proof (induction kps arbitrary: w c)
  case Nil
  then show ?case by (simp add: lost_high_def)
next
  case (Cons kp kps)
  obtain k p where kp: "kp = (k, p)" by force
  let ?c = "c\<lparr>send_buffer := fold ack_and_drop (acked_by (sent_dic c) [(k, p)]) (send_buffer c),
             high_priority := high_priority c + (if p \<noteq> 0 \<and> prio_at c k = 3 then 1 else 0)\<rparr>"
  show ?case
    using Cons.IH [of ?c] Cons.prems kp
    by (simp add: process_ack_item_eq lost_high_def)
qed

lemma acked_by_set: "set (acked_by sd kps) = {k. \<exists>p. (k, p) \<in> set kps \<and> (p = 0 \<or> hm_get sd k = Some 0)}"
  by (induction sd kps rule: acked_by.induct) auto

text \<open>An \<open>ACK\<close> packet: 26 bytes of header, the greatest contiguous offset, the reports.\<close>

lemma process_ack_eq:
  assumes "length hb = 26" and "u64_pairs kps"
    and "\<forall>(k, p) \<in> set kps. k div 1024 < length (norm2_vec c)"
    and "high_priority c + length kps < lim64"
  shows "process_ack (hb @ to_be_bytes m @ bytes_of (flatten_pairs kps)) c =
     map_option (\<lambda>r. c\<lparr>max_off := max (max_off c) (unat m), recovery_of := r,
         send_buffer := fold ack_and_drop (acked_by (sent_dic c) kps) (send_buffer c),
         high_priority := high_priority c + lost_high c kps\<rparr>)
       (update_win (loss_weight c kps (Fin 0)) (f64_of_nat ((8 + 16 * length kps) div 16)) (recovery_of c))"
proof -
  let ?xs = "to_be_bytes m @ bytes_of (flatten_pairs kps)"
  let ?c = "if unat m > max_off c then c\<lparr>max_off := unat m\<rparr> else c"
  have c: "?c = c\<lparr>max_off := max (max_off c) (unat m)\<rparr>"
    by (cases c) (simp add: max_def)
  have "process_ack_loop ?xs 8 (Fin 0, ?c) = process_ack_items kps (Fin 0, ?c)"
    using process_ack_loop_items [of ?xs "to_be_bytes m" kps] assms(2) by simp
  also have "\<dots> = Some (loss_weight c kps (Fin 0), c\<lparr>max_off := max (max_off c) (unat m),
      send_buffer := fold ack_and_drop (acked_by (sent_dic c) kps) (send_buffer c),
      high_priority := high_priority c + lost_high c kps\<rparr>)"
    unfolding c using assms(3,4)
    by (subst process_ack_items_eq) (simp_all add: lost_high_def)
  finally show ?thesis
    using assms(1)
    by (cases "update_win (loss_weight c kps (Fin 0)) (f64_of_nat ((8 + 16 * length kps) div 16)) (recovery_of c)";
        cases "max_off c < unat m") (simp_all add: process_ack_def mult.commute max_def)
qed

section \<open>Dispatch\<close>

lemma dispatch_Application:
  "hdr_ty hdr = Application \<Longrightarrow>
     recv_dispatch oc now hdr buf c = map_option (\<lambda>(n, c). (Ok n, c)) (recv_application hdr buf c)"
  by (cases "recv_application hdr buf c") (auto simp: recv_dispatch_def recv_handshake_def)

lemma dispatch_ElictAck:
  "hdr_ty hdr = ElictAck \<Longrightarrow>
     recv_dispatch oc now hdr buf c = map_option (Pair (Ok 0)) (recv_elict_ack oc buf c)"
  by (cases "recv_elict_ack oc buf c") (auto simp: recv_dispatch_def recv_handshake_def)

lemma dispatch_ACK:
  "hdr_ty hdr = ACK \<Longrightarrow>
     recv_dispatch oc now hdr buf c =
       (if is_server c then map_option (Pair (Ok 0)) (process_ack buf c) else Some (Ok 0, c))"
  by (cases "process_ack buf c") (auto simp: recv_dispatch_def recv_handshake_def)

lemma dispatch_Handshake:
  "hdr_ty hdr = Handshake \<Longrightarrow>
     recv_dispatch oc now hdr buf c =
       (if is_server c
        then map_option (\<lambda>c. (Ok 0, c\<lparr>handshake_completed := True\<rparr>)) (update_rtt now c)
        else Some (Ok 0, c\<lparr>handshake_confirmed := False, feed_back := True\<rparr>))"
  by (cases "update_rtt now c") (auto simp: recv_dispatch_def recv_handshake_def)

lemma dispatch_other:
  "hdr_ty hdr \<notin> {Application, ElictAck, ACK, Handshake} \<Longrightarrow>
     recv_dispatch oc now hdr buf c = Some (if hdr_ty hdr = Stop then Err Stopped else Ok 0, c)"
  by (simp add: recv_dispatch_def recv_handshake_def)

lemma recv_application_eq:
  assumes "recv_count c + 1 < lim64" and "26 \<le> length buf"
  shows "recv_application hdr buf c =
     map_option (\<lambda>(r, rb). (unat (hdr_pkt_length hdr),
         c\<lparr>recv_count := recv_count c + 1, rec_buffer := rb,
           recv_dic := hm_insert (unat (hdr_offset hdr)) (hdr_priority hdr) (recv_dic c)\<rparr>))
       (RecvBuf_write (drop 26 buf) (unat (hdr_offset hdr)) (rec_buffer c))"
proof (cases "unat (hdr_offset hdr) + length (drop 26 buf) < lim64")
  case True
  with RecvBuf_write_spec [OF this, of "rec_buffer c"] show ?thesis
    using assms by (auto simp: recv_application_def)
next
  case False
  then have "RecvBuf_write (drop 26 buf) (unat (hdr_offset hdr)) (rec_buffer c) = None"
    by (intro RecvBuf_write_panics) simp
  then show ?thesis using assms by (simp add: recv_application_def)
qed

context octets_spec
begin

lemma recv_elict_ack_eq:
  assumes "26 \<le> length buf"
  shows "recv_elict_ack oc buf c =
     (if (length buf - 26) mod 8 = 0
      then Some (c\<lparr>recv_flag := True, send_num := unat (hdr_pkt_num (decode_header buf)),
             recv_hashmap := fold (note_offset (recv_dic c)) (words_of (drop 26 buf)) (recv_hashmap c),
             feed_back := True\<rparr>)
      else None)"
  using assms by (simp add: recv_elict_ack_def check_loss_eq decode_header_def)

lemma recv_slice_eq:
  assumes "26 \<le> length buf" and "recv_count c + 1 < lim64"
  shows "recv_slice oc now buf c =
     recv_dispatch oc now (decode_header buf) buf (c\<lparr>recv_count := recv_count c + 1\<rparr>)"
  using assms Header_from_slice_eq [of buf] unfolding recv_slice_def Header_from_slice_def
  by auto

lemma recv_slice_short:
  assumes "length buf < 26" and "recv_count c + 1 < lim64"
  shows "recv_slice oc now buf c =
     Some (Err BufferTooShort, if buf = [] then c else c\<lparr>recv_count := recv_count c + 1\<rparr>)"
  using assms Header_from_slice_eq [of buf] unfolding recv_slice_def Header_from_slice_def
  by auto

end

section \<open>What the receiving side guarantees\<close>

text \<open>
  (C14) Which packets make the receiving endpoint panic: exactly the \<open>ElictAck\<close> packets whose
  payload is not a whole number of 8-byte offsets, and the \<open>Application\<close> packets whose offset and
  payload length together exceed 64 bits.  Every other datagram, of whatever type, length and
  contents, is handled.
\<close>

theorem client_recv_panics_iff:
  assumes "octets_spec oc" and "\<not> is_server c" and "recv_count c + 2 < lim64"
  shows "recv_slice oc now buf c = None \<longleftrightarrow>
     26 \<le> length buf \<and>
     (hdr_ty (decode_header buf) = ElictAck \<and> (length buf - 26) mod 8 \<noteq> 0 \<or>
      hdr_ty (decode_header buf) = Application \<and>
        2 ^ 64 \<le> unat (hdr_offset (decode_header buf)) + (length buf - 26))"
proof (cases "26 \<le> length buf")
  case True
  let ?c = "c\<lparr>recv_count := recv_count c + 1\<rparr>" and ?h = "decode_header buf"
  have eq: "recv_slice oc now buf c = recv_dispatch oc now ?h buf ?c"
    using octets_spec.recv_slice_eq [OF assms(1) True] assms(3) by simp
  have w: "RecvBuf_write (drop 26 buf) (unat (hdr_offset ?h)) rb = None \<longleftrightarrow>
      lim64 \<le> unat (hdr_offset ?h) + (length buf - 26)" for rb
    using RecvBuf_write_spec [of "unat (hdr_offset ?h)" "drop 26 buf" rb]
      RecvBuf_write_panics [of "unat (hdr_offset ?h)" "drop 26 buf" rb]
    by (cases "unat (hdr_offset ?h) + length (drop 26 buf) < lim64") auto
  show ?thesis
    using True assms(2,3) octets_spec.recv_elict_ack_eq [OF assms(1) True, of ?c]
    by (cases "hdr_ty ?h")
      (simp_all add: eq dispatch_Application dispatch_ElictAck dispatch_ACK dispatch_Handshake
        dispatch_other recv_application_eq w)
next
  case False
  then show ?thesis
    using octets_spec.recv_slice_short [OF assms(1), of buf c now] assms(3) by simp
qed

theorem client_recv_panics_iff_witness:
  "recv_slice list_octets 0 (4 # replicate 28 0)
     (fresh_connection (SocketAddrV4 0 1) (SocketAddrV4 0 2) False 0) = None"
  by (subst client_recv_panics_iff [OF list_oc.octets_spec_axioms])
    (simp_all add: decode_header_def type_of_byte_def)

end
