(* ===== verification/Sender.thy ===== *)
theory Sender
  imports Receiver
begin

text \<open>
  What a connection sends: the bytes of each kind of packet, and the invariant that ties the
  counters of the sending side to its send buffer.
\<close>

section \<open>The bytes of a packet\<close>

context octets_spec
begin

lemma put_all_split:
  assumes "oct_buf oc b = pre @ old @ post" and "length old = 8 * length ws" and "oct_off oc b = length pre"
  shows "\<exists>b'. put_all oc ws b = (Ok (), b') \<and> oct_buf oc b' = (pre @ bytes_of ws) @ post"
  using assms
proof (induction ws arbitrary: b pre old)
  case (Cons w ws)
  let ?x = "take 8 old" and ?y = "drop 8 old"
  have "oct_buf oc b = pre @ ?x @ (?y @ post)" "length ?x = 8"
    using Cons.prems by (simp_all flip: append_assoc)
  from put_u64_split [OF this Cons.prems(3), of w] obtain b1 where
    b1: "put_u64 oc w b = Some b1" "oct_buf oc b1 = (pre @ to_be_bytes w) @ ?y @ post"
      "oct_off oc b1 = length (pre @ to_be_bytes w)" by auto
  from Cons.IH [OF b1(2) _ b1(3)] Cons.prems(2) b1(1) show ?case by auto
qed simp

lemma put_packet:
  assumes "26 + 8 * length ws \<le> length out"
  shows "\<exists>b b'. put_header oc h out = (Ok (), b) \<and> put_all oc ws b = (Ok (), b') \<and>
     oct_buf oc b' = encode_header h @ bytes_of ws @ drop (26 + 8 * length ws) out"
proof -
  have "26 \<le> length out" using assms by simp
  from Header_to_bytes_slice [OF this, of h] obtain b where
    b: "put_header oc h out = (Ok (), b)" "oct_buf oc b = encode_header h @ drop 26 out" "oct_off oc b = 26"
    unfolding put_header_def by blast
  let ?n = "8 * length ws"
  have split: "oct_buf oc b = encode_header h @ take ?n (drop 26 out) @ drop (26 + ?n) out"
    using b(2) append_take_drop_id [of ?n "drop 26 out"] by (simp add: add.commute del: append_take_drop_id)
  have "length (take ?n (drop 26 out)) = ?n" using assms by simp
  from put_all_split [OF split this] b show ?thesis by auto
qed

lemma put_header_only:
  assumes "26 \<le> length out"
  shows "\<exists>b. put_header oc h out = (Ok (), b) \<and> oct_buf oc b = encode_header h @ drop 26 out"
  using put_packet [of "[]" out h] assms by auto

end

section \<open>ElictAck packets\<close>

definition elict_header :: "connection \<Rightarrow> nat \<Rightarrow> header" where
  "elict_header c psize = \<lparr>hdr_ty = ElictAck, hdr_pkt_num = of_nat (next_pkt_num (snd (pkt_num_spaces c))),
     hdr_priority = 0, hdr_offset = 0, hdr_pkt_length = of_nat psize\<rparr>"

definition unreported :: "connection \<Rightarrow> nat list" where
  "unreported c = drop (ack_point c) (sent_pkt c)"

definition after_elict :: "connection \<Rightarrow> connection" where
  "after_elict c = c\<lparr>pkt_num_spaces := (fst (pkt_num_spaces c), (snd (pkt_num_spaces c))
      \<lparr>next_pkt_num := next_pkt_num (snd (pkt_num_spaces c)) + 1\<rparr>),
    ack_point := length (sent_pkt c), stop_ack := (stop_flag c \<or> stop_ack c)\<rparr>"

lemma send_ElictAck_eq:
  assumes "octets_spec oc" and "ack_point c \<le> length (sent_pkt c)"
    and "next_pkt_num (snd (pkt_num_spaces c)) + 1 < lim64"
    and "26 + 8 * length (unreported c) \<le> length out"
    and "psize = (if stop_flag c then length (unreported c) * 8 else 64)"
  shows "send_ElictAck oc out c =
     Some (Ok psize, encode_header (elict_header c psize) @ bytes_of (map of_nat (unreported c)) @
             drop (26 + 8 * length (unreported c)) out, after_elict c)"
proof -
  let ?ws = "map of_nat (unreported c) :: u64 list"
  obtain b b' where "put_header oc (elict_header c psize) out = (Ok (), b)"
    "put_all oc ?ws b = (Ok (), b')"
    "oct_buf oc b' = encode_header (elict_header c psize) @ bytes_of ?ws @ drop (26 + 8 * length (unreported c)) out"
    using octets_spec.put_packet [OF assms(1), of ?ws out "elict_header c psize"] assms(4) by auto
  with assms(2,3,5) show ?thesis
    by (auto simp: send_ElictAck_def elict_header_def after_elict_def unreported_def mult.commute Let_def)
qed

section \<open>ACK packets\<close>

definition ack_header :: "connection \<Rightarrow> header" where
  "ack_header c = \<lparr>hdr_ty = ACK, hdr_pkt_num = of_nat (send_num c), hdr_priority = 0, hdr_offset = 0,
     hdr_pkt_length = of_nat (length (recv_hashmap c) * 8 * 2 + 8)\<rparr>"

lemma send_ACK_eq:
  assumes "octets_spec oc" and "length (iter (recv_hashmap c)) = length (recv_hashmap c)"
    and "34 + 16 * length (recv_hashmap c) \<le> length out"
  shows "send_ACK oc iter out c =
     Some (Ok (length (recv_hashmap c) * 8 * 2 + 8),
           encode_header (ack_header c) @
             bytes_of (of_nat (Connection_max_ack c) # flatten_pairs (iter (recv_hashmap c))) @
             drop (34 + 16 * length (recv_hashmap c)) out,
           c\<lparr>feed_back := False, recv_hashmap := []\<rparr>)"
proof -
  let ?c = "c\<lparr>feed_back := False\<rparr>"
  let ?ws = "of_nat (Connection_max_ack c) # flatten_pairs (iter (recv_hashmap c)) :: u64 list"
  have len: "26 + 8 * length ?ws = 34 + 16 * length (recv_hashmap c)" using assms(2) by simp
  obtain b b' where "put_header oc (ack_header c) out = (Ok (), b)" "put_all oc ?ws b = (Ok (), b')"
    "oct_buf oc b' = encode_header (ack_header c) @ bytes_of ?ws @ drop (34 + 16 * length (recv_hashmap c)) out"
    using octets_spec.put_packet [OF assms(1), of ?ws out "ack_header c"] assms(3) unfolding len by blast
  then show ?thesis
    by (simp add: send_ACK_def ack_header_def Connection_max_ack_def Let_def)
qed

section \<open>Application packets\<close>

definition app_header :: "connection \<Rightarrow> nat \<Rightarrow> nat \<Rightarrow> header" where
  "app_header c off len = \<lparr>hdr_ty = Application, hdr_pkt_num = of_nat (next_pkt_num (fst (pkt_num_spaces c))),
     hdr_priority = of_nat (prio_at c off), hdr_offset = of_nat off, hdr_pkt_length = of_nat len\<rparr>"

definition budget_left :: "connection \<Rightarrow> nat \<Rightarrow> bool" where
  "budget_left c off \<longleftrightarrow> hm_get (sent_dic c) off \<noteq> Some 0"

definition counted :: "connection \<Rightarrow> nat \<Rightarrow> (nat, nat) hash_map" where
  "counted c off = hm_insert off
     (case hm_get (sent_dic c) off of Some x \<Rightarrow> x - 1 | None \<Rightarrow> prio_at c off) (sent_dic c)"

lemma count_down_eq:
  "count_down off (prio_at c off) (sent_dic c) = (if budget_left c off then Some (counted c off) else None)"
  by (auto simp: count_down_def budget_left_def counted_def split: option.split)

definition after_app :: "connection \<Rightarrow> nat \<Rightarrow> send_buf \<Rightarrow> bool \<Rightarrow> connection" where
  "after_app c off sb stop =
     c\<lparr>send_buffer := sb, sent_count := sent_count c + 1, sent_number := sent_number c + 1,
       pkt_num_spaces := ((fst (pkt_num_spaces c))\<lparr>next_pkt_num := next_pkt_num (fst (pkt_num_spaces c)) + 1\<rparr>,
         snd (pkt_num_spaces c)),
       sent_dic := counted c off, stop_flag := (stop \<or> stop_flag c), sent_pkt := sent_pkt c @ [off]\<rparr>"

text \<open>The next packet is the last of the round: the window is used up, or the queue is.\<close>

definition ends_round :: "send_buf \<Rightarrow> bool" where
  "ends_round s \<longleftrightarrow> max_data s \<le> queued (take (Suc (sb_pos s)) (sb_view s)) \<or>
     Suc (sb_pos s) = length (sb_data s)"

lemma send_Application_eq:
  assumes "octets_spec oc" and "in_round (send_buffer c)" and "1050 \<le> length out"
    and v: "sb_view (send_buffer c) ! sb_pos (send_buffer c) = (off, chunk)"
    and w: "sb_off (send_buffer c) \<le> written_data c"
    and "off div 1024 < length (norm2_vec c)" and "sent_count c + 1 < lim64"
    and "sent_number c + 1 < lim64" and "next_pkt_num (fst (pkt_num_spaces c)) + 1 < lim64"
  shows "if budget_left c off then
       (\<exists>sb stop. send_Application oc out c =
         Some (Ok (length chunk), encode_header (app_header c off (length chunk)) @ chunk @ drop (26 + length chunk) out,
               after_app c off sb stop) \<and>
         (stop \<longleftrightarrow> ends_round (send_buffer c)) \<and> sb_inv sb \<and> sb_view sb = sb_view (send_buffer c) \<and>
         max_data sb = max_data (send_buffer c) \<and> sb_acked sb = sb_acked (send_buffer c) \<and>
         (if stop then sb_pos sb = 0 else in_round sb \<and> sb_pos sb = Suc (sb_pos (send_buffer c))))
     else send_Application oc out c = None" (is "if _ then ?goal_sent else _")
proof -
  let ?s = "send_buffer c" and ?out = "drop 26 out"
  define stop where "stop \<longleftrightarrow> ends_round ?s"
  have long: "1024 \<le> length ?out" using assms(3) by simp
  obtain sb where e: "SendBuf_emit ?out ?s = Some (Ok (length chunk, off, stop), chunk @ drop (length chunk) ?out, sb)"
    and sb: "sb_inv sb" "sb_view sb = sb_view ?s" "max_data sb = max_data ?s" "sb_acked sb = sb_acked ?s"
      "if stop then sb_pos sb = 0 else in_round sb \<and> sb_pos sb = Suc (sb_pos ?s)"
    using emit_in_round [OF assms(2) long v stop_def [unfolded ends_round_def]] by blast
  have p: "sb_pos ?s < length (sb_data ?s)" and inv: "sb_inv ?s" using assms(2) by (simp_all add: in_round_def)
  then have ok: "chunk_ok (sb_off ?s) (sb_data ?s ! sb_pos ?s)" by (simp add: sb_inv_chunk)
  then have off: "off < sb_off ?s" "length chunk \<le> 1024"
    using v p by (auto simp: sb_view_nth chunk_ok_def SEND_BUFFER_SIZE_def)
  have lim: "off < lim64" using off(1) inv by (simp add: sb_inv_def)
  let ?out1 = "take 26 out @ chunk @ drop (length chunk) ?out"
  obtain b where b: "put_header oc (app_header c off (length chunk)) ?out1 = (Ok (), b)"
    "oct_buf oc b = encode_header (app_header c off (length chunk)) @ chunk @ drop (26 + length chunk) out"
    using octets_spec.put_header_only [OF assms(1), of ?out1 "app_header c off (length chunk)"] assms(3)
    by (auto simp: add.commute)
  have pr: "priority_calculation off (c\<lparr>send_buffer := sb\<rparr>) = Some (prio_at c off)"
    using assms(6) by (simp add: priority_calculation_eq)
  show ?thesis
  proof (cases "budget_left c off")
    case True
    have "send_Application oc out c =
         Some (Ok (length chunk), encode_header (app_header c off (length chunk)) @ chunk @ drop (26 + length chunk) out,
               after_app c off sb stop)"
      using True assms(3,7-9) e off w lim b pr count_down_eq [of off c]
      by (simp add: send_Application_def app_header_def after_app_def) (simp add: Let_def)
    with sb stop_def have "?goal_sent" by blast
    with True show ?thesis by (simp only: if_True)
  next
    case False
    then show ?thesis
      using assms(3,7-9) e off w pr count_down_eq [of off c] by (simp add: send_Application_def)
  qed
qed

section \<open>The invariant of the sending side\<close>

text \<open>
  From the moment the data is loaded until the next \<open>reset\<close>: the send buffer is well formed, its
  end is what has been written of the data, every queued chunk is the data at its offset, \<open>sent_pkt\<close> beyond \<open>ack_point\<close> holds the offsets of the
  \<open>sent_count\<close> packets not yet covered by an \<open>ElictAck\<close>, at most eight, and the windows
  remembered for a rollback fit in 64 bits.
\<close>

definition cut_from :: "bytes \<Rightarrow> nat \<times> bytes \<Rightarrow> bool" where
  "cut_from d x \<longleftrightarrow> snd x = take (length (snd x)) (drop (fst x) d)"

text \<open>
  How often an offset was sent and its remaining budget add up to one more than its priority.
\<close>

definition budget_inv :: "(nat \<Rightarrow> nat) \<Rightarrow> nat list \<Rightarrow> (nat, nat) hash_map \<Rightarrow> bool" where
  "budget_inv prio ps sd \<longleftrightarrow> (\<forall>k. case hm_get sd k of None \<Rightarrow> k \<notin> set ps
     | Some x \<Rightarrow> count_list ps k + x = prio k + 1)"

lemma budget_inv_send:
  assumes "budget_inv prio ps sd" and "hm_get sd k \<noteq> Some 0"
  shows "budget_inv prio (ps @ [k]) (hm_insert k (case hm_get sd k of Some x \<Rightarrow> x - 1 | None \<Rightarrow> prio k) sd)"
  unfolding budget_inv_def
proof
  fix j
  show "case hm_get (hm_insert k (case hm_get sd k of Some x \<Rightarrow> x - 1 | None \<Rightarrow> prio k) sd) j of
      None \<Rightarrow> j \<notin> set (ps @ [k]) | Some x \<Rightarrow> count_list (ps @ [k]) j + x = prio j + 1"
    using assms unfolding budget_inv_def
    by (cases "j = k"; cases "hm_get sd j")
      (auto simp: hm_insert_def update_conv' count_list_append dest: spec [of _ j] split: option.splits)
qed

definition snd_inv :: "connection \<Rightarrow> bool" where
  "snd_inv c \<longleftrightarrow> sb_inv (send_buffer c) \<and> sb_off (send_buffer c) = written_data c \<and>
     total_offset c = written_data c \<and> written_data c \<le> length (data_to_send c) \<and>
     length (data_to_send c) < lim64 \<and>
     (\<forall>x \<in> set (sb_view (send_buffer c)). cut_from (data_to_send c) x) \<and>
     budget_inv (prio_of (norm2_vec c) (low_split_point c) (high_split_point c)) (sent_pkt c) (sent_dic c) \<and>
     length (sent_pkt c) = ack_point c + sent_count c \<and> sent_count c \<le> 8 \<and>
     (\<forall>w \<in> set (former_win_vecter (recovery_of c)). w < lim64)"

lemma fold_ack_inv: "sb_inv s \<Longrightarrow> sb_inv (fold ack_and_drop ks s)"
  by (induction ks arbitrary: s) (simp_all add: ack_and_drop_inv)

lemma sb_view_fold_ack [simp]: "sb_view (fold ack_and_drop ks s) = sb_view s"
  by (induction ks arbitrary: s) simp_all

lemma sb_off_fold_ack [simp]: "sb_off (fold ack_and_drop ks s) = sb_off s"
  by (induction ks arbitrary: s) (simp_all add: ack_and_drop_def)

text \<open>Receiving: an acknowledgement only marks chunks and counts; no other packet touches the sender.\<close>

lemma process_ack_item_frame:
  assumes "process_ack_item k p (w, c) = Some (w', c')"
  shows "\<exists>ks h. c' = c\<lparr>send_buffer := fold ack_and_drop ks (send_buffer c), high_priority := h\<rparr>"
proof -
  let ?h = "if p \<noteq> 0 \<and> prio_at c k = 3 then add64 (high_priority c) 1 else Some (high_priority c)"
  obtain h where "?h = Some h"
    using assms unfolding process_ack_item_cases by (cases ?h) (simp_all only: bind.simps if_cancel option.distinct)
  moreover have "k div 1024 < length (norm2_vec c)"
    using assms unfolding process_ack_item_cases by (simp only: split: if_splits) simp
  ultimately have "c' = c\<lparr>send_buffer := fold ack_and_drop (acked_by (sent_dic c) [(k, p)]) (send_buffer c),
      high_priority := h\<rparr>"
    using assms unfolding process_ack_item_cases by (simp only: if_True bind.simps option.inject prod.inject)
  then show ?thesis by blast
qed

lemma process_ack_loop_frame:
  "process_ack_loop xs i (w, c) = Some (w', c') \<Longrightarrow>
   \<exists>ks h. c' = c\<lparr>send_buffer := fold ack_and_drop ks (send_buffer c), high_priority := h\<rparr>"
proof (induction xs i "(w, c)" arbitrary: w c rule: process_ack_loop.induct)
  case (1 xs i w c)
  show ?case
  proof (cases "i < length xs")
    case True
    with "1.prems" obtain u p w1 c1 where
      s: "slice xs i (i + 8) = Some u" "slice xs (i + 8) (i + 16) = Some p"
      and item: "process_ack_item (unat (from_be_bytes u)) (unat (from_be_bytes p)) (w, c) = Some (w1, c1)"
      and rest: "process_ack_loop xs (i + 16) (w1, c1) = Some (w', c')"
      by (subst (asm) process_ack_loop.simps) (simp add: Option.bind_eq_Some_conv, blast)
    obtain ks h where c1: "c1 = c\<lparr>send_buffer := fold ack_and_drop ks (send_buffer c), high_priority := h\<rparr>"
      using process_ack_item_frame [OF item] by blast
    obtain ks' h' where "c' = c1\<lparr>send_buffer := fold ack_and_drop ks' (send_buffer c1), high_priority := h'\<rparr>"
      using "1.hyps" [OF True s item rest] by blast
    then have "c' = c\<lparr>send_buffer := fold ack_and_drop (ks @ ks') (send_buffer c), high_priority := h'\<rparr>"
      using c1 by simp
    then show ?thesis by blast
  next
    case False
    with "1.prems" have "c' = c\<lparr>send_buffer := fold ack_and_drop [] (send_buffer c), high_priority := high_priority c\<rparr>"
      by (subst (asm) process_ack_loop.simps) simp
    then show ?thesis by blast
  qed
qed

lemma process_ack_frame:
  assumes "process_ack buf c = Some c'"
  shows "\<exists>m ks h r. c' = c\<lparr>max_off := m, send_buffer := fold ack_and_drop ks (send_buffer c), high_priority := h,
       recovery_of := r\<rparr> \<and> former_win_vecter r = former_win_vecter (recovery_of c)"
proof -
  obtain xs where xs: "slice_from buf 26 = Some xs"
    using assms by (cases "slice_from buf 26") (simp_all add: process_ack_def)
  obtain ms where ms: "slice_to xs 8 = Some ms"
    using assms xs by (cases "slice_to xs 8") (simp_all add: process_ack_def)
  define m where "m = max (unat (from_be_bytes ms)) (max_off c)"
  have c0: "(if unat (from_be_bytes ms) > max_off c then c\<lparr>max_off := unat (from_be_bytes ms)\<rparr> else c) = c\<lparr>max_off := m\<rparr>"
    by (cases c) (simp add: max_def m_def)
  note eq = assms [unfolded process_ack_def Let_def, simplified xs ms option.simps Option.bind.simps c0]
  obtain w c1 where l: "process_ack_loop xs 8 (Fin 0, c\<lparr>max_off := m\<rparr>) = Some (w, c1)"
    using eq by (cases "process_ack_loop xs 8 (Fin 0, c\<lparr>max_off := m\<rparr>)") (simp, metis surj_pair)
  obtain r where u: "update_win w (f64_of_nat (length xs div (8 * 2))) (recovery_of c1) = Some r"
    using eq l by (cases "update_win w (f64_of_nat (length xs div (8 * 2))) (recovery_of c1)") simp_all
  obtain ks h where c1: "c1 = c\<lparr>max_off := m, send_buffer := fold ack_and_drop ks (send_buffer c), high_priority := h\<rparr>"
    using process_ack_loop_frame [OF l] by (simp, blast)
  have "c' = c\<lparr>max_off := m, send_buffer := fold ack_and_drop ks (send_buffer c), high_priority := h, recovery_of := r\<rparr>"
    using eq l u c1 by simp
  moreover have "former_win_vecter r = former_win_vecter (recovery_of c)"
    using update_win_frame(1) [OF u] c1 by simp
  ultimately show ?thesis by blast
qed

lemma process_ack_snd_inv:
  assumes "snd_inv c" and "process_ack buf c = Some c'"
  shows "snd_inv c'"
proof -
  obtain m ks h r where "c' = c\<lparr>max_off := m, send_buffer := fold ack_and_drop ks (send_buffer c), high_priority := h,
       recovery_of := r\<rparr>" "former_win_vecter r = former_win_vecter (recovery_of c)"
    using process_ack_frame [OF assms(2)] by blast
  then show ?thesis using assms(1) by (simp add: snd_inv_def fold_ack_inv)
qed

lemma update_rtt_snd_inv: "update_rtt now c = Some c' \<Longrightarrow> snd_inv c' = snd_inv c"
  by (cases "dur (17 * duration_since now (handshake c))")
    (auto simp: update_rtt_def snd_inv_def split: if_splits)

text \<open>What a received packet does, by the type in its header.\<close>

abbreviation ptype :: "bytes \<Rightarrow> pkt_type" where
  "ptype p \<equiv> hdr_ty (decode_header p)"

abbreviation poff :: "bytes \<Rightarrow> nat" where
  "poff p \<equiv> unat (hdr_offset (decode_header p))"

lemma recv_slice_Some:
  assumes oc: "octets_spec oc" and s: "recv_slice oc now p c = Some (r, c')"
  shows "length p < 26 \<and> (c' = c \<or> c' = c\<lparr>recv_count := recv_count c + 1\<rparr>) \<or>
     26 \<le> length p \<and> recv_dispatch oc now (decode_header p) p (c\<lparr>recv_count := recv_count c + 1\<rparr>) = Some (r, c')"
proof (cases "recv_count c + 1 < lim64")
  case True
  with s octets_spec.recv_slice_eq [OF oc, of p c now] octets_spec.recv_slice_short [OF oc, of p c now]
  show ?thesis by (cases "26 \<le> length p") (auto split: if_splits)
next
  case False
  with s show ?thesis by (auto simp: recv_slice_def split: if_splits)
qed

lemma recv_application_Some:
  assumes s: "recv_application h p c = Some (n, c')" and len: "26 \<le> length p"
  shows "unat (hdr_offset h) + length (drop 26 p) < lim64 \<and>
     (\<exists>m. c' = c\<lparr>recv_count := recv_count c + 1, rec_buffer := (rec_buffer c)\<lparr>max_recv_off := m,
        rv_data := bt_insert (unat (hdr_offset h) + length (drop 26 p)) (RangeBuf_from (drop 26 p) (unat (hdr_offset h)))
          (rv_data (rec_buffer c))\<rparr>, recv_dic := hm_insert (unat (hdr_offset h)) (hdr_priority h) (recv_dic c)\<rparr>)"
proof -
  let ?off = "unat (hdr_offset h)"
  have rc: "recv_count c + 1 < lim64"
    using s by (cases "recv_count c + 1 < lim64") (simp_all add: recv_application_def)
  note eq = s [unfolded recv_application_eq [OF rc len]]
  have lim: "?off + length (drop 26 p) < lim64"
  proof (rule ccontr)
    assume "\<not> ?thesis"
    then have "RecvBuf_write (drop 26 p) ?off (rec_buffer c) = None" by (intro RecvBuf_write_panics) simp
    with eq show False by simp
  qed
  with eq RecvBuf_write_spec [OF lim, of "rec_buffer c"] show ?thesis by auto
qed

lemma recv_slice_cases:
  assumes oc: "octets_spec oc" and s: "recv_slice oc now p c = Some (r, c')"
  obtains (app) m n where "26 \<le> length p" "ptype p = Application" "poff p + length (drop 26 p) < lim64"
      "c' = c\<lparr>recv_count := n, rec_buffer := (rec_buffer c)\<lparr>max_recv_off := m,
         rv_data := bt_insert (poff p + length (drop 26 p)) (RangeBuf_from (drop 26 p) (poff p)) (rv_data (rec_buffer c))\<rparr>,
         recv_dic := hm_insert (poff p) (hdr_priority (decode_header p)) (recv_dic c)\<rparr>"
    | (elict) n where "26 \<le> length p" "ptype p = ElictAck"
      "c' = c\<lparr>recv_count := n, recv_flag := True, send_num := unat (hdr_pkt_num (decode_header p)),
         recv_hashmap := fold (note_offset (recv_dic c)) (words_of (drop 26 p)) (recv_hashmap c), feed_back := True\<rparr>"
    | (ack) n where "26 \<le> length p" "ptype p = ACK" "is_server c" "process_ack p (c\<lparr>recv_count := n\<rparr>) = Some c'"
    | (handshake) n x where "c' = c\<lparr>recv_count := n, rtt := x, handshake_completed := True\<rparr>"
    | (other) n where "c' = c \<or> c' = c\<lparr>recv_count := n\<rparr> \<or>
         c' = c\<lparr>recv_count := n, handshake_confirmed := False, feed_back := True\<rparr>"
proof -
  let ?c = "c\<lparr>recv_count := recv_count c + 1\<rparr>"
  consider "c' = c \<or> c' = ?c" | (long) "26 \<le> length p" "recv_dispatch oc now (decode_header p) p ?c = Some (r, c')"
    using recv_slice_Some [OF oc s] by blast
  then show thesis
  proof cases
    case 1
    then show thesis using other by blast
  next
    case long
    consider "ptype p = Application" | "ptype p = ElictAck" | "ptype p = ACK" "is_server c"
      | "ptype p = Handshake" "is_server c" | "ptype p \<notin> {Application, ElictAck} \<and> (ptype p \<in> {ACK, Handshake} \<longrightarrow> \<not> is_server c)"
      by blast
    then show thesis
    proof cases
      case 1
      with long obtain n where "recv_application (decode_header p) p ?c = Some (n, c')" by (auto simp: dispatch_Application)
      from recv_application_Some [OF this long(1)] show thesis by (auto intro: app [OF long(1) 1])
    next
      case 2
      with long show thesis
        by (intro elict [of "recv_count c + 1"]) (simp_all add: dispatch_ElictAck octets_spec.recv_elict_ack_eq [OF oc] split: if_splits)
    next
      case 3
      with long show thesis by (intro ack [of "recv_count c + 1"]) (simp_all add: dispatch_ACK)
    next
      case 4
      with long obtain c1 where "update_rtt now ?c = Some c1" and c': "c' = c1\<lparr>handshake_completed := True\<rparr>"
        by (cases "update_rtt now ?c") (simp_all add: dispatch_Handshake)
      then have "\<exists>x. c1 = ?c\<lparr>rtt := x\<rparr>"
        by (cases "dur (17 * duration_since now (handshake c))") (auto simp: update_rtt_def split: if_splits)
      then show thesis using c' handshake by auto
    next
      case 5
      with long have "c' = ?c \<or> c' = ?c\<lparr>handshake_confirmed := False, feed_back := True\<rparr>"
        by (cases "ptype p") (simp_all add: dispatch_ACK dispatch_Handshake dispatch_other)
      then show thesis using other by auto
    qed
  qed
qed

lemma recv_slice_snd_inv:
  assumes oc: "octets_spec oc" and inv: "snd_inv c" and r: "recv_slice oc now buf c = Some (r, c')"
  shows "snd_inv c'"
  using oc r
proof (cases rule: recv_slice_cases)
  case (ack n)
  then show ?thesis using inv by (intro process_ack_snd_inv [OF _ ack(4)]) (simp add: snd_inv_def)
next
  case (other n)
  then show ?thesis using inv by (elim disjE) (simp_all add: snd_inv_def)
qed (use inv in \<open>simp_all add: snd_inv_def\<close>)

section \<open>Filling the buffer for a round\<close>

text \<open>The window \<open>write\<close> asks the congestion controller for.\<close>

definition round_window :: "connection \<Rightarrow> (usize \<times> recovery) option" where
  "round_window c =
     (if fl_lt CONGESTION_THREAHOLD (fl_div rnd64 (f64_of_nat (high_priority c)) (f64_of_nat (sent_number c)))
      then Some (Recovery_rollback (recovery_of c)) else cwnd (recovery_of c))"

definition block_rest :: "connection \<Rightarrow> nat" where
  "block_rest c = (if total_offset c mod 1024 = 0 then 0 else 1024 - total_offset c mod 1024)"

lemma round_window_bounds:
  assumes "\<forall>w \<in> set (former_win_vecter (recovery_of c)). w < lim64" and "round_window c = Some (w, r)"
  shows "w < lim64" and "\<forall>w \<in> set (former_win_vecter r). w < lim64"
proof -
  have "set (butlast (former_win_vecter (recovery_of c))) \<subseteq> set (former_win_vecter (recovery_of c))"
    by (auto dest: in_set_butlastD)
  with assms show "w < lim64" "\<forall>w \<in> set (former_win_vecter r). w < lim64"
    by (auto simp: round_window_def Recovery_rollback_def bs_pop_last_def INI_WIN_def cwnd_eq_Some
        split: if_splits)
qed

lemma at_offsets_cut:
  assumes "x \<in> set (at_offsets k cs)" and "concat cs = take n (drop k d)"
  shows "cut_from d x"
  using assms
proof (induction cs arbitrary: k n)
  case (Cons c cs)
  have c: "c = take (length c) (take n (drop k d))" and cs: "concat cs = drop (length c) (take n (drop k d))"
    using Cons.prems(2) by (simp_all add: append_eq_conv_conj)
  have "length c \<le> n" using arg_cong [OF Cons.prems(2), of length] by simp
  then have "cut_from d (k, c)" using c by (simp add: cut_from_def min_def)
  moreover have "concat cs = take (n - length c) (drop (k + length c) d)"
    using cs by (simp add: drop_take add.commute)
  ultimately show ?case using Cons by auto
qed simp

text \<open>What a write puts into the queue are pieces of the data.\<close>

lemma written_cut:
  assumes "snd_inv c"
    and "v = unacked (send_buffer c) @ (if n = 0 then [] else
      at_offsets (written_data c) (pieces k (take n (drop (written_data c) (data_to_send c)))))"
  shows "\<forall>x \<in> set v. cut_from (data_to_send c) x"
proof -
  have "cut_from (data_to_send c) x" if "x \<in> set (unacked (send_buffer c))" for x
    using that assms(1) by (auto simp: unacked_def snd_inv_def)
  moreover have "cut_from (data_to_send c) x"
    if "x \<in> set (at_offsets (written_data c) (pieces k (take n (drop (written_data c) (data_to_send c)))))" for x
    using that by (rule at_offsets_cut [where n = n]) (simp add: concat_pieces)
  ultimately show ?thesis using assms(2) by (auto split: if_splits)
qed

lemma Connection_write_eq:
  assumes "round_window c = Some (w, r)" and "written_data c \<le> length (data_to_send c)"
    and "SendBuf_write (drop (written_data c) (data_to_send c)) w (block_rest c) (max_off c) (send_buffer c) = Some (res, sb)"
  shows "Connection_write c = Some (res, c\<lparr>high_priority := 0, sent_number := 0, recovery_of := r, send_buffer := sb\<rparr>)"
proof -
  have off: "(if (total_offset c mod 1024) mod 1024 \<noteq> 0 then 1024 - total_offset c mod 1024 else 0) = block_rest c"
    by (simp add: block_rest_def)
  have rwc: "(if fl_lt CONGESTION_THREAHOLD (fl_div rnd64 (f64_of_nat (high_priority c)) (f64_of_nat (sent_number c)))
      then Some (Recovery_rollback (recovery_of (c\<lparr>high_priority := 0, sent_number := 0\<rparr>)))
      else cwnd (recovery_of (c\<lparr>high_priority := 0, sent_number := 0\<rparr>))) = Some (w, r)"
    using assms(1) by (simp add: round_window_def split: if_splits)
  show ?thesis
    unfolding Connection_write_def Let_def off rwc using assms(2,3) by simp
qed

lemma send_all_write_eq:
  assumes inv: "snd_inv c" and rw: "round_window c = Some (w, r)"
  defines "dat \<equiv> drop (written_data c) (data_to_send c)"
  defines "n \<equiv> accepted dat w (send_buffer c)"
  shows "\<exists>sb. send_all_write c =
       Some (Ok True, c\<lparr>high_priority := 0, sent_number := 0, recovery_of := r, send_buffer := sb,
                        written_data := written_data c + n, total_offset := total_offset c + n\<rparr>) \<and>
     SendBuf_write dat w (block_rest c) (max_off c) (send_buffer c) = Some (Ok n, sb) \<and>
     sb_view sb = unacked (send_buffer c) @
       (if n = 0 then [] else at_offsets (written_data c) (pieces (block_rest c) (take n dat))) \<and>
     sb_acked sb = {} \<and>
     snd_inv (c\<lparr>high_priority := 0, sent_number := 0, recovery_of := r, send_buffer := sb,
                written_data := written_data c + n, total_offset := total_offset c + n\<rparr>)"
proof -
  have i: "sb_inv (send_buffer c)" "sb_off (send_buffer c) = written_data c" "total_offset c = written_data c"
    "written_data c \<le> length (data_to_send c)" "length (data_to_send c) < lim64"
    using inv by (simp_all add: snd_inv_def)
  have w: "w < lim64" "\<forall>w \<in> set (former_win_vecter r). w < lim64"
    using round_window_bounds [OF _ rw] inv by (simp_all add: snd_inv_def)
  have b: "block_rest c \<le> 1024" by (simp add: block_rest_def)
  have room: "sb_off (send_buffer c) + length dat < lim64" using i by (simp add: dat_def)
  have "n \<le> length dat" by (simp add: n_def accepted_def)
  then have lim: "written_data c + n < lim64" "written_data c + n \<le> length (data_to_send c)"
    using i by (simp_all add: dat_def)
  obtain sb where sb: "SendBuf_write dat w (block_rest c) (max_off c) (send_buffer c) = Some (Ok n, sb)"
    "sb_inv sb" "sb_off sb = sb_off (send_buffer c) + n"
    "sb_view sb = unacked (send_buffer c) @
       (if n = 0 then [] else at_offsets (sb_off (send_buffer c)) (pieces (block_rest c) (take n dat)))"
    "sb_acked sb = {}"
    using SendBuf_write_spec [OF i(1) b w(1) room, of "max_off c"] unfolding n_def by blast
  have "send_all_write c =
       Some (Ok True, c\<lparr>high_priority := 0, sent_number := 0, recovery_of := r, send_buffer := sb,
                        written_data := written_data c + n, total_offset := total_offset c + n\<rparr>)"
    using Connection_write_eq [OF rw i(4) sb(1) [unfolded dat_def]] i(3) lim(1) by (simp add: send_all_write_def)
  moreover have "snd_inv (c\<lparr>high_priority := 0, sent_number := 0, recovery_of := r, send_buffer := sb,
                        written_data := written_data c + n, total_offset := total_offset c + n\<rparr>)"
    using sb(2,3) written_cut [OF inv sb(4) [unfolded i(2) dat_def]] i lim w(2) inv by (simp add: snd_inv_def)
  moreover note sb(1) sb(4) [unfolded i(2)] sb(5)
  ultimately show ?thesis by blast
qed

lemma send_all_write_None: "round_window c = None \<Longrightarrow> send_all_write c = None"
  by (simp add: send_all_write_def Connection_write_def round_window_def Let_def split: if_splits)

lemma send_all_snd_inv:
  assumes "snd_inv c" and "send_all now c = Some (r, c')"
  shows "snd_inv c'"
proof -
  let ?c = "set_handshake now (c\<lparr>stop_flag := False, stop_ack := False\<rparr>)"
  have inv: "snd_inv ?c" using assms(1) by (simp add: snd_inv_def set_handshake_def)
  consider "send_all_write ?c = Some (r, c')" | "c' = ?c"
    using assms(2) by (auto simp: send_all_def Let_def split: if_splits)
  then show ?thesis
  proof cases
    case 1
    then obtain w rc where "round_window ?c = Some (w, rc)"
      using send_all_write_None [of ?c] by (cases "round_window ?c") auto
    from send_all_write_eq [OF inv this] 1 show ?thesis by (elim exE conjE) simp
  qed (use inv in simp)
qed

section \<open>Sending a packet keeps the invariant\<close>

text \<open>
  One \<open>Application\<close> packet in any state: either the position is at the end of the queue and \<open>Done\<close> is
  reported, or the chunk at the position goes out; a chunk with no budget left panics.
\<close>

lemma send_Application_cases:
  assumes oc: "octets_spec oc" and inv: "sb_inv (send_buffer c)" "sb_off (send_buffer c) = written_data c"
    and out: "1050 \<le> length out" and s: "send_Application oc out c = Some (r, out', c')"
  obtains (idle) sb where "r = Err Done" "length (sb_data (send_buffer c)) \<le> sb_pos (send_buffer c)" "sb_view sb = sb_view (send_buffer c)" "sb_acked sb = sb_acked (send_buffer c)"
      "sb_off sb = sb_off (send_buffer c)" "sb_inv sb" "c' = c\<lparr>send_buffer := sb\<rparr>"
    | (sent) sb off chunk stop where "r = Ok (length chunk)" "(off, chunk) \<in> set (sb_view (send_buffer c))"
      "sb_pos (send_buffer c) < length (sb_data (send_buffer c))"
      "sb_view (send_buffer c) ! sb_pos (send_buffer c) = (off, chunk)"
      "out' = encode_header (app_header c off (length chunk)) @ chunk @ drop (26 + length chunk) out"
      "budget_left c off" "sb_view sb = sb_view (send_buffer c)" "sb_acked sb = sb_acked (send_buffer c)"
      "sb_off sb = sb_off (send_buffer c)" "sb_inv sb" "c' = after_app c off sb stop"
proof -
  have len: "26 \<le> length out" and long: "1024 \<le> length (drop 26 out)" using out by simp_all
  let ?s = "send_buffer c"
  obtain res body sb where e: "SendBuf_emit (drop 26 out) ?s = Some (res, body, sb)"
    using s len by (cases "SendBuf_emit (drop 26 out) ?s") (simp_all add: send_Application_def, metis prod_cases3)
  have sb: "sb_off sb = sb_off ?s" "sb_inv sb" "sb_view sb = sb_view ?s" "sb_acked sb = sb_acked ?s"
    "length body = length (drop 26 out)"
    using emit_frame [OF e] inv(1) by (simp_all add: sb_inv_def sb_view_def sb_acked_def)
  note any = emit_any [OF inv(1) long e]
  show thesis
  proof (cases "sb_pos ?s < length (sb_data ?s)")
    case False
    with any obtain n stop where "res = Ok (n, sb_off ?s, stop)" by auto
    with s e len inv(2) have "r = Err Done" "c' = c\<lparr>send_buffer := sb\<rparr>" by (simp_all add: send_Application_def)
    with sb False show thesis by (intro idle) simp_all
  next
    case True
    obtain off chunk where v: "sb_view ?s ! sb_pos ?s = (off, chunk)" by (metis surj_pair)
    with any True obtain stop where res: "res = Ok (length chunk, off, stop)"
      and body: "body = chunk @ drop (length chunk) (drop 26 out)" by auto
    have mem: "(off, chunk) \<in> set (sb_view ?s)" using v True by (metis length_sb_view nth_mem)
    have off: "off < written_data c" and lim: "off < lim64"
      using sb_view_entry [OF inv(1) mem] inv(2) by simp_all
    let ?c = "c\<lparr>send_buffer := sb\<rparr>" and ?pn = "next_pkt_num (fst (pkt_num_spaces c))"
    let ?out1 = "take 26 out @ body"
    note eq = s [unfolded send_Application_def slice_from_Some [OF len] Let_def, simplified e res
        bind.simps prod.case result.case]
    have 1: "sent_count c + 1 < lim64"
      using eq off(1) by (cases "sent_count c + 1 < lim64") simp_all
    have 2: "sent_number c + 1 < lim64"
      using eq off(1) 1 by (cases "sent_number c + 1 < lim64") simp_all
    have 3: "priority_calculation off ?c = Some (prio_at c off)"
      using eq off(1) 1 2
      by (cases "off div 1024 < length (norm2_vec c)") (simp_all add: priority_calculation_eq)
    have 4: "?pn + 1 < lim64"
      using eq off(1) 1 2 3 by (cases "?pn + 1 < lim64") simp_all
    have 5: "budget_left c off"
      using eq off(1) 1 2 3 4 by (cases "budget_left c off") (simp_all add: count_down_eq)
    obtain b where b: "put_header oc (app_header c off (length chunk)) ?out1 = (Ok (), b)"
      "oct_buf oc b = encode_header (app_header c off (length chunk)) @ chunk @ drop (26 + length chunk) out"
      using octets_spec.put_header_only [OF oc, of ?out1 "app_header c off (length chunk)"] len body
      by (auto simp: add.commute)
    have "r = Ok (length chunk)" "c' = after_app c off sb stop"
      "out' = encode_header (app_header c off (length chunk)) @ chunk @ drop (26 + length chunk) out"
      using eq off(1) 1 2 3 4 5 b lim by (simp_all add: count_down_eq app_header_def after_app_def)
    with mem 5 sb True v show thesis by (intro sent)
  qed
qed

text \<open>What \<open>write_pkt_type\<close> changes on the way, and what it needs to choose \<open>Application\<close>.\<close>

lemma write_pkt_type_cases:
  assumes "write_pkt_type c = (r, c')"
  shows "r = Ok Handshake \<and> (c' = c\<lparr>handshake_completed := True\<rparr> \<or> c' = c\<lparr>handshake_confirmed := True\<rparr>) \<or>
     r = Ok ElictAck \<and> c' = c\<lparr>sent_count := 0\<rparr> \<and> (sent_count c mod 8 = 0 \<and> 0 < sent_count c \<or> stop_flag c) \<or>
     r = Ok ACK \<and> c' = c\<lparr>recv_flag := False\<rparr> \<or>
     r = Ok Application \<and> c' = c \<and> (sent_count c mod 8 \<noteq> 0 \<or> sent_count c = 0) \<and> \<not> stop_flag c \<or>
     (r = Ok Stop \<or> r = Err Done) \<and> c' = c"
  using assms unfolding write_pkt_type_def ELICT_FLAG_def
  by (simp split: if_split_asm)

text \<open>Sending with room for the longest packet; at most eight offsets need \<open>26 + 64\<close> bytes.\<close>

lemma send_ElictAck_snd_inv:
  assumes "octets_spec oc" and "snd_inv c" and "90 \<le> length out"
    and "send_ElictAck oc out (c\<lparr>sent_count := 0\<rparr>) = Some (r, out', c')"
  shows "snd_inv c'"
proof (cases "next_pkt_num (snd (pkt_num_spaces c)) + 1 < lim64")
  case True
  let ?c = "c\<lparr>sent_count := 0\<rparr>"
  have i: "length (sent_pkt c) = ack_point c + sent_count c" "sent_count c \<le> 8"
    using assms(2) by (simp_all add: snd_inv_def)
  have "ack_point ?c \<le> length (sent_pkt ?c)" "26 + 8 * length (unreported ?c) \<le> length out"
    using i assms(3) by (simp_all add: unreported_def)
  from send_ElictAck_eq [OF assms(1) this(1) _ this(2) refl] True assms(4)
  have "c' = after_elict ?c" by simp
  then show ?thesis using assms(2) by (simp add: after_elict_def snd_inv_def)
next
  case False
  with assms(4) show ?thesis by (simp add: send_ElictAck_def)
qed

lemma send_ACK_frame:
  "send_ACK oc iter out c = Some (r, out', c') \<Longrightarrow>
     c' = c\<lparr>feed_back := False\<rparr> \<or> c' = c\<lparr>feed_back := False, recv_hashmap := []\<rparr>"
  by (simp add: send_ACK_def Let_def split: prod.splits result.splits)

lemma send_handshake_frame:
  "send_handshake oc now out c = Some (r, out', c') \<Longrightarrow>
     c' = c \<or> c' = c\<lparr>handshake := now\<rparr> \<or> c' = c\<lparr>feed_back := False\<rparr>"
  by (auto simp: send_handshake_def set_handshake_def Let_def split: prod.splits result.splits if_splits)

lemma finish_frame:
  "finish_now s = Some (r, out', c') \<Longrightarrow> \<exists>r0. s = Some (r0, out', c')"
  "finish_common now s = Some (r, out', c') \<Longrightarrow>
     \<exists>r0 c0. s = Some (r0, out', c0) \<and> (c' = c0 \<or> c' = c0\<lparr>handshake := now\<rparr>)"
  by (cases s; auto simp: finish_now_def split: prod.splits result.splits)
    (cases s; simp add: finish_common_def split: prod.splits result.splits if_splits; blast)

text \<open>The branches of \<open>send_data\<close>: what the part for the packet type returned, and what the end made of it.\<close>

lemma finish_common_Ok:
  "finish_common now (Some (r0, o0, c0)) = Some (Ok (n, info), out', c') \<Longrightarrow> \<exists>ps. r0 = Ok ps \<and> n = 26 + ps"
  by (cases r0) (auto simp: finish_common_def HEADER_LENGTH_def split: if_splits)

lemma finish_now_Ok:
  "finish_now (Some (r0, o0, c0)) = Some (Ok (n, info), out', c') \<Longrightarrow> \<exists>ps. r0 = Ok ps \<and> n = 26 + ps"
  by (cases r0) (auto simp: finish_now_def HEADER_LENGTH_def)

definition sent_size :: "nat result \<Rightarrow> (usize \<times> send_info) result \<Rightarrow> bool" where
  "sent_size r0 r \<longleftrightarrow> (\<forall>n info. r = Ok (n, info) \<longrightarrow> (\<exists>ps. r0 = Ok ps \<and> n = 26 + ps))"

lemma finish_common_cases:
  assumes "finish_common now s = Some (r, out', c')"
  obtains r0 c0 where "s = Some (r0, out', c0)" "c' = c0 \<or> c' = c0\<lparr>handshake := now\<rparr>" "sent_size r0 r"
proof -
  obtain r0 c0 where s: "s = Some (r0, out', c0)" "c' = c0 \<or> c' = c0\<lparr>handshake := now\<rparr>"
    using finish_frame(2) [OF assms] by blast
  then have "sent_size r0 r"
    using assms finish_common_Ok [of now r0 out' c0] by (auto simp: sent_size_def)
  with s show thesis by (rule that)
qed

lemma finish_now_cases:
  assumes "finish_now s = Some (r, out', c')"
  obtains r0 where "s = Some (r0, out', c')" "sent_size r0 r"
proof -
  obtain r0 where s: "s = Some (r0, out', c')" using finish_frame(1) [OF assms] by blast
  then have "sent_size r0 r" using assms finish_now_Ok [of r0 out' c'] by (auto simp: sent_size_def)
  with s show thesis by (rule that)
qed

lemma send_data_cases:
  assumes s: "Connection_send_data oc iter now out c = Some (r, out', c')" and out: "out \<noteq> []"
  obtains (none) e where "r = Err e" "c' = c"
    | (hs) c1 r0 c0 where "c1 = c\<lparr>handshake_completed := True\<rparr> \<or> c1 = c\<lparr>handshake_confirmed := True\<rparr>"
      "send_handshake oc now out c1 = Some (r0, out', c0)" "c' = c0 \<or> c' = c0\<lparr>handshake := now\<rparr>" "sent_size r0 r"
    | (el) r0 where "write_pkt_type c = (Ok ElictAck, c\<lparr>sent_count := 0\<rparr>)"
      "send_ElictAck oc out (c\<lparr>sent_count := 0\<rparr>) = Some (r0, out', c')" "sent_size r0 r"
    | (ack) r0 c0 where "send_ACK oc iter out (c\<lparr>recv_flag := False\<rparr>) = Some (r0, out', c0)"
      "c' = c0 \<or> c' = c0\<lparr>handshake := now\<rparr>" "sent_size r0 r"
    | (app) r0 c0 where "sent_count c mod 8 \<noteq> 0 \<or> sent_count c = 0" "send_Application oc out c = Some (r0, out', c0)"
      "c' = c0 \<or> c' = c0\<lparr>handshake := now\<rparr>" "sent_size r0 r"
    | (stop) r0 where "send_Stop oc out c = Some (r0, out', c')" "sent_size r0 r"
proof -
  obtain ty c1 where ty: "write_pkt_type c = (ty, c1)" by (metis surj_pair)
  note s' = s [unfolded Connection_send_data_def ty, simplified out if_False prod.case]
  note w = write_pkt_type_cases [OF ty]
  show thesis
  proof (cases ty)
    case (Err e)
    with s' w none show thesis by auto
  next
    case (Ok t)
    consider "t = Handshake" | "t = ElictAck" | "t = ACK" | "t = Application" | "t = Stop" using w Ok by auto
    then show thesis
    proof cases
      case 1
      with s' Ok have "finish_common now (send_handshake oc now out c1) = Some (r, out', c')" by simp
      then show thesis using w Ok 1 hs by (elim finish_common_cases) simp
    next
      case 2
      with s' Ok have "finish_now (send_ElictAck oc out c1) = Some (r, out', c')" by simp
      then show thesis using w Ok 2 el ty by (elim finish_now_cases) simp
    next
      case 3
      with s' Ok have "finish_common now (send_ACK oc iter out c1) = Some (r, out', c')" by simp
      then show thesis using w Ok 3 ack by (elim finish_common_cases) simp
    next
      case 4
      with s' Ok have "finish_common now (send_Application oc out c1) = Some (r, out', c')" by simp
      then show thesis using w Ok 4 app by (elim finish_common_cases) simp
    next
      case 5
      with s' Ok have "finish_now (send_Stop oc out c1) = Some (r, out', c')" by simp
      then show thesis using w Ok 5 stop by (elim finish_now_cases) simp
    qed
  qed
qed

lemma clock_snd_inv: "snd_inv c0 \<Longrightarrow> c' = c0 \<or> c' = c0\<lparr>handshake := now\<rparr> \<Longrightarrow> snd_inv c'"
  by (elim disjE) (simp_all add: snd_inv_def)

lemma send_Application_snd_inv:
  assumes oc: "octets_spec oc" and inv: "snd_inv c" and out: "1050 \<le> length out"
    and sc: "sent_count c mod 8 \<noteq> 0 \<or> sent_count c = 0" and s: "send_Application oc out c = Some (r, out', c')"
  shows "snd_inv c'"
proof -
  have sb: "sb_inv (send_buffer c)" "sb_off (send_buffer c) = written_data c" using inv by (simp_all add: snd_inv_def)
  have "sent_count c < 8" using inv sc by (cases "sent_count c = 8") (auto simp: snd_inv_def)
  show ?thesis
    using oc sb out s
  proof (cases rule: send_Application_cases)
    case (idle sb)
    with inv show ?thesis by (simp add: snd_inv_def)
  next
    case (sent sb off chunk stop)
    have "budget_inv (prio_at c) (sent_pkt c @ [off]) (counted c off)"
      using inv sent(6) budget_inv_send [of "prio_at c" "sent_pkt c" "sent_dic c" off]
      by (simp add: snd_inv_def prio_at_def budget_left_def counted_def)
    with sent inv \<open>sent_count c < 8\<close> show ?thesis by (simp add: snd_inv_def after_app_def prio_at_def)
  qed
qed

lemma send_data_snd_inv:
  assumes oc: "octets_spec oc" and inv: "snd_inv c" and out: "1050 \<le> length out"
    and s: "Connection_send_data oc iter now out c = Some (r, out', c')"
  shows "snd_inv c'"
proof -
  have "out \<noteq> []" using out by auto
  with s show ?thesis
  proof (cases rule: send_data_cases)
    case (hs c1 r0 c0)
    have "snd_inv c1" using hs(1) inv by (elim disjE) (simp_all add: snd_inv_def)
    then have "snd_inv c0" using send_handshake_frame [OF hs(2)] by (elim disjE) (simp_all add: snd_inv_def)
    with hs(3) show ?thesis by (rule clock_snd_inv [rotated])
  next
    case (el r0)
    then show ?thesis using out by (intro send_ElictAck_snd_inv [OF oc inv _ el(2)]) simp
  next
    case (ack r0 c0)
    have "snd_inv c0" using send_ACK_frame [OF ack(1)] inv by (elim disjE) (simp_all add: snd_inv_def)
    with ack(2) show ?thesis by (rule clock_snd_inv [rotated])
  next
    case (app r0 c0)
    from send_Application_snd_inv [OF oc inv out app(1,2)] app(3) show ?thesis by (rule clock_snd_inv)
  next
    case (stop r0)
    then have "c' = c" by (simp add: send_Stop_def Let_def split: prod.splits result.splits)
    with inv show ?thesis by simp
  qed (use inv in simp)
qed

end
