(* ===== verification/Sending.thy ===== *)
theory Sending
  imports Sender
begin

text \<open>
  The sending endpoint as a state machine: the states it reaches through the calls of its
  interface, and what the packets it sends are.
\<close>

section \<open>Reachable senders\<close>

text \<open>
  A new server-side connection with any data, norms and split points, as \<open>data_send\<close> sets them (\<open>data_send_reachable\<close>
  in \<open>Loading\<close>), and the calls an application makes on it to have these data sent, with output buffers that
  hold the longest packet.  The transfer of the loaded data ends with \<open>reset\<close> or another \<open>data_send\<close>: these set
  the buffer or the data back, but not the number of bytes written, so that what follows is not a transfer of the new data from its start
  (\<open>Loading\<close>, on loading again).  A direct call of \<open>write\<close> is left out too: it is \<open>send_all\<close> that counts
  what \<open>write\<close> has taken.
\<close>

definition loaded :: "connection \<Rightarrow> bytes \<Rightarrow> fl list \<Rightarrow> fl \<Rightarrow> fl \<Rightarrow> connection" where
  "loaded c d ns lo hi = c\<lparr>data_to_send := d, norm2_vec := ns, low_split_point := lo, high_split_point := hi\<rparr>"

inductive snd_reachable ::
  "'b octets \<Rightarrow> ((nat, nat) hash_map \<Rightarrow> (nat \<times> nat) list) \<Rightarrow> connection \<Rightarrow> bool" for oc iter where
  sr_open: "length d < lim64 \<Longrightarrow> snd_reachable oc iter (loaded (fresh_connection loc peer True now) d ns lo hi)"
| sr_send_all: "snd_reachable oc iter c \<Longrightarrow> send_all now c = Some (r, c') \<Longrightarrow> snd_reachable oc iter c'"
| sr_send_data: "snd_reachable oc iter c \<Longrightarrow> 1350 \<le> length out \<Longrightarrow>
    Connection_send_data oc iter now out c = Some (rs, out', c') \<Longrightarrow> snd_reachable oc iter c'"
| sr_recv: "snd_reachable oc iter c \<Longrightarrow> recv_slice oc now buf c = Some (r, c') \<Longrightarrow> snd_reachable oc iter c'"
| sr_rtt: "snd_reachable oc iter c \<Longrightarrow> new_rtt lst c = Some c' \<Longrightarrow> snd_reachable oc iter c'"
| sr_clock: "snd_reachable oc iter c \<Longrightarrow> snd_reachable oc iter (set_handshake now c)"

lemma snd_inv_loaded: "length d < lim64 \<Longrightarrow> snd_inv (loaded (fresh_connection loc peer srv now) d ns lo hi)"
  by (simp add: snd_inv_def loaded_def budget_inv_def fresh_recovery_def)

lemma new_rtt_snd_inv: "new_rtt lst c = Some c' \<Longrightarrow> snd_inv c' = snd_inv c"
  by (cases "dur (3 * lst)"; cases "dur (rtt c div 4 + 3 * lst div 4)")
    (auto simp: new_rtt_def snd_inv_def dur_def split: if_splits)

lemma snd_reachable_inv:
  assumes "octets_spec oc" and "snd_reachable oc iter c"
  shows "snd_inv c"
  using assms(2)
proof (induction rule: snd_reachable.induct)
  case (sr_open d loc peer now ns lo hi)
  then show ?case by (rule snd_inv_loaded)
next
  case (sr_send_all c now r c')
  then show ?case by (simp add: send_all_snd_inv)
next
  case (sr_send_data c out now rs out' c')
  then have "1050 \<le> length out" by simp
  from send_data_snd_inv [OF assms(1) sr_send_data.IH this sr_send_data.hyps(3)] show ?case .
next
  case (sr_recv c now buf r c')
  from recv_slice_snd_inv [OF assms(1) sr_recv.IH sr_recv.hyps(2)] show ?case .
next
  case (sr_rtt c lst c')
  then show ?case by (simp add: new_rtt_snd_inv)
next
  case (sr_clock c now)
  then show ?case by (simp add: set_handshake_def snd_inv_def)
qed

section \<open>ElictAck packets\<close>

lemma send_data_elict:
  assumes oc: "octets_spec oc" and inv: "snd_inv c" and ty: "write_pkt_type c = (Ok ElictAck, c1)"
    and out: "90 \<le> length out" and pn: "next_pkt_num (snd (pkt_num_spaces c)) + 1 < lim64"
  shows "c1 = c\<lparr>sent_count := 0\<rparr> \<and> length (unreported c) = sent_count c \<and> sent_count c \<le> 8 \<and>
     Connection_send_data oc iter now out c =
       Some (Ok (26 + 8 * sent_count c, send_info_of c),
             encode_header (elict_header c (8 * sent_count c)) @ bytes_of (map of_nat (unreported c)) @
               drop (26 + 8 * sent_count c) out,
             after_elict c1)"
proof -
  have c1: "c1 = c\<lparr>sent_count := 0\<rparr>" and cond: "sent_count c mod 8 = 0 \<and> 0 < sent_count c \<or> stop_flag c"
    using write_pkt_type_cases [OF ty] by simp_all
  have i: "length (sent_pkt c) = ack_point c + sent_count c" "sent_count c \<le> 8"
    using inv by (simp_all add: snd_inv_def)
  then have len: "length (unreported c) = sent_count c" by (simp add: unreported_def)
  have ps: "(if stop_flag c1 then length (unreported c1) * 8 else 64) = 8 * sent_count c"
    using cond i(2) len by (auto simp: c1 unreported_def elim!: dvdE simp flip: dvd_eq_mod_eq_0)
  have "send_ElictAck oc out c1 =
     Some (Ok (8 * sent_count c), encode_header (elict_header c1 (8 * sent_count c)) @
       bytes_of (map of_nat (unreported c1)) @ drop (26 + 8 * length (unreported c1)) out, after_elict c1)"
    using i len out pn by (intro send_ElictAck_eq [OF oc]) (simp_all add: c1 unreported_def ps [symmetric])
  moreover have "elict_header c1 = elict_header c" "unreported c1 = unreported c" "out \<noteq> []"
    using out by (auto simp: c1 elict_header_def unreported_def)
  ultimately show ?thesis
    using c1 len i(2) ty
    by (simp add: Connection_send_data_def finish_now_def send_info_of_def HEADER_LENGTH_def after_elict_def)
qed

text \<open>
  (C25) Every \<open>ElictAck\<close> packet a sender sends lists exactly the offsets of the \<open>Application\<close> packets
  sent since the previous one, in the order they were sent, at most eight of them, and its
  length field and the reported datagram length are right.  Afterwards nothing is left
  unreported.
\<close>

theorem elict_ack_lists_unreported:
  assumes "octets_spec oc" and "snd_reachable oc iter c" and "write_pkt_type c = (Ok ElictAck, c1)"
    and "1350 \<le> length out" and "next_pkt_num (snd (pkt_num_spaces c)) + 1 < lim64"
    and "offs = drop (ack_point c) (sent_pkt c)"
  shows "\<exists>h out' c'. Connection_send_data oc iter now out c =
       Some (Ok (26 + 8 * length offs, send_info_of c), out', c') \<and>
     take (26 + 8 * length offs) out' = encode_header h @ bytes_of (map of_nat offs) \<and>
     hdr_ty h = ElictAck \<and> unat (hdr_pkt_length h) = 8 * length offs \<and> length offs \<le> 8 \<and>
     sent_pkt c' = sent_pkt c \<and> ack_point c' = length (sent_pkt c') \<and> sent_count c' = 0"
proof -
  have inv: "snd_inv c" using assms(1,2) by (rule snd_reachable_inv)
  have out: "90 \<le> length out" using assms(4) by simp
  from send_data_elict [OF assms(1) inv assms(3) out assms(5), of iter now]
  have e: "c1 = c\<lparr>sent_count := 0\<rparr>" "length offs = sent_count c" "sent_count c \<le> 8"
    "Connection_send_data oc iter now out c =
       Some (Ok (26 + 8 * sent_count c, send_info_of c),
             encode_header (elict_header c (8 * sent_count c)) @ bytes_of (map of_nat offs) @
               drop (26 + 8 * sent_count c) out, after_elict c1)"
    by (simp_all add: assms(6) unreported_def)
  have h: "hdr_ty (elict_header c (8 * sent_count c)) = ElictAck"
    "unat (hdr_pkt_length (elict_header c (8 * sent_count c))) = 8 * sent_count c"
    using e(3) unat_of_nat_u64 [of "8 * sent_count c"]
    by (simp_all add: elict_header_def del: of_nat_mult unat_of_nat_u64)
  show ?thesis
    using e h assms(6)
    by (intro exI [of _ "elict_header c (8 * sent_count c)"] exI [of _ "after_elict c1"])
      (simp add: after_elict_def)
qed

section \<open>A run to evaluate the theorems on\<close>

text \<open>
  A server with three bytes to send: the answer to its handshake, the start of a round, and the
  one packet of the round.
\<close>

definition demo_open :: connection where
  "demo_open = loaded (fresh_connection (SocketAddrV4 0 1) (SocketAddrV4 0 2) True 0) [1, 2, 3] [Fin 1] (Fin 0) (Fin 0)"

definition demo_handshake :: bytes where
  "demo_handshake = encode_header \<lparr>hdr_ty = Handshake, hdr_pkt_num = 0, hdr_priority = 0, hdr_offset = 0,
     hdr_pkt_length = 0\<rparr>"

definition demo_ready :: connection where
  "demo_ready = demo_open\<lparr>recv_count := 1, rtt := 5, handshake_completed := True\<rparr>"

lemma demo_open_simps [simp]:
  "recv_count demo_open = 0" "sent_count demo_open = 0" "is_server demo_open" "server demo_open"
  "rtt demo_open = 0" "handshake demo_open = 0" "send_buffer demo_open = SendBuf_new 10800"
  "written_data demo_open = 0" "total_offset demo_open = 0" "sent_pkt demo_open = []"
  "ack_point demo_open = 0" "sent_dic demo_open = []" "high_priority demo_open = 0"
  "sent_number demo_open = 0" "data_to_send demo_open = [1, 2, 3]" "norm2_vec demo_open = [Fin 1]"
  "low_split_point demo_open = Fin 0" "high_split_point demo_open = Fin 0" "recv_flag demo_open = False"
  "recovery_of demo_open = fresh_recovery" "pkt_num_spaces demo_open = (PktNumSpace_new, PktNumSpace_new)"
  by (simp_all add: demo_open_def loaded_def)

lemma demo_recv: "recv_slice list_octets 5 demo_handshake demo_open = Some (Ok 0, demo_ready)"
proof -
  have "length demo_handshake = 26" "hdr_ty (decode_header demo_handshake) = Handshake"
    using decode_encode_header [where rest = "[]"] by (simp_all add: demo_handshake_def)
  then show ?thesis
    by (simp add: list_oc.recv_slice_eq dispatch_Handshake update_rtt_def duration_since_def demo_ready_def)
qed

lemma demo_window: "round_window (set_handshake 5 (demo_ready\<lparr>stop_flag := False, stop_ack := False\<rparr>)) =
    Some (9600, snd (the (cwnd fresh_recovery)))"
proof -
  have "rnd64 0 = Fin 0" by (simp add: rnd64_def rnd_def)
  then have "fl_div rnd64 (f64_of_nat 0) (f64_of_nat 0) = NaN" by (simp add: f64_of_nat_def fl_inf_def)
  moreover have "fl_lt x NaN = False" for x by (cases x) simp_all
  moreover have "cwnd fresh_recovery = Some (9600, snd (the (cwnd fresh_recovery)))"
    by (simp add: cwnd_eq fresh_recovery_def)
  ultimately show ?thesis by (simp add: round_window_def set_handshake_def demo_ready_def)
qed

lemma demo_round:
  obtains c where "snd_reachable list_octets iter c" "send_all 5 demo_ready = Some (Ok True, c)"
    "in_round (send_buffer c)" "sb_view (send_buffer c) = [(0, [1, 2, 3])]" "sb_pos (send_buffer c) = 0"
    "written_data c = 3" "rtt c = 5" "sent_count c = 0" "sent_number c = 0" "sent_pkt c = []" "ack_point c = 0"
    "sent_dic c = []" "norm2_vec c = [Fin 1]" "stop_flag c = False" "recv_flag c = False" "is_server c"
    "pkt_num_spaces c = (PktNumSpace_new, PktNumSpace_new)" "stop_ack c = False" "data_to_send c = [1, 2, 3]"
    "low_split_point c = Fin 0" "high_split_point c = Fin 0"
proof -
  let ?c = "set_handshake 5 (demo_ready\<lparr>stop_flag := False, stop_ack := False\<rparr>)"
  have reach: "snd_reachable list_octets iter demo_ready"
    by (rule sr_recv [OF _ demo_recv]) (simp add: demo_open_def sr_open)
  then have inv: "snd_inv ?c"
    using snd_reachable_inv [OF list_oc.octets_spec_axioms reach] by (simp add: snd_inv_def set_handshake_def)
  have f: "data_to_send ?c = [1, 2, 3]" "written_data ?c = 0" "send_buffer ?c = SendBuf_new 10800"
    "total_offset ?c = 0" by (simp_all add: set_handshake_def demo_ready_def)
  have acc: "accepted (drop (written_data ?c) (data_to_send ?c)) 9600 (send_buffer ?c) = 3"
    unfolding f by (simp add: accepted_def)
  from send_all_write_eq [OF inv demo_window] obtain sb where
    w: "send_all_write ?c = Some (Ok True, ?c\<lparr>high_priority := 0, sent_number := 0,
          recovery_of := snd (the (cwnd fresh_recovery)), send_buffer := sb, written_data := 3, total_offset := 3\<rparr>)"
    and sb: "SendBuf_write [1, 2, 3] 9600 0 (max_off ?c) (SendBuf_new 10800) = Some (Ok 3, sb)"
    unfolding acc unfolding f block_rest_def by auto
  let ?d = "?c\<lparr>high_priority := 0, sent_number := 0, recovery_of := snd (the (cwnd fresh_recovery)),
      send_buffer := sb, written_data := 3, total_offset := 3\<rparr>"
  have s: "send_all 5 demo_ready = Some (Ok True, ?d)"
    using w by (simp add: send_all_def Let_def f(1,2))
  have v: "sb_view sb = [(0, [1, 2, 3])]"
    using write_new [of "[1, 2, 3]" 9600 "max_off ?c" 10800] sb by auto
  have r: "in_round sb" "sb_pos sb = 0"
    using write_opens_round [OF _ _ _ _ _ _ sb] v by simp_all
  show thesis
    by (rule that [OF sr_send_all [OF reach s] s]) (use v r in \<open>simp_all add: set_handshake_def demo_ready_def\<close>)
qed

lemma demo_sent:
  obtains c0 c out' where "snd_reachable list_octets iter c0" "write_pkt_type c0 = (Ok Application, c0)"
    "Connection_send_data list_octets iter 6 (replicate 1350 0) c0 = Some (Ok (29, send_info_of c0), out', c)"
    "data_to_send c0 = [1, 2, 3]" and "snd_reachable list_octets iter c" "stop_flag c" "rtt c = 5" "is_server c" "sent_pkt c = [0]"
    "ack_point c = 0" "pkt_num_spaces c = (PktNumSpace_new\<lparr>next_pkt_num := 1\<rparr>, PktNumSpace_new)" "recv_flag c = False"
    "sent_count c = 1"
proof -
  obtain c where c: "snd_reachable list_octets iter c"
    "in_round (send_buffer c)" "sb_view (send_buffer c) = [(0, [1, 2, 3])]" "sb_pos (send_buffer c) = 0"
    "written_data c = 3" "rtt c = 5" "sent_count c = 0" "sent_number c = 0" "sent_pkt c = []" "ack_point c = 0"
    "sent_dic c = []" "norm2_vec c = [Fin 1]" "stop_flag c = False" "recv_flag c = False" "is_server c"
    "pkt_num_spaces c = (PktNumSpace_new, PktNumSpace_new)" "stop_ack c = False" "data_to_send c = [1, 2, 3]"
    by (rule demo_round)
  let ?out = "replicate 1350 0 :: bytes"
  have v: "sb_view (send_buffer c) ! sb_pos (send_buffer c) = (0, [1, 2, 3])" using c(3,4) by simp
  have off: "sb_off (send_buffer c) \<le> written_data c"
    using snd_reachable_inv [OF list_oc.octets_spec_axioms c(1)] by (simp add: snd_inv_def)
  have er: "ends_round (send_buffer c)"
    using c(4) length_sb_view [of "send_buffer c"] unfolding c(3) by (simp add: ends_round_def)
  have b: "budget_left c 0" using c(11) by (simp add: budget_left_def)
  from send_Application_eq [OF list_oc.octets_spec_axioms c(2) _ v off, of ?out] b er c(7,8,12,16)
  obtain sb out' stop where stop and
    a: "send_Application list_octets ?out c = Some (Ok (length [1, 2, 3 :: u8]), out', after_app c 0 sb stop)"
    by (simp add: PktNumSpace_new_def) metis
  have ty: "write_pkt_type c = (Ok Application, c)"
    using c by (simp add: write_pkt_type_def)
  let ?c = "after_app c 0 sb stop"
  have f: "stop_flag ?c" "rtt ?c = 5" "is_server ?c" "sent_pkt ?c = [0]" "ack_point ?c = 0"
    "pkt_num_spaces ?c = (PktNumSpace_new\<lparr>next_pkt_num := 1\<rparr>, PktNumSpace_new)" "recv_flag ?c = False" "sent_count ?c = 1"
    using c \<open>stop\<close> by (simp_all add: after_app_def PktNumSpace_new_def)
  let ?c' = "?c\<lparr>handshake := 6\<rparr>"
  have "stop_ack ?c = False" "send_info_of ?c = send_info_of c"
    using c(17) by (simp_all add: after_app_def send_info_of_def)
  then have s: "Connection_send_data list_octets iter 6 ?out c = Some (Ok (29, send_info_of c), out', ?c')"
    using a ty by (simp add: Connection_send_data_def finish_common_def is_stopped_def HEADER_LENGTH_def)
  have "snd_reachable list_octets iter ?c'" by (rule sr_send_data [OF c(1) _ s]) simp
  from that [OF c(1) ty s c(18) this] f show thesis by simp
qed

lemma demo_elict: "stop_flag c \<Longrightarrow> rtt c = 5 \<Longrightarrow> is_server c \<Longrightarrow> write_pkt_type c = (Ok ElictAck, c\<lparr>sent_count := 0\<rparr>)"
  by (simp add: write_pkt_type_def)

theorem elict_ack_lists_unreported_witness:
  "\<exists>c h out' c'. snd_reachable list_octets id c \<and>
     Connection_send_data list_octets id 7 (replicate 1350 0) c = Some (Ok (34, send_info_of c), out', c') \<and>
     take 34 out' = encode_header h @ bytes_of [0]"
proof -
  obtain c where c: "snd_reachable list_octets id c" "stop_flag c" "rtt c = 5" "is_server c" "sent_pkt c = [0]"
    "ack_point c = 0" "pkt_num_spaces c = (PktNumSpace_new\<lparr>next_pkt_num := 1\<rparr>, PktNumSpace_new)"
    by (rule demo_sent)
  have "[0] = drop (ack_point c) (sent_pkt c)" using c by simp
  from elict_ack_lists_unreported [OF list_oc.octets_spec_axioms c(1) demo_elict [OF c(2-4)] _ _ this,
      of "replicate 1350 0" 7] c(1,7)
  show ?thesis by (simp add: PktNumSpace_new_def) blast
qed

section \<open>What Application packets carry\<close>

text \<open>
  (C26) Let data be loaded into a new connection, and let it go through any \<open>send_all\<close>, \<open>send_data\<close>, \<open>recv_slice\<close>
  (with any packets), \<open>new_rtt\<close> and \<open>set_handshake\<close>, but no \<open>reset\<close>, second \<open>data_send\<close> or direct \<open>write\<close>.  Then an
  \<open>Application\<close> packet it sends is a header and a payload that is exactly the loaded data at the header's
  offset; the offset, the length and the priority in the header are right, the offset is appended to the list of
  sent packets, and the chunk had retransmission budget left.
\<close>

theorem packets_carry_the_data:
  assumes "octets_spec oc" and "snd_reachable oc iter c" and "write_pkt_type c = (Ok Application, c)"
    and "1350 \<le> length out" and "Connection_send_data oc iter now out c = Some (Ok (n, info), out', c')"
  shows "\<exists>h off len. take n out' = encode_header h @ take len (drop off (data_to_send c)) \<and> n = 26 + len \<and>
     0 < len \<and> len \<le> 1024 \<and> off + len \<le> length (data_to_send c) \<and> hdr_ty h = Application \<and>
     unat (hdr_offset h) = off \<and> unat (hdr_pkt_length h) = len \<and> unat (hdr_priority h) = prio_at c off \<and>
     sent_pkt c' = sent_pkt c @ [off] \<and> hm_get (sent_dic c) off \<noteq> Some 0"
proof -
  have inv: "snd_inv c" using assms(1,2) by (rule snd_reachable_inv)
  then have sb: "sb_inv (send_buffer c)" "sb_off (send_buffer c) = written_data c" by (simp_all add: snd_inv_def)
  have out: "1050 \<le> length out" "out \<noteq> []" using assms(4) by auto
  obtain r0 c0 where s: "send_Application oc out c = Some (r0, out', c0)"
    using assms(3,5) out(2) finish_frame(2) [of now "send_Application oc out c" "Ok (n, info)" out' c']
    by (auto simp: Connection_send_data_def)
  then have fin: "finish_common now (Some (r0, out', c0)) = Some (Ok (n, info), out', c')"
    using assms(3,5) out(2) by (simp add: Connection_send_data_def)
  show ?thesis
    using assms(1) sb out(1) s
  proof (cases rule: send_Application_cases)
    case (idle sb)
    with fin show ?thesis by (simp add: finish_common_def)
  next
    case (sent sb off chunk stop)
    from fin sent(1) have n: "n = 26 + length chunk" and c': "sent_pkt c' = sent_pkt c0"
      by (auto simp: finish_common_def HEADER_LENGTH_def split: if_splits)
    have cut: "chunk = take (length chunk) (drop off (data_to_send c))"
      using inv sent(2) by (auto simp: snd_inv_def cut_from_def)
    have e: "chunk \<noteq> []" "length chunk \<le> 1024" "off + length chunk \<le> written_data c" "off < lim64"
      using sb_view_entry [OF sb(1) sent(2)] sb(2) by simp_all
    have "written_data c \<le> length (data_to_send c)" using inv by (simp add: snd_inv_def)
    with e(3) have e3: "off + length chunk \<le> length (data_to_send c)" by simp
    let ?h = "app_header c off (length chunk)"
    have "unat (hdr_offset ?h) = off" "unat (hdr_pkt_length ?h) = length chunk" "unat (hdr_priority ?h) = prio_at c off"
      "hdr_ty ?h = Application"
      using e(2,4) prio_at_range [of c off] by (auto simp: app_header_def unat_of_nat)
    moreover have "take n out' = encode_header ?h @ take (length chunk) (drop off (data_to_send c))"
      using sent(5) n by (simp flip: cut)
    moreover have "sent_pkt c' = sent_pkt c @ [off]" "hm_get (sent_dic c) off \<noteq> Some 0"
      using c' sent(6,11) by (simp_all add: after_app_def budget_left_def)
    ultimately show ?thesis using n e(1,2) e3 by blast
  qed
qed

theorem packets_carry_the_data_witness:
  "\<exists>c out' c'. snd_reachable list_octets id c \<and>
     Connection_send_data list_octets id 6 (replicate 1350 0) c = Some (Ok (29, send_info_of c), out', c') \<and>
     (\<exists>h. take 29 out' = encode_header h @ [1, 2, 3] \<and> hdr_ty h = Application)"
proof -
  obtain c c' out' where c: "snd_reachable list_octets id c" "write_pkt_type c = (Ok Application, c)"
    "Connection_send_data list_octets id 6 (replicate 1350 0) c = Some (Ok (29, send_info_of c), out', c')"
    "data_to_send c = [1, 2, 3]" by (rule demo_sent)
  from packets_carry_the_data [OF list_oc.octets_spec_axioms c(1,2) _ c(3)]
  obtain h off where "take 29 out' = encode_header h @ take 3 (drop off [1, 2, 3])" "off + 3 \<le> 3" "hdr_ty h = Application"
    using c(4) by (auto simp: eval_nat_numeral)
  with c(1,3) show ?thesis by auto
qed

text \<open>
  (C34) Retransmission is bounded: a sender sends the chunk at an offset at most once more than its
  priority, so at most four times; what it may still send of it is its entry in \<open>sent_dic\<close>.
\<close>

theorem retransmissions_bounded:
  assumes "octets_spec oc" and "snd_reachable oc iter c"
  shows "count_list (sent_pkt c) off \<le> prio_at c off + 1 \<and> count_list (sent_pkt c) off \<le> 4 \<and>
     (\<forall>x. hm_get (sent_dic c) off = Some x \<longrightarrow> count_list (sent_pkt c) off + x = prio_at c off + 1)"
proof -
  have "budget_inv (prio_at c) (sent_pkt c) (sent_dic c)"
    using snd_reachable_inv [OF assms] by (simp add: snd_inv_def prio_at_def)
  then have "case hm_get (sent_dic c) off of None \<Rightarrow> off \<notin> set (sent_pkt c)
      | Some x \<Rightarrow> count_list (sent_pkt c) off + x = prio_at c off + 1"
    by (simp add: budget_inv_def)
  then show ?thesis
    using prio_at_range [of c off] by (auto simp: count_list_0_iff split: option.splits)
qed

theorem retransmissions_bounded_witness:
  "\<exists>c. snd_reachable list_octets id c \<and> count_list (sent_pkt c) 0 = 1 \<and>
     count_list (sent_pkt c) 0 \<le> prio_at c 0 + 1"
proof -
  obtain c where c: "snd_reachable list_octets id c" "sent_pkt c = [0]" by (rule demo_sent)
  with retransmissions_bounded [OF list_oc.octets_spec_axioms c(1), of 0] show ?thesis by auto
qed

section \<open>The end of a round\<close>

text \<open>A loop that calls \<open>send_data\<close>, as the applications do until it reports \<open>Done\<close>: the first \<open>n\<close> calls.\<close>

fun send_calls :: "nat \<Rightarrow> 'b octets \<Rightarrow> ((nat, nat) hash_map \<Rightarrow> (nat \<times> nat) list) \<Rightarrow> instant \<Rightarrow> bytes \<Rightarrow> connection \<Rightarrow>
    ((usize \<times> send_info) result list \<times> connection) option" where
  "send_calls 0 oc iter now out c = Some ([], c)"
| "send_calls (Suc n) oc iter now out c = do {
     (r, _, c) \<leftarrow> Connection_send_data oc iter now out c;
     (rs, c) \<leftarrow> send_calls n oc iter now out c;
     Some (r # rs, c)
   }"

lemma stopped_step:
  assumes "octets_spec oc" and "snd_inv c" and "rtt c \<noteq> 0" "is_server c" "stop_flag c"
    and "1350 \<le> length out" and "next_pkt_num (snd (pkt_num_spaces c)) + 1 < lim64"
  shows "\<exists>out' c'. Connection_send_data oc iter now out c = Some (Ok (26 + 8 * sent_count c, send_info_of c), out', c') \<and>
     snd_inv c' \<and> rtt c' \<noteq> 0 \<and> is_server c' \<and> is_stopped c' \<and> sent_count c' = 0 \<and> send_info_of c' = send_info_of c \<and>
     next_pkt_num (snd (pkt_num_spaces c')) = next_pkt_num (snd (pkt_num_spaces c)) + 1"
proof -
  have ty: "write_pkt_type c = (Ok ElictAck, c\<lparr>sent_count := 0\<rparr>)"
    using assms(3-5) by (simp add: write_pkt_type_def)
  have out: "90 \<le> length out" "1050 \<le> length out" using assms(6) by simp_all
  let ?c' = "after_elict (c\<lparr>sent_count := 0\<rparr>)"
  from send_data_elict [OF assms(1,2) ty out(1) assms(7), of iter now] obtain out' where
    s: "Connection_send_data oc iter now out c = Some (Ok (26 + 8 * sent_count c, send_info_of c), out', ?c')" by blast
  have "snd_inv ?c'" by (rule send_data_snd_inv [OF assms(1,2) out(2) s])
  with s assms(3-5) show ?thesis
    by (intro exI [of _ out'] exI [of _ ?c']) (simp add: after_elict_def is_stopped_def send_info_of_def)
qed

lemma stopped_calls:
  assumes "octets_spec oc" and "1350 \<le> length out"
    and "snd_inv c" "rtt c \<noteq> 0" "is_server c" "is_stopped c" "sent_count c = 0"
    and "next_pkt_num (snd (pkt_num_spaces c)) + n < lim64"
  shows "\<exists>c'. send_calls n oc iter now out c = Some (replicate n (Ok (26, send_info_of c)), c') \<and> is_stopped c'"
  using assms(3-8)
proof (induction n arbitrary: c)
  case (Suc n)
  have "stop_flag c" using Suc.prems(4) by (simp add: is_stopped_def)
  from stopped_step [OF assms(1) Suc.prems(1-3) this assms(2), of iter now] Suc.prems(5,6)
  obtain out' c' where s: "Connection_send_data oc iter now out c = Some (Ok (26, send_info_of c), out', c')"
    and c': "snd_inv c'" "rtt c' \<noteq> 0" "is_server c'" "is_stopped c'" "sent_count c' = 0" "send_info_of c' = send_info_of c"
      "next_pkt_num (snd (pkt_num_spaces c')) = next_pkt_num (snd (pkt_num_spaces c)) + 1" by auto
  from Suc.IH [OF c'(1-5)] c'(6,7) Suc.prems(6) s show ?case by auto
qed simp

text \<open>
  (C35) Once a round has ended (\<open>stop_flag\<close>), \<open>send_data\<close> of an established server never reports
  \<open>Done\<close>: its next call sends the last \<open>ElictAck\<close>, and every further call, however many are made,
  succeeds again with an empty \<open>ElictAck\<close> of 26 bytes, although \<open>is_stopped\<close> holds.  The test for
  \<open>is_stopped\<close> at the end of \<open>send_data\<close> is not reached, so a loop that sends until \<open>Done\<close> does not end.
\<close>

theorem stopped_sender_never_done:
  assumes "octets_spec oc" and "snd_reachable oc iter c" and "is_server c" and "rtt c \<noteq> 0" and "stop_flag c"
    and "1350 \<le> length out" and "next_pkt_num (snd (pkt_num_spaces c)) + n + 1 < lim64"
  shows "\<exists>c'. send_calls (Suc n) oc iter now out c =
       Some (Ok (26 + 8 * sent_count c, send_info_of c) # replicate n (Ok (26, send_info_of c)), c') \<and> is_stopped c'"
proof -
  have inv: "snd_inv c" using assms(1,2) by (rule snd_reachable_inv)
  have pn: "next_pkt_num (snd (pkt_num_spaces c)) + 1 < lim64" using assms(7) by simp
  obtain out' c1 where s: "Connection_send_data oc iter now out c = Some (Ok (26 + 8 * sent_count c, send_info_of c), out', c1)"
    and c1: "snd_inv c1" "rtt c1 \<noteq> 0" "is_server c1" "is_stopped c1" "sent_count c1 = 0" "send_info_of c1 = send_info_of c"
      "next_pkt_num (snd (pkt_num_spaces c1)) = next_pkt_num (snd (pkt_num_spaces c)) + 1"
    using stopped_step [OF assms(1) inv assms(4,3,5,6) pn, of iter now] by blast
  have "next_pkt_num (snd (pkt_num_spaces c1)) + n < lim64" using c1(7) assms(7) by simp
  from stopped_calls [OF assms(1,6) c1(1-5) this, of iter now] c1(6) s show ?thesis by auto
qed

theorem stopped_sender_never_done_witness:
  "\<exists>c c'. send_calls (Suc 1000) list_octets id 7 (replicate 1350 0) c =
     Some (Ok (34, send_info_of c) # replicate 1000 (Ok (26, send_info_of c)), c')"
proof -
  obtain c where c: "snd_reachable list_octets id c" "stop_flag c" "rtt c = 5" "is_server c"
    "pkt_num_spaces c = (PktNumSpace_new\<lparr>next_pkt_num := 1\<rparr>, PktNumSpace_new)" "sent_count c = 1"
    by (rule demo_sent)
  from stopped_sender_never_done [OF list_oc.octets_spec_axioms c(1,4) _ c(2), of "replicate 1350 0" 1000 7] c(3,5,6)
  obtain c' where "send_calls (Suc 1000) list_octets id 7 (replicate 1350 0) c =
     Some (Ok (34, send_info_of c) # replicate 1000 (Ok (26, send_info_of c)), c')"
    by (auto simp: PktNumSpace_new_def simp del: send_calls.simps replicate.simps)
  then show ?thesis by blast
qed

section \<open>Running out of budget\<close>

text \<open>
  (C36) A chunk whose budget in \<open>sent_dic\<close> has come down to 0 and that is still queued when its turn
  comes (its last \<open>ACK\<close> was lost, so \<open>process_ack\<close> never dropped it) makes \<open>send_data\<close> panic on the
  subtraction, whatever the state of the sender otherwise.
\<close>

theorem exhausted_budget_panics:
  assumes "octets_spec oc" and "snd_inv c" and "write_pkt_type c = (Ok Application, c)"
    and "1350 \<le> length out" and "sb_pos (send_buffer c) < length (sb_data (send_buffer c))"
    and "sb_view (send_buffer c) ! sb_pos (send_buffer c) = (off, chunk)" and "hm_get (sent_dic c) off = Some 0"
  shows "Connection_send_data oc iter now out c = None"
proof -
  have sb: "sb_inv (send_buffer c)" "sb_off (send_buffer c) = written_data c" using assms(2) by (simp_all add: snd_inv_def)
  have out: "1050 \<le> length out" "out \<noteq> []" using assms(4) by auto
  have "send_Application oc out c = None"
  proof (rule ccontr)
    assume "send_Application oc out c \<noteq> None"
    then obtain r out' c' where s: "send_Application oc out c = Some (r, out', c')" by (metis option.exhaust prod_cases3)
    show False
      using assms(1) sb out(1) s
      by (cases rule: send_Application_cases) (use assms(5-7) in \<open>simp_all add: budget_left_def\<close>)
  qed
  then show ?thesis
    using assms(3) out(2) by (simp add: Connection_send_data_def finish_common_def)
qed

theorem exhausted_budget_panics_witness:
  "\<exists>c. snd_inv c \<and> sb_view (send_buffer c) = [(0, [1, 2, 3])] \<and> sent_pkt c = [0, 0, 0, 0] \<and>
     Connection_send_data list_octets id 7 (replicate 1350 0) c = None"
proof -
  obtain c where c: "snd_reachable list_octets id c" "in_round (send_buffer c)"
    "sb_view (send_buffer c) = [(0, [1, 2, 3])]" "sb_pos (send_buffer c) = 0" "rtt c = 5" "sent_count c = 0"
    "sent_dic c = []" "norm2_vec c = [Fin 1]" "stop_flag c = False" "recv_flag c = False" "is_server c"
    "low_split_point c = Fin 0" "high_split_point c = Fin 0"
    by (rule demo_round)
  let ?c = "c\<lparr>sent_dic := [(0, 0)], sent_pkt := [0, 0, 0, 0], ack_point := 4\<rparr>"
  have "budget_inv (prio_of [Fin 1] (Fin 0) (Fin 0)) [0, 0, 0, 0] [(0, 0)]"
    by (auto simp: budget_inv_def prio_of_def Let_def)
  then have inv: "snd_inv ?c"
    using snd_reachable_inv [OF list_oc.octets_spec_axioms c(1)] c by (simp add: snd_inv_def)
  have ty: "write_pkt_type ?c = (Ok Application, ?c)" using c by (simp add: write_pkt_type_def)
  have "Connection_send_data list_octets id 7 (replicate 1350 0) ?c = None"
    by (rule exhausted_budget_panics [OF list_oc.octets_spec_axioms inv ty])
      (use c(2-4) in \<open>simp_all add: in_round_def\<close>)
  with inv c(3) show ?thesis by (intro exI [of _ ?c]) simp
qed

end
