(* ===== verification/Protocol.thy ===== *)
theory Protocol
  imports Sending
begin

text \<open>
  What one call of \<open>send_data\<close> or \<open>recv_slice\<close> does, whatever the packet: which datagram goes out,
  and what of the stored data, the queue, its marks and the retransmission budgets changes.  These
  are the steps of the two endpoints of \<open>Network\<close>.
\<close>

section \<open>What a call of \<open>send_data\<close> does\<close>

context octets_spec
begin

lemma put_all_needs: "put_all oc ws b = (Ok (), b') \<Longrightarrow> 8 * length ws \<le> oct_cap oc b"
proof (induction ws arbitrary: b)
  case (Cons w ws)
  show ?case
  proof (cases "8 \<le> oct_cap oc b")
    case True
    from put_u64_writes [OF this, of w] obtain b1 where b1: "put_u64 oc w b = Some b1"
      and off: "oct_off oc b1 = oct_off oc b + 8" by blast
    have cap: "oct_cap oc b1 = oct_cap oc b - 8" using put_u64_length [OF b1] off by (simp add: cap_eq)
    from Cons b1 have "8 * length ws \<le> oct_cap oc b1" by simp
    with cap True show ?thesis by simp
  next
    case False
    with Cons.prems show ?thesis by (simp add: put_u64_short)
  qed
qed simp

end

text \<open>What no packet changes: the received data, the queue, its marks, and budgets that are used up.\<close>

definition send_effect :: "connection \<Rightarrow> connection \<Rightarrow> bool" where
  "send_effect c c' \<longleftrightarrow> recv_dic c' = recv_dic c \<and> rec_buffer c' = rec_buffer c \<and>
     set (recv_hashmap c') \<subseteq> set (recv_hashmap c) \<and> data_to_send c' = data_to_send c \<and>
     sb_view (send_buffer c') = sb_view (send_buffer c) \<and> sb_off (send_buffer c') = sb_off (send_buffer c) \<and>
     sb_acked (send_buffer c') = sb_acked (send_buffer c) \<and>
     (\<forall>k. hm_get (sent_dic c) k = Some 0 \<longrightarrow> hm_get (sent_dic c') k = Some 0)"

text \<open>What the datagram is, by the type in its header.\<close>

definition datagram_of :: "((nat, nat) hash_map \<Rightarrow> (nat \<times> nat) list) \<Rightarrow> connection \<Rightarrow> bytes \<Rightarrow> bool" where
  "datagram_of iter c p \<longleftrightarrow> 26 \<le> length p \<and>
     (hdr_ty (decode_header p) = ACK \<longrightarrow> (\<exists>h m. p = encode_header h @ to_be_bytes m @ bytes_of (flatten_pairs (iter (recv_hashmap c))))) \<and>
     (hdr_ty (decode_header p) = ElictAck \<longrightarrow> (\<exists>h ws. p = encode_header h @ bytes_of ws)) \<and>
     (hdr_ty (decode_header p) = Application \<longrightarrow> (\<exists>off chunk. (off, chunk) \<in> set (sb_view (send_buffer c)) \<and>
        p = encode_header (app_header c off (length chunk)) @ chunk))"

lemma decode_type: "hdr_ty (decode_header (encode_header h @ rest)) = (if hdr_ty h = StartAck then pkt_type.Fin else hdr_ty h)"
  by (simp add: decode_encode_header)

lemma send_effect_refl [simp]: "send_effect c c"
  by (simp add: send_effect_def)

lemma datagram_handshake:
  assumes "octets_spec oc" and "26 \<le> length out" and "send_handshake oc now out c = Some (r, out', c')"
  shows "r = Ok 0 \<and> datagram_of iter c0 (take 26 out') \<and> send_effect c c'"
proof -
  let ?h = "\<lparr>hdr_ty = Handshake, hdr_pkt_num = 0, hdr_priority = 0, hdr_offset = 0, hdr_pkt_length = 0\<rparr>"
  obtain b where "put_header oc ?h out = (Ok (), b)" "oct_buf oc b = encode_header ?h @ drop 26 out"
    using octets_spec.put_header_only [OF assms(1,2), of ?h] by blast
  with assms(3) have "r = Ok 0" "out' = encode_header ?h @ drop 26 out"
    "c' = (if server c then set_handshake now c else c\<lparr>feed_back := False\<rparr>)"
    by (simp_all add: send_handshake_def)
  then show ?thesis
    using decode_type [of ?h "[]"] by (simp add: datagram_of_def send_effect_def set_handshake_def)
qed

lemma datagram_stop:
  assumes "octets_spec oc" and "26 \<le> length out" and "send_Stop oc out c = Some (r, out', c')"
  shows "r = Ok 0 \<and> datagram_of iter c0 (take 26 out') \<and> c' = c"
proof -
  let ?h = "\<lparr>hdr_ty = Stop, hdr_pkt_num = 0, hdr_priority = 0, hdr_offset = 0, hdr_pkt_length = 0\<rparr>"
  obtain b where "put_header oc ?h out = (Ok (), b)" "oct_buf oc b = encode_header ?h @ drop 26 out"
    using octets_spec.put_header_only [OF assms(1,2), of ?h] by blast
  with assms(3) have "r = Ok 0" "out' = encode_header ?h @ drop 26 out" "c' = c"
    by (simp_all add: send_Stop_def)
  then show ?thesis
    using decode_type [of ?h "[]"] by (simp add: datagram_of_def)
qed

lemma datagram_ACK:
  assumes oc: "octets_spec oc" and out: "26 \<le> length out" and it: "length (iter (recv_hashmap c)) = length (recv_hashmap c)"
    and s: "send_ACK oc iter out c = Some (r, out', c')"
  shows "send_effect c c' \<and> (\<forall>ps. r = Ok ps \<longrightarrow> datagram_of iter c (take (26 + ps) out'))"
proof
  show "send_effect c c'"
    using send_ACK_frame [OF s] by (elim disjE) (simp_all add: send_effect_def)
  show "\<forall>ps. r = Ok ps \<longrightarrow> datagram_of iter c (take (26 + ps) out')"
  proof (intro allI impI)
    fix ps assume r: "r = Ok ps"
    let ?ws = "of_nat (Connection_max_ack c) # flatten_pairs (iter (recv_hashmap c)) :: u64 list"
    have "34 + 16 * length (recv_hashmap c) \<le> length out"
    proof -
      obtain b where b: "put_header oc (ack_header c) out = (Ok (), b)" "oct_buf oc b = encode_header (ack_header c) @ drop 26 out"
        "oct_off oc b = 26"
        using octets_spec.Header_to_bytes_slice [OF oc out, of "ack_header c"] unfolding put_header_def by blast
      have "\<exists>b'. put_all oc ?ws b = (Ok (), b')"
        using s r b(1)
        by (auto simp: send_ACK_def ack_header_def Connection_max_ack_def Let_def split: prod.splits result.splits)
      then have "8 * length ?ws \<le> oct_cap oc b" using octets_spec.put_all_needs [OF oc] by blast
      then show ?thesis
        using b(2,3) out it by (simp add: octets_spec.cap_eq [OF oc])
    qed
    from send_ACK_eq [of oc iter c out, OF oc it this] s r
    have "ps = 16 * length (recv_hashmap c) + 8"
      "out' = encode_header (ack_header c) @ bytes_of ?ws @ drop (34 + 16 * length (recv_hashmap c)) out" by auto
    then have p: "take (26 + ps) out' = encode_header (ack_header c) @ bytes_of ?ws"
      using it by simp
    have "hdr_ty (decode_header (take (26 + ps) out')) = ACK"
      unfolding p decode_type by (simp add: ack_header_def)
    moreover have "\<exists>h m. take (26 + ps) out' = encode_header h @ to_be_bytes m @ bytes_of (flatten_pairs (iter (recv_hashmap c)))"
      unfolding p by auto
    moreover have "26 \<le> length (take (26 + ps) out')" unfolding p by simp
    ultimately show "datagram_of iter c (take (26 + ps) out')" unfolding datagram_of_def by simp
  qed
qed

lemma datagram_elict:
  assumes oc: "octets_spec oc" and inv: "snd_inv c" and out: "1350 \<le> length out"
    and ty: "write_pkt_type c = (Ok ElictAck, c\<lparr>sent_count := 0\<rparr>)"
    and s: "send_ElictAck oc out (c\<lparr>sent_count := 0\<rparr>) = Some (r, out', c')"
  shows "send_effect c c' \<and> (\<forall>ps. r = Ok ps \<longrightarrow> datagram_of iter c (take (26 + ps) out'))"
proof -
  let ?c = "c\<lparr>sent_count := 0\<rparr>"
  have i: "length (sent_pkt c) = ack_point c + sent_count c" "sent_count c \<le> 8" using inv by (simp_all add: snd_inv_def)
  have pn: "next_pkt_num (snd (pkt_num_spaces ?c)) + 1 < lim64"
    using s by (cases "next_pkt_num (snd (pkt_num_spaces c)) + 1 < lim64") (simp_all add: send_ElictAck_def)
  have u: "length (unreported ?c) = sent_count c" using i(1) by (simp add: unreported_def)
  have ps: "(if stop_flag ?c then length (unreported ?c) * 8 else 64) = 8 * sent_count c"
    using write_pkt_type_cases [OF ty] i(2) u by (auto elim!: dvdE simp flip: dvd_eq_mod_eq_0)
  have "send_ElictAck oc out ?c = Some (Ok (8 * sent_count c), encode_header (elict_header ?c (8 * sent_count c)) @
       bytes_of (map of_nat (unreported ?c)) @ drop (26 + 8 * length (unreported ?c)) out, after_elict ?c)"
    using i out pn u by (intro send_ElictAck_eq [OF oc]) (simp_all add: ps [symmetric])
  with s u have "r = Ok (8 * sent_count c)" "c' = after_elict ?c"
    "take (26 + 8 * sent_count c) out' = encode_header (elict_header ?c (8 * sent_count c)) @ bytes_of (map of_nat (unreported ?c))"
    by auto
  moreover have "datagram_of iter c (encode_header (elict_header ?c n) @ bytes_of ws)" for n ws
    unfolding datagram_of_def decode_type by (auto simp: elict_header_def)
  ultimately show ?thesis by (simp add: after_elict_def send_effect_def)
qed

lemma datagram_app:
  assumes oc: "octets_spec oc" and inv: "snd_inv c" and out: "1350 \<le> length out"
    and s: "send_Application oc out c = Some (r, out', c')"
  shows "send_effect c c' \<and> (\<forall>ps. r = Ok ps \<longrightarrow> datagram_of iter c (take (26 + ps) out'))"
proof -
  have sb: "sb_inv (send_buffer c)" "sb_off (send_buffer c) = written_data c" using inv by (simp_all add: snd_inv_def)
  have "1050 \<le> length out" using out by simp
  with oc sb show ?thesis
    using s
  proof (cases rule: send_Application_cases)
    case (idle sb)
    then show ?thesis by (simp add: send_effect_def)
  next
    case (sent sb off chunk stop)
    have "take (26 + length chunk) out' = encode_header (app_header c off (length chunk)) @ chunk"
      using sent(5) by simp
    then have "datagram_of iter c (take (26 + length chunk) out')"
      unfolding datagram_of_def using sent(2) by (auto simp: decode_type app_header_def)
    moreover have "hm_get (counted c off) k = Some 0" if "hm_get (sent_dic c) k = Some 0" for k
      using that sent(6) by (auto simp: counted_def hm_insert_def update_conv' budget_left_def)
    ultimately show ?thesis using sent by (simp add: send_effect_def after_app_def)
  qed
qed

lemma clock_effect: "send_effect c c0 \<Longrightarrow> c' = c0 \<or> c' = c0\<lparr>handshake := now\<rparr> \<Longrightarrow> send_effect c c'"
  by (elim disjE) (simp_all add: send_effect_def)

lemma sent_datagram:
  assumes "\<forall>ps. r0 = Ok ps \<longrightarrow> D (take (26 + ps) out')" and "sent_size r0 r"
  shows "\<forall>n info. r = Ok (n, info) \<longrightarrow> D (take n out')"
  using assms unfolding sent_size_def by blast

lemma send_data_datagram:
  assumes oc: "octets_spec oc" and inv: "snd_inv c" and out: "1350 \<le> length out"
    and it: "\<And>m. length (iter m) = length m"
    and s: "Connection_send_data oc iter now out c = Some (r, out', c')"
  shows "send_effect c c' \<and> (\<forall>n info. r = Ok (n, info) \<longrightarrow> datagram_of iter c (take n out'))"
proof -
  have out_ne: "out \<noteq> []" and out26: "26 \<le> length out" using out by auto
  from s out_ne show ?thesis
  proof (cases rule: send_data_cases)
    case (hs c1 r0 c0)
    have "send_effect c1 c'" using datagram_handshake [OF oc out26 hs(2)] clock_effect [OF _ hs(3)] by blast
    then have "send_effect c c'" using hs(1) by (elim disjE) (simp_all add: send_effect_def)
    moreover have "r0 = Ok 0" "datagram_of iter c (take 26 out')" using datagram_handshake [OF oc out26 hs(2)] by blast+
    ultimately show ?thesis using hs(4) by (auto simp: sent_size_def)
  next
    case (el r0)
    with datagram_elict [OF oc inv out el(1,2)] sent_datagram show ?thesis by blast
  next
    case (ack r0 c0)
    let ?c = "c\<lparr>recv_flag := False\<rparr>"
    have d: "send_effect ?c c0" "\<forall>ps. r0 = Ok ps \<longrightarrow> datagram_of iter ?c (take (26 + ps) out')"
      using datagram_ACK [OF oc out26 it ack(1)] by blast+
    have "send_effect c c'" using clock_effect [OF d(1) ack(2)] by (simp add: send_effect_def)
    moreover have "datagram_of iter ?c p = datagram_of iter c p" for p
      by (simp add: datagram_of_def app_header_def prio_at_def)
    ultimately show ?thesis using sent_datagram [OF d(2) ack(3)] by blast
  next
    case (app r0 c0)
    have d: "send_effect c c0" "\<forall>ps. r0 = Ok ps \<longrightarrow> datagram_of iter c (take (26 + ps) out')"
      using datagram_app [OF oc inv out app(2)] by blast+
    from clock_effect [OF d(1) app(3)] sent_datagram [OF d(2) app(4)] show ?thesis by blast
  next
    case (stop r0)
    from datagram_stop [OF oc out26 stop(1)] stop(2) show ?thesis by (auto simp: sent_size_def)
  qed simp
qed

section \<open>What a received packet does\<close>

lemma process_ack_items_frame:
  "process_ack_items kps (w, c) = Some (w', c') \<Longrightarrow>
   \<exists>h. c' = c\<lparr>send_buffer := fold ack_and_drop (acked_by (sent_dic c) kps) (send_buffer c), high_priority := h\<rparr>"
proof (induction kps arbitrary: w c)
  case Nil
  then have "c' = c\<lparr>send_buffer := fold ack_and_drop (acked_by (sent_dic c) []) (send_buffer c), high_priority := high_priority c\<rparr>"
    by simp
  then show ?case by blast
next
  case (Cons kp kps)
  obtain k p where kp: "kp = (k, p)" by (metis surj_pair)
  obtain w1 c1 where item: "process_ack_item k p (w, c) = Some (w1, c1)"
    and rest: "process_ack_items kps (w1, c1) = Some (w', c')"
    using Cons.prems kp by (cases "process_ack_item k p (w, c)") auto
  let ?h = "if p \<noteq> 0 \<and> prio_at c k = 3 then add64 (high_priority c) 1 else Some (high_priority c)"
  obtain h where h: "?h = Some h"
    using item unfolding process_ack_item_cases by (cases ?h) (simp_all only: bind.simps if_cancel option.distinct)
  have "k div 1024 < length (norm2_vec c)"
    using item unfolding process_ack_item_cases by (simp only: split: if_splits) simp
  with h item have c1: "c1 = c\<lparr>send_buffer := fold ack_and_drop (acked_by (sent_dic c) [(k, p)]) (send_buffer c),
      high_priority := h\<rparr>"
    unfolding process_ack_item_cases by (simp only: if_True bind.simps option.inject prod.inject)
  from Cons.IH [OF rest] obtain h' where
    "c' = c1\<lparr>send_buffer := fold ack_and_drop (acked_by (sent_dic c1) kps) (send_buffer c1), high_priority := h'\<rparr>" by blast
  then have "c' = c\<lparr>send_buffer := fold ack_and_drop (acked_by (sent_dic c) (kp # kps)) (send_buffer c), high_priority := h'\<rparr>"
    using c1 kp by simp
  then show ?case by blast
qed

text \<open>An acknowledgement marks the offsets it reports as received and those without budget, no others.\<close>

lemma process_ack_marks:
  assumes inv: "sb_inv (send_buffer c)" and p: "p = hb @ to_be_bytes m @ bytes_of (flatten_pairs kps)" "length hb = 26"
    and u: "u64_pairs kps" and s: "process_ack p c = Some c'"
  shows "\<exists>h r mo. c' = c\<lparr>send_buffer := fold ack_and_drop (acked_by (sent_dic c) kps) (send_buffer c),
      high_priority := h, recovery_of := r, max_off := mo\<rparr>"
proof -
  let ?xs = "to_be_bytes m @ bytes_of (flatten_pairs kps)"
  have xs: "slice_from p 26 = Some ?xs" "slice_to ?xs 8 = Some (to_be_bytes m)" using p by simp_all
  define mo where "mo = max (unat m) (max_off c)"
  have c0: "(if unat m > max_off c then c\<lparr>max_off := unat m\<rparr> else c) = c\<lparr>max_off := mo\<rparr>"
    by (cases c) (simp add: max_def mo_def)
  note eq = s [unfolded process_ack_def Let_def, simplified xs option.simps Option.bind.simps from_to_be_bytes c0]
  obtain w c1 where l: "process_ack_loop ?xs 8 (Fin 0, c\<lparr>max_off := mo\<rparr>) = Some (w, c1)"
    using eq by (cases "process_ack_loop ?xs 8 (Fin 0, c\<lparr>max_off := mo\<rparr>)") (simp, metis surj_pair)
  have items: "process_ack_items kps (Fin 0, c\<lparr>max_off := mo\<rparr>) = Some (w, c1)"
    using l process_ack_loop_items [of ?xs "to_be_bytes m" kps] u by simp
  obtain h where c1: "c1 = c\<lparr>max_off := mo, send_buffer := fold ack_and_drop (acked_by (sent_dic c) kps) (send_buffer c),
      high_priority := h\<rparr>"
    using process_ack_items_frame [OF items] by (simp, blast)
  obtain r where "c' = c1\<lparr>recovery_of := r\<rparr>"
    using eq l by (cases "update_win w (f64_of_nat (length ?xs div (8 * 2))) (recovery_of c1)") (simp, simp, blast)
  then have "c' = c\<lparr>send_buffer := fold ack_and_drop (acked_by (sent_dic c) kps) (send_buffer c),
      high_priority := h, recovery_of := r, max_off := mo\<rparr>" using c1 by simp
  then show ?thesis by blast
qed

lemma sb_acked_fold:
  "sb_inv s \<Longrightarrow> sb_acked (fold ack_and_drop ks s) = sb_acked s \<union> (set ks \<inter> fst ` set (sb_view s))"
  using sbq.acks_spec [of s ks] by simp

end
