(* ===== verification/Network.thy ===== *)
theory Network
  imports Protocol "HOL-Library.Multiset"
begin

text \<open>
  Two endpoints and the network between them.  The network may lose, duplicate and reorder
  datagrams, but it delivers only what was sent: each direction is the set of the datagrams sent
  so far, and a delivery takes any of them and leaves it there.  One field is not a part of the program:
  \<open>taken\<close> remembers the chunks that reads have removed from the receive buffer.
\<close>

section \<open>The system\<close>

record system =
  snder :: connection
  rcver :: connection
  to_rcver :: "bytes set"
  to_snder :: "bytes set"
  taken :: "(nat \<times> bytes) set"

text \<open>The chunks in a receive buffer, each with its offset.\<close>

definition stored :: "connection \<Rightarrow> (nat \<times> bytes) set" where
  "stored c = (\<lambda>(e, b). (rb_off b, rb_data b)) ` set (rv_data (rec_buffer c))"

text \<open>A datagram is on its way only when \<open>send_data\<close> reported success.\<close>

definition emitted :: "(usize \<times> send_info) result \<Rightarrow> bytes \<Rightarrow> bytes set" where
  "emitted r out = (case r of Ok (n, _) \<Rightarrow> {take n out} | Err _ \<Rightarrow> {})"

inductive sys_step ::
  "'b octets \<Rightarrow> ((nat, nat) hash_map \<Rightarrow> (nat \<times> nat) list) \<Rightarrow> system \<Rightarrow> system \<Rightarrow> bool" for oc iter where
  snd_round: "send_all now (snder s) = Some (r, c') \<Longrightarrow> sys_step oc iter s (s\<lparr>snder := c'\<rparr>)"
| snd_send: "1350 \<le> length out \<Longrightarrow> Connection_send_data oc iter now out (snder s) = Some (r, out', c') \<Longrightarrow>
    sys_step oc iter s (s\<lparr>snder := c', to_rcver := to_rcver s \<union> emitted r out'\<rparr>)"
| snd_recv: "p \<in> to_snder s \<Longrightarrow> recv_slice oc now p (snder s) = Some (r, c') \<Longrightarrow>
    sys_step oc iter s (s\<lparr>snder := c'\<rparr>)"
| snd_rtt: "new_rtt lst (snder s) = Some c' \<Longrightarrow> sys_step oc iter s (s\<lparr>snder := c'\<rparr>)"
| rcv_recv: "p \<in> to_rcver s \<Longrightarrow> recv_slice oc now p (rcver s) = Some (r, c') \<Longrightarrow>
    sys_step oc iter s (s\<lparr>rcver := c'\<rparr>)"
| rcv_send: "1350 \<le> length out \<Longrightarrow> Connection_send_data oc iter now out (rcver s) = Some (r, out', c') \<Longrightarrow>
    sys_step oc iter s (s\<lparr>rcver := c', to_snder := to_snder s \<union> emitted r out'\<rparr>)"
| rcv_read: "Connection_read out (rcver s) = Some (r, out', c') \<Longrightarrow> 
    sys_step oc iter s (s\<lparr>rcver := c', taken := taken s \<union> (stored (rcver s) - stored c')\<rparr>)"

definition sys_init :: "bytes \<Rightarrow> fl list \<Rightarrow> fl \<Rightarrow> fl \<Rightarrow> system" where
  "sys_init d ns lo hi =
     \<lparr>snder = loaded (fresh_connection (SocketAddrV4 0 1) (SocketAddrV4 0 2) True 0) d ns lo hi,
      rcver = fresh_connection (SocketAddrV4 0 2) (SocketAddrV4 0 1) False 0,
      to_rcver = {}, to_snder = {}, taken = {}\<rparr>"

text \<open>
  Rust iterates over every entry of a \<open>HashMap\<close> once, in an order it does not specify.
\<close>

definition iterates :: "((nat, nat) hash_map \<Rightarrow> (nat \<times> nat) list) \<Rightarrow> bool" where
  "iterates iter \<longleftrightarrow> (\<forall>m. mset (iter m) = mset m)"

lemma id_iterates: "iterates id"
  by (simp add: iterates_def)

lemma iterates_facts:
  assumes "iterates iter"
  shows "length (iter m) = length m" "set (iter m) = set m"
  using assms by (metis iterates_def size_mset, metis iterates_def set_mset_mset)

section \<open>The invariant of the system\<close>

text \<open>A chunk with its offset holds the byte number \<open>i\<close>.\<close>

definition holds_byte :: "nat \<Rightarrow> nat \<times> bytes \<Rightarrow> bool" where
  "holds_byte i x \<longleftrightarrow> fst x \<le> i \<and> i < fst x + length (snd x)"

definition rcv_ok :: "bytes \<Rightarrow> bytes set \<Rightarrow> connection \<Rightarrow> bool" where
  "rcv_ok d N c \<longleftrightarrow>
     (\<forall>k \<in> dom (hm_get (recv_dic c)). \<exists>p \<in> N. 26 \<le> length p \<and> ptype p = Application \<and> poff p = k) \<and>
     (\<forall>(k, v) \<in> set (recv_hashmap c). k < lim64 \<and> v < lim64 \<and> (v = 0 \<longrightarrow> k \<in> dom (hm_get (recv_dic c)))) \<and>
     (\<forall>(e, b) \<in> set (rv_data (rec_buffer c)). cut_from d (rb_off b, rb_data b))"

definition app_ok :: "connection \<Rightarrow> bytes \<Rightarrow> bool" where
  "app_ok c p \<longleftrightarrow> poff p < sb_off (send_buffer c) \<and> cut_from (data_to_send c) (poff p, drop 26 p) \<and>
     (\<forall>ch. (poff p, ch) \<in> set (sb_view (send_buffer c)) \<longrightarrow> drop 26 p = ch)"

definition net_ok :: "connection \<Rightarrow> bytes set \<Rightarrow> bool" where
  "net_ok c N \<longleftrightarrow> (\<forall>p \<in> N. ptype p = Application \<longrightarrow> app_ok c p) \<and>
     (\<forall>p \<in> N. \<forall>q \<in> N. ptype p = Application \<and> ptype q = Application \<and> poff p = poff q \<longrightarrow> drop 26 p = drop 26 q)"

definition ack_ok :: "nat set \<Rightarrow> bytes \<Rightarrow> bool" where
  "ack_ok R p \<longleftrightarrow> (\<exists>h m kps. p = encode_header h @ to_be_bytes m @ bytes_of (flatten_pairs kps) \<and> u64_pairs kps \<and>
     (\<forall>(k, v) \<in> set kps. v = 0 \<longrightarrow> k \<in> R))"

definition acks_ok :: "nat set \<Rightarrow> bytes set \<Rightarrow> bool" where
  "acks_ok R A \<longleftrightarrow> (\<forall>p \<in> A. ptype p = ACK \<longrightarrow> ack_ok R p)"

definition marks_ok :: "nat set \<Rightarrow> connection \<Rightarrow> bool" where
  "marks_ok R c \<longleftrightarrow> (\<forall>k \<in> sb_acked (send_buffer c). k \<in> R \<or> hm_get (sent_dic c) k = Some 0)"

definition sys_inv :: "system \<Rightarrow> bool" where
  "sys_inv s \<longleftrightarrow> snd_inv (snder s) \<and> snd_inv (rcver s) \<and>
     rcv_ok (data_to_send (snder s)) (to_rcver s) (rcver s) \<and> net_ok (snder s) (to_rcver s) \<and>
     acks_ok (dom (hm_get (recv_dic (rcver s)))) (to_snder s) \<and>
     marks_ok (dom (hm_get (recv_dic (rcver s)))) (snder s)"

lemma sys_inv_init: "length d < lim64 \<Longrightarrow> sys_inv (sys_init d ns lo hi)"
proof -
  assume d: "length d < lim64"
  have "snd_inv (fresh_connection (SocketAddrV4 0 2) (SocketAddrV4 0 1) False 0)"
    by (simp add: snd_inv_def budget_inv_def fresh_recovery_def)
  then show ?thesis
    using snd_inv_loaded [OF d]
    by (simp add: sys_inv_def sys_init_def rcv_ok_def net_ok_def acks_ok_def marks_ok_def RecvBuf_new_def loaded_def)
qed

subsection \<open>Steps of the sender\<close>

lemma marks_ok_mono: "marks_ok R c \<Longrightarrow> R \<subseteq> R' \<Longrightarrow> marks_ok R' c"
  by (auto simp: marks_ok_def)

lemma at_offsets_ge: "(k, c) \<in> set (at_offsets i cs) \<Longrightarrow> i \<le> k"
  by (induction cs arbitrary: i) force+

lemma at_offsets_cover:
  "k \<le> i \<Longrightarrow> i < k + length (concat cs) \<Longrightarrow> \<exists>x \<in> set (at_offsets k cs). holds_byte i x"
proof (induction cs arbitrary: k)
  case (Cons c cs)
  show ?case
  proof (cases "i < k + length c")
    case True
    with Cons.prems show ?thesis by (simp add: holds_byte_def)
  next
    case False
    with Cons.prems Cons.IH [of "k + length c"] show ?thesis by auto
  qed
qed simp

lemma accepted_le: "accepted dat w s \<le> length dat"
  by (simp add: accepted_def)

text \<open>Starting a round drops marked chunks, clears the marks and adds chunks behind the others.\<close>

lemma send_all_store:
  assumes inv: "snd_inv c" and s: "send_all now c = Some (r, c')"
  shows "recv_dic c' = recv_dic c \<and> sent_dic c' = sent_dic c \<and> data_to_send c' = data_to_send c \<and>
     sb_off (send_buffer c) \<le> sb_off (send_buffer c') \<and>
     sb_acked (send_buffer c') \<subseteq> sb_acked (send_buffer c) \<and>
     (\<exists>cs. concat cs = take (sb_off (send_buffer c') - sb_off (send_buffer c)) (drop (sb_off (send_buffer c)) (data_to_send c)) \<and>
       (\<forall>ch \<in> set cs. ch \<noteq> []) \<and> set (at_offsets (sb_off (send_buffer c)) cs) \<subseteq> set (sb_view (send_buffer c')) \<and>
       set (sb_view (send_buffer c')) \<subseteq> set (sb_view (send_buffer c)) \<union> set (at_offsets (sb_off (send_buffer c)) cs)) \<and>
     (\<forall>k ch. (k, ch) \<in> set (sb_view (send_buffer c')) \<and> k < sb_off (send_buffer c) \<longrightarrow> (k, ch) \<in> set (sb_view (send_buffer c))) \<and>
     (\<forall>k ch. (k, ch) \<in> set (sb_view (send_buffer c)) \<and> k \<notin> sb_acked (send_buffer c) \<longrightarrow> (k, ch) \<in> set (sb_view (send_buffer c')))"
proof -
  let ?c = "set_handshake now (c\<lparr>stop_flag := False, stop_ack := False\<rparr>)"
  have inv': "snd_inv ?c" using inv by (simp add: snd_inv_def set_handshake_def)
  have f: "send_buffer ?c = send_buffer c" "recv_dic ?c = recv_dic c" "sent_dic ?c = sent_dic c"
    "data_to_send ?c = data_to_send c" "written_data ?c = written_data c" by (simp_all add: set_handshake_def)
  consider "send_all_write ?c = Some (r, c')" | "c' = ?c"
    using s by (auto simp: send_all_def Let_def split: if_splits)
  then show ?thesis
  proof cases
    case 1
    then obtain w rc where rw: "round_window ?c = Some (w, rc)"
      using send_all_write_None [of ?c] by (cases "round_window ?c") auto
    define n where "n = accepted (drop (written_data ?c) (data_to_send ?c)) w (send_buffer ?c)"
    obtain sb where e: "send_all_write ?c = Some (Ok True, ?c\<lparr>high_priority := 0, sent_number := 0, recovery_of := rc,
          send_buffer := sb, written_data := written_data ?c + n, total_offset := total_offset ?c + n\<rparr>)"
      and v: "sb_view sb = unacked (send_buffer ?c) @ (if n = 0 then [] else at_offsets (written_data ?c)
          (pieces (block_rest ?c) (take n (drop (written_data ?c) (data_to_send ?c)))))"
      and a: "sb_acked sb = {}"
      and i: "snd_inv (?c\<lparr>high_priority := 0, sent_number := 0, recovery_of := rc,
          send_buffer := sb, written_data := written_data ?c + n, total_offset := total_offset ?c + n\<rparr>)"
      using send_all_write_eq [OF inv' rw] unfolding n_def by blast
    have c': "c' = ?c\<lparr>high_priority := 0, sent_number := 0, recovery_of := rc,
          send_buffer := sb, written_data := written_data ?c + n, total_offset := total_offset ?c + n\<rparr>"
      using e 1 by simp
    have off: "sb_off (send_buffer c) = written_data c" "sb_off sb = written_data c + n"
      using inv i by (simp_all add: snd_inv_def f)
    have "(k, ch) \<in> set (sb_view (send_buffer c))" if "(k, ch) \<in> set (sb_view sb)" "k < written_data c" for k ch
      using that v by (auto simp: f unacked_def split: if_splits dest: at_offsets_ge)
    moreover have "(k, ch) \<in> set (sb_view sb)" if "(k, ch) \<in> set (sb_view (send_buffer c))" "k \<notin> sb_acked (send_buffer c)" for k ch
      using that v by (auto simp: f unacked_def)
    moreover have "\<exists>cs. concat cs = take n (drop (written_data c) (data_to_send c)) \<and> (\<forall>ch \<in> set cs. ch \<noteq> []) \<and>
        set (at_offsets (written_data c) cs) \<subseteq> set (sb_view sb) \<and>
        set (sb_view sb) \<subseteq> set (sb_view (send_buffer c)) \<union> set (at_offsets (written_data c) cs)"
    proof (cases "n = 0")
      case True
      then show ?thesis using v by (intro exI [of _ "[]"]) (auto simp: f unacked_def)
    next
      case False
      have "n \<le> length (drop (written_data ?c) (data_to_send ?c))" unfolding n_def by (rule accepted_le)
      with False have "take n (drop (written_data c) (data_to_send c)) \<noteq> []" by (simp add: f)
      moreover have "block_rest ?c \<le> 1024" by (simp add: block_rest_def)
      ultimately have "\<forall>ch \<in> set (pieces (block_rest ?c) (take n (drop (written_data c) (data_to_send c)))). ch \<noteq> []"
        using pieces_sizes by blast
      with False v show ?thesis
        by (intro exI [of _ "pieces (block_rest ?c) (take n (drop (written_data c) (data_to_send c)))"])
          (auto simp: f unacked_def concat_pieces)
    qed
    ultimately show ?thesis using a off by (simp add: c' f)
  next
    case 2
    then have "send_buffer c' = send_buffer c" by (simp add: f)
    with 2 show ?thesis by (simp add: f) (intro exI [of _ "[]"], simp)
  qed
qed

lemma net_ok_app: "net_ok c N \<Longrightarrow> p \<in> N \<Longrightarrow> ptype p = Application \<Longrightarrow> app_ok c p"
  unfolding net_ok_def by blast

lemma net_ok_shrink:
  assumes "net_ok c N" and "data_to_send c' = data_to_send c" and "sb_off (send_buffer c) \<le> sb_off (send_buffer c')"
    and "\<forall>k ch. (k, ch) \<in> set (sb_view (send_buffer c')) \<and> k < sb_off (send_buffer c) \<longrightarrow> (k, ch) \<in> set (sb_view (send_buffer c))"
  shows "net_ok c' N"
proof -
  have "app_ok c' p" if "p \<in> N" "ptype p = Application" for p
  proof -
    from that assms(1) have p: "app_ok c p" unfolding net_ok_def by blast
    have "poff p < sb_off (send_buffer c')" using p assms(3) unfolding app_ok_def by linarith
    moreover have "drop 26 p = ch" if "(poff p, ch) \<in> set (sb_view (send_buffer c'))" for ch
      using that p assms(4) unfolding app_ok_def by blast
    ultimately show ?thesis using p assms(2) unfolding app_ok_def by simp
  qed
  then show ?thesis using assms(1) unfolding net_ok_def by blast
qed

lemma app_datagram_ok:
  assumes "snd_inv c" and "datagram_of iter c p" and "ptype p = Application"
  shows "app_ok c p \<and> (poff p, drop 26 p) \<in> set (sb_view (send_buffer c))"
proof -
  obtain off ch where m: "(off, ch) \<in> set (sb_view (send_buffer c))"
    and p: "p = encode_header (app_header c off (length ch)) @ ch"
    using assms(2,3) by (auto simp: datagram_of_def)
  have sb: "sb_inv (send_buffer c)" using assms(1) by (simp add: snd_inv_def)
  note e = sb_view_entry [OF sb m]
  have off: "poff p = off"
    unfolding p using e(5) by (simp add: decode_encode_header app_header_def)
  have "distinct (map fst (sb_view (send_buffer c)))"
    using sb_inv_distinct [OF sb] by (simp add: sb_view_def o_def)
  then have "ch' = ch" if "(off, ch') \<in> set (sb_view (send_buffer c))" for ch'
    using that m by (metis eq_key_imp_eq_value)
  moreover have "cut_from (data_to_send c) (off, ch)" using assms(1) m by (auto simp: snd_inv_def)
  moreover have "drop 26 p = ch" by (simp add: p)
  ultimately show ?thesis
    unfolding app_ok_def off using e(4) m by blast
qed

lemma net_ok_grow:
  assumes inv: "snd_inv c" and ok: "net_ok c N" and M: "\<forall>p \<in> M. datagram_of iter c p"
  shows "net_ok c (N \<union> M)"
proof -
  have new: "app_ok c p \<and> (poff p, drop 26 p) \<in> set (sb_view (send_buffer c))" if "p \<in> M" "ptype p = Application" for p
    using app_datagram_ok [OF inv _ that(2)] M that(1) by blast
  have all: "app_ok c p" if "p \<in> N \<union> M" "ptype p = Application" for p
    using that new ok unfolding net_ok_def by blast
  have *: "drop 26 p = drop 26 q" if "p \<in> N \<union> M" "q \<in> M" "ptype p = Application" "ptype q = Application" "poff p = poff q" for p q
    using all [OF that(1,3)] new [OF that(2,4)] that(5) unfolding app_ok_def by simp
  have "drop 26 p = drop 26 q"
    if "p \<in> N \<union> M" "q \<in> N \<union> M" "ptype p = Application" "ptype q = Application" "poff p = poff q" for p q
  proof (cases "p \<in> M \<or> q \<in> M")
    case True
    then show ?thesis using * [of p q] * [of q p] that by metis
  next
    case False
    with that ok show ?thesis unfolding net_ok_def by blast
  qed
  with all show ?thesis unfolding net_ok_def by blast
qed

subsection \<open>Steps of the receiver\<close>

text \<open>Reading moves the read position and drops chunks, but leaves the bytes of the others.\<close>

lemma recv_emit_loop_chunks:
  assumes "recv_emit_loop len cap out s = Some (n, out', s')" and "(e, b') \<in> set (rv_data s')"
  shows "\<exists>b. (e, b) \<in> set (rv_data s) \<and> rb_data b' = rb_data b \<and> rb_off b' = rb_off b"
  using assms
proof (induction "length (rv_data s)" arbitrary: len cap out s)
  case 0
  then show ?case by (subst (asm) recv_emit_loop.simps) (simp add: RecvBuf_ready_def)
next
  case (Suc j)
  then obtain k b rest where d: "rv_data s = (k, b) # rest" by (cases "rv_data s") auto
  have IH: "\<exists>b. (e, b) \<in> set rest \<and> rb_data b' = rb_data b \<and> rb_off b' = rb_off b"
    if "recv_emit_loop len1 cap1 out1 (s\<lparr>last_maxoff := lm, rv_data := rest\<rparr>) = Some (n, out', s')" for len1 cap1 out1 lm
    using Suc.hyps(1) [OF _ that Suc.prems(2)] Suc.hyps(2) d by simp
  have "rv_data s' = rv_data s \<or> (\<exists>q. rv_data s' = (k, b\<lparr>rb_pos := q\<rparr>) # rest) \<or>
      (\<exists>len1 cap1 out1 lm. recv_emit_loop len1 cap1 out1 (s\<lparr>last_maxoff := lm, rv_data := rest\<rparr>) = Some (n, out', s'))"
  proof (cases "cap > 0 \<and> RecvBuf_ready s")
    case True
    with Suc.prems(1) show ?thesis
      by (subst (asm) recv_emit_loop.simps)
        (auto simp: d RangeBuf_consume_def Let_def Option.bind_eq_Some_conv split: if_splits)
  next
    case False
    with Suc.prems(1) show ?thesis by (subst (asm) recv_emit_loop.simps) auto
  qed
  then show ?case
  proof (elim disjE exE)
    fix q assume "rv_data s' = (k, b\<lparr>rb_pos := q\<rparr>) # rest"
    with Suc.prems(2) d show ?thesis by auto
  next
    fix len1 cap1 out1 lm
    assume "recv_emit_loop len1 cap1 out1 (s\<lparr>last_maxoff := lm, rv_data := rest\<rparr>) = Some (n, out', s')"
    from IH [OF this] d show ?thesis by auto
  qed (use Suc.prems(2) in auto)
qed


lemma rcv_ok_mono: "rcv_ok d N c \<Longrightarrow> N \<subseteq> N' \<Longrightarrow> rcv_ok d N' c"
  unfolding rcv_ok_def by blast

lemma ack_ok_mono:
  assumes "ack_ok R p" and "R \<subseteq> R'"
  shows "ack_ok R' p"
proof -
  obtain h m kps where "p = encode_header h @ to_be_bytes m @ bytes_of (flatten_pairs kps)" "u64_pairs kps"
    and "\<forall>(k, v) \<in> set kps. v = 0 \<longrightarrow> k \<in> R" using assms(1) unfolding ack_ok_def by blast
  moreover from this(3) have "\<forall>(k, v) \<in> set kps. v = 0 \<longrightarrow> k \<in> R'" using assms(2) by auto
  ultimately show ?thesis unfolding ack_ok_def by blast
qed

lemma acks_ok_mono: "acks_ok R A \<Longrightarrow> R \<subseteq> R' \<Longrightarrow> acks_ok R' A"
  unfolding acks_ok_def using ack_ok_mono by blast

lemma emitted_eq: "p \<in> emitted r out \<longleftrightarrow> (\<exists>n info. r = Ok (n, info) \<and> p = take n out)"
  by (auto simp: emitted_def split: result.splits)

lemma net_ok_cong:
  assumes "data_to_send c' = data_to_send c" and "sb_view (send_buffer c') = sb_view (send_buffer c)"
    and "sb_off (send_buffer c') = sb_off (send_buffer c)"
  shows "net_ok c' N = net_ok c N"
  unfolding net_ok_def app_ok_def assms ..

lemma net_ok_effect: "send_effect c c' \<Longrightarrow> net_ok c' N = net_ok c N"
  by (rule net_ok_cong) (simp_all add: send_effect_def)

lemma marks_ok_effect: "send_effect c c' \<Longrightarrow> marks_ok R c \<Longrightarrow> marks_ok R c'"
  unfolding marks_ok_def send_effect_def by metis

text \<open>The receiver is only ever handed packets that went through the invariant of the network.\<close>

lemma recv_slice_rcv_ok:
  assumes oc: "octets_spec oc" and ok: "rcv_ok d N c" and p: "p \<in> N" "ptype p = Application \<longrightarrow> cut_from d (poff p, drop 26 p)"
    and s: "recv_slice oc now p c = Some (r, c')"
  shows "rcv_ok d N c' \<and> dom (hm_get (recv_dic c)) \<subseteq> dom (hm_get (recv_dic c'))"
  using oc s
proof (cases rule: recv_slice_cases)
  case (app m n)
  then have e: "rv_data (rec_buffer c') =
      bt_insert (poff p + length (drop 26 p)) (RangeBuf_from (drop 26 p) (poff p)) (rv_data (rec_buffer c))"
    "recv_dic c' = hm_insert (poff p) (hdr_priority (decode_header p)) (recv_dic c)" "recv_hashmap c' = recv_hashmap c"
    by simp_all
  have "cut_from d (rb_off b, rb_data b)" if "(e, b) \<in> set (rv_data (rec_buffer c'))" for e b
    using that ok p(2) app(2) set_bt_insert unfolding e(1) rcv_ok_def by (fastforce simp: RangeBuf_from_def)
  moreover have "\<exists>q \<in> N. 26 \<le> length q \<and> ptype q = Application \<and> poff q = k" if "k \<in> dom (hm_get (recv_dic c'))" for k
    using that ok p(1) app(1,2) unfolding e(2) dom_hm_insert rcv_ok_def by blast
  moreover have "dom (hm_get (recv_dic c)) \<subseteq> dom (hm_get (recv_dic c'))"
    unfolding e(2) dom_hm_insert by blast
  moreover have "k < lim64 \<and> v < lim64 \<and> (v = 0 \<longrightarrow> k \<in> dom (hm_get (recv_dic c')))" if "(k, v) \<in> set (recv_hashmap c')" for k v
    using that ok calculation(3) unfolding e(3) rcv_ok_def by blast
  ultimately show ?thesis unfolding rcv_ok_def by (intro conjI ballI; (simp only: split_paired_all prod.case)?; blast)
next
  case (elict n)
  then have e: "recv_hashmap c' = fold (note_offset (recv_dic c)) (words_of (drop 26 p)) (recv_hashmap c)"
    "recv_dic c' = recv_dic c" "rec_buffer c' = rec_buffer c" by simp_all
  have "k < lim64 \<and> v < lim64 \<and> (v = 0 \<longrightarrow> k \<in> dom (hm_get (recv_dic c)))" if "(k, v) \<in> set (recv_hashmap c')" for k v
    using noted_entries [OF that [unfolded e(1)]] ok unfolding rcv_ok_def by auto
  then show ?thesis using ok e(2,3) unfolding rcv_ok_def by auto
next
  case (ack n)
  obtain m ks h r' where "c' = c\<lparr>recv_count := n, max_off := m, send_buffer := fold ack_and_drop ks (send_buffer c),
       high_priority := h, recovery_of := r'\<rparr>" using process_ack_frame [OF ack(4)] by auto
  with ok show ?thesis by (simp add: rcv_ok_def)
next
  case (handshake n x)
  with ok show ?thesis by (simp add: rcv_ok_def)
next
  case (other n)
  with ok show ?thesis by (elim disjE) (simp_all add: rcv_ok_def)
qed

text \<open>The sender takes a mark from an acknowledgement only for what was received or has no budget left.\<close>

lemma recv_slice_marks:
  assumes oc: "octets_spec oc" and inv: "snd_inv c" and ok: "marks_ok R c" and p: "ptype p = ACK \<longrightarrow> ack_ok R p"
    and s: "recv_slice oc now p c = Some (r, c')"
  shows "marks_ok R c' \<and> data_to_send c' = data_to_send c \<and> sent_dic c' = sent_dic c \<and>
     sb_view (send_buffer c') = sb_view (send_buffer c) \<and> sb_off (send_buffer c') = sb_off (send_buffer c)"
  using oc s
proof (cases rule: recv_slice_cases)
  case (ack n)
  obtain h m kps where q: "p = encode_header h @ to_be_bytes m @ bytes_of (flatten_pairs kps)" "u64_pairs kps"
    and kps: "\<forall>(k, v) \<in> set kps. v = 0 \<longrightarrow> k \<in> R"
    using p ack(2) by (auto simp: ack_ok_def)
  have sb: "sb_inv (send_buffer c)" using inv by (simp add: snd_inv_def)
  obtain h' r' mo where c': "c' = c\<lparr>recv_count := n, send_buffer := fold ack_and_drop (acked_by (sent_dic c) kps) (send_buffer c),
      high_priority := h', recovery_of := r', max_off := mo\<rparr>"
    using process_ack_marks [OF _ q(1) _ q(2) ack(4)] sb by auto
  have "k \<in> R \<or> hm_get (sent_dic c) k = Some 0" if "k \<in> sb_acked (send_buffer c')" for k
    using that ok kps by (auto simp: c' sb_acked_fold [OF sb] acked_by_set marks_ok_def)
  then show ?thesis by (simp add: marks_ok_def c')
next
  case (other n)
  with ok show ?thesis by (elim disjE) (simp_all add: marks_ok_def)
qed (use ok in \<open>simp_all add: marks_ok_def\<close>)

lemma Connection_read_rcv_ok:
  assumes "rcv_ok d N c" and "Connection_read out c = Some (r, out', c')"
  shows "rcv_ok d N c' \<and> recv_dic c' = recv_dic c"
proof -
  obtain rb where e: "RecvBuf_emit out (rec_buffer c) = Some (r, out', rb)" and c': "c' = c\<lparr>rec_buffer := rb\<rparr>"
    using assms(2) by (cases "RecvBuf_emit out (rec_buffer c)") (auto simp: Connection_read_def)
  have "rb = rec_buffer c \<or> (\<exists>n. recv_emit_loop 0 (length out) out (rec_buffer c) = Some (n, out', rb))"
    using e by (auto simp: RecvBuf_emit_def Option.bind_eq_Some_conv split: if_splits)
  then have "\<exists>b. (e, b) \<in> set (rv_data (rec_buffer c)) \<and> rb_data b' = rb_data b \<and> rb_off b' = rb_off b"
    if "(e, b') \<in> set (rv_data rb)" for e b'
    using that recv_emit_loop_chunks by blast
  moreover have "cut_from d (rb_off b, rb_data b)" if "(e, b) \<in> set (rv_data (rec_buffer c))" for e b
    using assms(1) that unfolding rcv_ok_def by blast
  ultimately have "\<forall>(e, b) \<in> set (rv_data rb). cut_from d (rb_off b, rb_data b)"
    by (intro ballI) (simp only: split_paired_all prod.case, metis)
  then show ?thesis using assms(1) unfolding c' rcv_ok_def by simp
qed


text \<open>The acknowledgements the receiver sends say \<open>received\<close> only of offsets it has received.\<close>

lemma ack_datagram_ok:
  assumes "rcv_ok d N c" and "iterates iter" and "datagram_of iter c p" and "ptype p = ACK"
  shows "ack_ok (dom (hm_get (recv_dic c))) p"
proof -
  obtain h m where p: "p = encode_header h @ to_be_bytes m @ bytes_of (flatten_pairs (iter (recv_hashmap c)))"
    using assms(3,4) by (auto simp: datagram_of_def)
  have e: "k < lim64 \<and> v < lim64 \<and> (v = 0 \<longrightarrow> k \<in> dom (hm_get (recv_dic c)))" if "(k, v) \<in> set (iter (recv_hashmap c))" for k v
    using that assms(1) iterates_facts(2) [OF assms(2)] unfolding rcv_ok_def by auto
  then have "u64_pairs (iter (recv_hashmap c))" by (auto simp: u64_pairs_def)
  with p e show ?thesis unfolding ack_ok_def by blast
qed

lemma ballE_subset: "A \<subseteq> B \<Longrightarrow> \<forall>x \<in> B. Q x \<Longrightarrow> \<forall>x \<in> A. Q x"
  by blast

lemma rcv_ok_effect:
  assumes "send_effect c c'" and "rcv_ok d N c"
  shows "rcv_ok d N c'"
proof -
  have e: "recv_dic c' = recv_dic c" "rec_buffer c' = rec_buffer c" "set (recv_hashmap c') \<subseteq> set (recv_hashmap c)"
    using assms(1) by (simp_all add: send_effect_def)
  show ?thesis using assms(2) unfolding rcv_ok_def e(1,2) by (elim conjE, intro conjI) (assumption, erule ballE_subset [OF e(3)], assumption)
qed

subsection \<open>Every step keeps the invariant\<close>

text \<open>What a step keeps, and each step in turn.\<close>

definition step_ok :: "system \<Rightarrow> system \<Rightarrow> bool" where
  "step_ok s s' \<longleftrightarrow> sys_inv s' \<and> data_to_send (snder s') = data_to_send (snder s) \<and>
     dom (hm_get (recv_dic (rcver s))) \<subseteq> dom (hm_get (recv_dic (rcver s')))"

lemma snd_round_ok:
  assumes inv: "sys_inv s"
    and h: "send_all now (snder s) = Some (r, c')"
  shows "step_ok s (s\<lparr>snder := c'\<rparr>)"
proof -
  have i: "snd_inv c'" using inv send_all_snd_inv [OF _ h(1)] by (simp add: sys_inv_def)
  note f = send_all_store [OF _ h(1)]
  have "marks_ok R c'" if "marks_ok R (snder s)" for R
    using that f inv unfolding marks_ok_def sys_inv_def by (metis subsetD)
  moreover have "net_ok c' N" if "net_ok (snder s) N" for N
    using net_ok_shrink [OF that] f inv by (simp add: sys_inv_def)
  ultimately show ?thesis using inv i f by (simp add: step_ok_def sys_inv_def)
qed

lemma snd_send_ok:
  assumes oc: "octets_spec oc" and it: "iterates iter" and inv: "sys_inv s"
    and h: "1350 \<le> length out" "Connection_send_data oc iter now out (snder s) = Some (r, out', c')"
  shows "step_ok s (s\<lparr>snder := c', to_rcver := to_rcver s \<union> emitted r out'\<rparr>)"
proof -
  have inv0: "snd_inv (snder s)" using inv by (simp add: sys_inv_def)
  have i: "snd_inv c'" using send_data_snd_inv [OF oc inv0 _ h(2)] h(1) by simp
  have e: "send_effect (snder s) c'" and d: "p \<in> emitted r out' \<Longrightarrow> datagram_of iter (snder s) p" for p
    using send_data_datagram [OF oc inv0 h(1) _ h(2)] iterates_facts(1) [OF it] by (auto simp: emitted_eq)
  have "net_ok (snder s) (to_rcver s \<union> emitted r out')"
    using net_ok_grow [OF inv0] inv d unfolding sys_inv_def by blast
  moreover have "data_to_send c' = data_to_send (snder s)" using e by (simp add: send_effect_def)
  ultimately show ?thesis
    using inv i marks_ok_effect [OF e] rcv_ok_mono [of _ "to_rcver s" _ "to_rcver s \<union> emitted r out'"]
    by (simp add: step_ok_def sys_inv_def net_ok_effect [OF e])
qed

lemma snd_recv_ok:
  assumes oc: "octets_spec oc" and inv: "sys_inv s"
    and h: "p \<in> to_snder s" "recv_slice oc now p (snder s) = Some (r, c')"
  shows "step_ok s (s\<lparr>snder := c'\<rparr>)"
proof -
  have inv0: "snd_inv (snder s)" using inv by (simp add: sys_inv_def)
  have "ptype p = ACK \<longrightarrow> ack_ok (dom (hm_get (recv_dic (rcver s)))) p" using inv h(1) by (simp add: sys_inv_def acks_ok_def)
  from recv_slice_marks [OF oc inv0 _ this h(2)] inv
  have "marks_ok (dom (hm_get (recv_dic (rcver s)))) c' \<and> data_to_send c' = data_to_send (snder s) \<and>
     sb_view (send_buffer c') = sb_view (send_buffer (snder s)) \<and> sb_off (send_buffer c') = sb_off (send_buffer (snder s))"
    by (simp add: sys_inv_def)
  with inv recv_slice_snd_inv [OF oc inv0 h(2)] net_ok_cong [of c' "snder s"] show ?thesis
    by (simp add: step_ok_def sys_inv_def)
qed

lemma snd_rtt_ok:
  assumes inv: "sys_inv s"
    and h: "new_rtt lst (snder s) = Some c'"
  shows "step_ok s (s\<lparr>snder := c'\<rparr>)"
proof -
  obtain r where "c' = (snder s)\<lparr>rtt := r\<rparr>"
    using h(1) by (auto simp: new_rtt_def Option.bind_eq_Some_conv)
  then have "data_to_send c' = data_to_send (snder s)" "net_ok c' N = net_ok (snder s) N" "marks_ok R c' = marks_ok R (snder s)" for N R
    by (simp_all add: net_ok_cong [of "(snder s)\<lparr>rtt := r\<rparr>" "snder s"] marks_ok_def)
  with inv new_rtt_snd_inv [OF h(1)] show ?thesis
    by (simp add: step_ok_def sys_inv_def)
qed

lemma rcv_recv_ok:
  assumes oc: "octets_spec oc" and inv: "sys_inv s"
    and h: "p \<in> to_rcver s" "recv_slice oc now p (rcver s) = Some (r, c')"
  shows "step_ok s (s\<lparr>rcver := c'\<rparr>)"
proof -
  have inv0: "snd_inv (rcver s)" using inv by (simp add: sys_inv_def)
  have "ptype p = Application \<longrightarrow> cut_from (data_to_send (snder s)) (poff p, drop 26 p)"
    using net_ok_app [OF _ h(1)] inv by (simp add: sys_inv_def app_ok_def)
  from recv_slice_rcv_ok [OF oc _ h(1) this h(2)] inv
  have "rcv_ok (data_to_send (snder s)) (to_rcver s) c'" "dom (hm_get (recv_dic (rcver s))) \<subseteq> dom (hm_get (recv_dic c'))"
    by (simp_all add: sys_inv_def)
  with inv recv_slice_snd_inv [OF oc inv0 h(2)] show ?thesis
    using acks_ok_mono marks_ok_mono by (simp add: step_ok_def sys_inv_def) blast
qed

lemma rcv_send_ok:
  assumes oc: "octets_spec oc" and it: "iterates iter" and inv: "sys_inv s"
    and h: "1350 \<le> length out" "Connection_send_data oc iter now out (rcver s) = Some (r, out', c')"
  shows "step_ok s (s\<lparr>rcver := c', to_snder := to_snder s \<union> emitted r out'\<rparr>)"
proof -
  have inv0: "snd_inv (rcver s)" "rcv_ok (data_to_send (snder s)) (to_rcver s) (rcver s)" using inv by (simp_all add: sys_inv_def)
  have i: "snd_inv c'" using send_data_snd_inv [OF oc inv0(1) _ h(2)] h(1) by simp
  have e: "send_effect (rcver s) c'" and d: "p \<in> emitted r out' \<Longrightarrow> datagram_of iter (rcver s) p" for p
    using send_data_datagram [OF oc inv0(1) h(1) _ h(2)] iterates_facts(1) [OF it] by (auto simp: emitted_eq)
  have "acks_ok (dom (hm_get (recv_dic (rcver s)))) (to_snder s \<union> emitted r out')"
    using inv d ack_datagram_ok [OF inv0(2) it] by (auto simp: sys_inv_def acks_ok_def)
  moreover have "recv_dic c' = recv_dic (rcver s)" using e by (simp add: send_effect_def)
  ultimately show ?thesis
    using inv i rcv_ok_effect [OF e inv0(2)] by (simp add: step_ok_def sys_inv_def)
qed

lemma rcv_read_ok:
  assumes inv: "sys_inv s"
    and h: "Connection_read out (rcver s) = Some (r, out', c')"
  shows "step_ok s (s\<lparr>rcver := c', taken := T\<rparr>)"
proof -
  have "\<exists>rb. c' = (rcver s)\<lparr>rec_buffer := rb\<rparr>"
    using h(1) by (cases "RecvBuf_emit out (rec_buffer (rcver s))") (auto simp: Connection_read_def)
  then have "snd_inv c' = snd_inv (rcver s)" by (auto simp: snd_inv_def)
  moreover have "rcv_ok (data_to_send (snder s)) (to_rcver s) c' \<and> recv_dic c' = recv_dic (rcver s)"
    using Connection_read_rcv_ok [OF _ h(1)] inv unfolding sys_inv_def by blast
  ultimately show ?thesis using inv by (simp add: step_ok_def sys_inv_def)
qed

lemma sys_inv_step:
  assumes oc: "octets_spec oc" and it: "iterates iter" and st: "sys_step oc iter s s'" and inv: "sys_inv s"
  shows "step_ok s s'"
  using st
proof cases
  case (snd_round now r c')
  from snd_round_ok [OF inv snd_round(2)] snd_round(1) show ?thesis by simp
next
  case (snd_send out now r out' c')
  from snd_send_ok [OF oc it inv snd_send(2,3)] snd_send(1) show ?thesis by simp
next
  case (snd_recv p now r c')
  from snd_recv_ok [OF oc inv snd_recv(2,3)] snd_recv(1) show ?thesis by simp
next
  case (snd_rtt lst c')
  from snd_rtt_ok [OF inv snd_rtt(2)] snd_rtt(1) show ?thesis by simp
next
  case (rcv_recv p now r c')
  from rcv_recv_ok [OF oc inv rcv_recv(2,3)] rcv_recv(1) show ?thesis by simp
next
  case (rcv_send out now r out' c')
  from rcv_send_ok [OF oc it inv rcv_send(2,3)] rcv_send(1) show ?thesis by simp
next
  case (rcv_read out r out' c')
  from rcv_read_ok [OF inv rcv_read(2)] rcv_read(1) show ?thesis by simp
qed


lemma sys_inv_reach:
  assumes "octets_spec oc" and "iterates iter" and "length d < lim64" and "(sys_step oc iter)\<^sup>*\<^sup>* (sys_init d ns lo hi) s"
  shows "sys_inv s \<and> data_to_send (snder s) = d"
  using assms(4)
proof (induction rule: rtranclp_induct)
  case base
  then show ?case using sys_inv_init [OF assms(3)] by (simp add: sys_init_def loaded_def)
next
  case (step s s')
  then show ?case using sys_inv_step [OF assms(1,2) step.hyps(2)] by (simp add: step_ok_def)
qed

text \<open>The sender in the system is one of the reachable senders.\<close>

lemma sys_sender_reachable:
  assumes "length d < lim64" and "(sys_step oc iter)\<^sup>*\<^sup>* (sys_init d ns lo hi) s"
  shows "snd_reachable oc iter (snder s)"
  using assms(2)
proof (induction rule: rtranclp_induct)
  case base
  then show ?case using sr_open [OF assms(1)] by (simp add: sys_init_def)
next
  case (step s s')
  from step.hyps(2) step.IH show ?case
    by cases (auto intro: sr_send_all sr_send_data sr_recv sr_rtt)
qed

section \<open>Received data\<close>

text \<open>
  (C2) Whatever the network loses, duplicates or reorders, every chunk in the receiver's buffer is
  exactly the sender's data at the offset it is stored under, and every offset the receiver has noted as
  received is that of an \<open>Application\<close> packet that was sent.
\<close>

theorem received_data_intact:
  assumes "octets_spec oc" and "iterates iter" and "length d < lim64"
    and "(sys_step oc iter)\<^sup>*\<^sup>* (sys_init d ns lo hi) s"
  shows "(\<forall>(e, b) \<in> set (rv_data (rec_buffer (rcver s))). rb_data b = take (length (rb_data b)) (drop (rb_off b) d)) \<and>
     (\<forall>k \<in> dom (hm_get (recv_dic (rcver s))). \<exists>p \<in> to_rcver s. ptype p = Application \<and> poff p = k)"
proof -
  have "rcv_ok d (to_rcver s) (rcver s)" using sys_inv_reach [OF assms] by (auto simp: sys_inv_def)
  then show ?thesis unfolding rcv_ok_def cut_from_def by (simp only: fst_conv snd_conv) blast
qed

section \<open>The fate of every chunk\<close>

subsection \<open>Cutting the data\<close>

lemma at_offsets_append: "at_offsets k (cs @ cs') = at_offsets k cs @ at_offsets (k + length (concat cs)) cs'"
  by (induction cs arbitrary: k) (simp_all add: add.assoc)

lemma at_offsets_nonempty: "\<forall>c \<in> set cs. c \<noteq> [] \<Longrightarrow> z \<in> set (at_offsets i cs) \<Longrightarrow> snd z \<noteq> []"
  by (induction cs arbitrary: i) auto

lemma at_offsets_apart:
  assumes "\<forall>c \<in> set cs. c \<noteq> []" and "x \<in> set (at_offsets i cs)" and "y \<in> set (at_offsets i cs)"
    and "fst x = fst y \<or> fst x + length (snd x) = fst y + length (snd y)"
  shows "x = y"
  using assms
proof (induction cs arbitrary: i)
  case (Cons c cs)
  have ge: "i + length c \<le> fst z" "0 < length (snd z)" if "z \<in> set (at_offsets (i + length c) cs)" for z
    using that at_offsets_ge [of "fst z" "snd z" "i + length c" cs] at_offsets_nonempty [OF _ that] Cons.prems(1) by simp_all
  have c: "0 < length c" using Cons.prems(1) by simp
  let ?t = "set (at_offsets (i + length c) cs)"
  have "x \<in> ?t \<or> x = (i, c)" "y \<in> ?t \<or> y = (i, c)" using Cons.prems(2,3) by auto
  then consider "x \<in> ?t" "y \<in> ?t" | "x = (i, c)" "y = (i, c)" | "x \<in> ?t" "y = (i, c)" | "x = (i, c)" "y \<in> ?t" by blast
  then show ?case
  proof cases
    case 1
    then show ?thesis using Cons.IH [of "i + length c"] Cons.prems(1,4) by simp
  next
    case 3
    with ge [OF 3(1)] c Cons.prems(4) have False unfolding 3(2) fst_conv snd_conv by linarith
    then show ?thesis ..
  next
    case 4
    with ge [OF 4(2)] c Cons.prems(4) have False unfolding 4(1) fst_conv snd_conv by linarith
    then show ?thesis ..
  qed simp
qed simp

text \<open>No two chunks begin or end at the same place.\<close>

definition disjoint_chunks :: "(nat \<times> bytes) set \<Rightarrow> bool" where
  "disjoint_chunks X \<longleftrightarrow> (\<forall>x \<in> X. \<forall>y \<in> X. fst x = fst y \<or> fst x + length (snd x) = fst y + length (snd y) \<longrightarrow> x = y)"

lemma disjoint_chunksD: "disjoint_chunks X \<Longrightarrow> x \<in> X \<Longrightarrow> y \<in> X \<Longrightarrow> fst x = fst y \<or> fst x + length (snd x) = fst y + length (snd y) \<Longrightarrow> x = y"
  unfolding disjoint_chunks_def by blast

text \<open>
  The data taken into the send buffer, cut into chunks: those in the queue and in the application packets are among
  them; so are those in the receive buffer, each under its end; and a chunk whose offset the receiver has
  noted is in its buffer or was taken out by a read.
\<close>

definition sent_of :: "system \<Rightarrow> (nat \<times> bytes) set \<Rightarrow> bool" where
  "sent_of s X \<longleftrightarrow> set (sb_view (send_buffer (snder s))) \<subseteq> X \<and>
     (\<forall>p \<in> to_rcver s. ptype p = Application \<longrightarrow> (poff p, drop 26 p) \<in> X)"

definition kept_of :: "connection \<Rightarrow> (nat \<times> bytes) set \<Rightarrow> (nat \<times> bytes) set \<Rightarrow> bool" where
  "kept_of b T X \<longleftrightarrow>
     (\<forall>(e, rb) \<in> set (rv_data (rec_buffer b)). e = rb_off rb + length (rb_data rb) \<and> (rb_off rb, rb_data rb) \<in> X) \<and>
     (\<forall>x \<in> X. fst x \<in> dom (hm_get (recv_dic b)) \<longrightarrow> x \<in> stored b \<union> T)"

definition fate_of :: "system \<Rightarrow> (nat \<times> bytes) set \<Rightarrow> bool" where
  "fate_of s X \<longleftrightarrow> (\<forall>x \<in> X. x \<in> set (sb_view (send_buffer (snder s))) \<or> fst x \<in> dom (hm_get (recv_dic (rcver s))) \<or>
     hm_get (sent_dic (snder s)) (fst x) = Some 0)"

definition chunked :: "system \<Rightarrow> bytes list \<Rightarrow> bool" where
  "chunked s cs \<longleftrightarrow> concat cs = take (sb_off (send_buffer (snder s))) (data_to_send (snder s)) \<and> (\<forall>c \<in> set cs. c \<noteq> []) \<and>
     sent_of s (set (at_offsets 0 cs)) \<and> kept_of (rcver s) (taken s) (set (at_offsets 0 cs)) \<and> fate_of s (set (at_offsets 0 cs))"

subsection \<open>The receiver\<close>

lemma stored_iff: "x \<in> stored c \<longleftrightarrow> (\<exists>(e, b) \<in> set (rv_data (rec_buffer c)). (rb_off b, rb_data b) = x)"
  by (auto simp: stored_def)

lemma bt_insert_mem: "(k, v) \<in> set (bt_insert k v m)"
  by (induction k v m rule: bt_insert.induct) auto

lemma bt_insert_others: "(e, b) \<in> set m \<Longrightarrow> e \<noteq> k \<Longrightarrow> (e, b) \<in> set (bt_insert k v m)"
  by (induction k v m rule: bt_insert.induct) auto

text \<open>A chunk that arrives replaces at most a copy of itself.\<close>

lemma kept_of_arrival:
  assumes k: "kept_of b T X" and x: "(off, ch) \<in> X"
    and apart: "disjoint_chunks X"
    and e: "rv_data (rec_buffer b') = bt_insert (off + length ch) (RangeBuf_from ch off) (rv_data (rec_buffer b))"
      "recv_dic b' = hm_insert off pr (recv_dic b)"
  shows "kept_of b' T X"
proof -
  let ?old = "set (rv_data (rec_buffer b))" and ?new = "set (rv_data (rec_buffer b'))"
  have old: "e = rb_off rb + length (rb_data rb)" "(rb_off rb, rb_data rb) \<in> X" if "(e, rb) \<in> ?old" for e rb
    using k that unfolding kept_of_def by blast+
  have sub: "?new \<subseteq> insert (off + length ch, RangeBuf_from ch off) ?old" unfolding e(1) by (rule set_bt_insert)
  have here: "(off, ch) \<in> stored b'"
    using bt_insert_mem [of "off + length ch" "RangeBuf_from ch off"] unfolding stored_iff e(1) by (force simp: RangeBuf_from_def)
  have mono: "stored b \<subseteq> stored b'"
  proof
    fix z assume "z \<in> stored b"
    then obtain q rb where q: "(q, rb) \<in> ?old" "z = (rb_off rb, rb_data rb)" unfolding stored_iff by blast
    show "z \<in> stored b'"
    proof (cases "q = off + length ch")
      case True
      then have "z = (off, ch)" using disjoint_chunksD [OF apart old(2) [OF q(1)] x] old(1) [OF q(1)] q(2) by simp
      then show ?thesis using here by simp
    next
      case False
      then have "(q, rb) \<in> ?new" unfolding e(1) by (rule bt_insert_others [OF q(1)])
      then show ?thesis using q(2) unfolding stored_iff by blast
    qed
  qed
  have "e = rb_off rb + length (rb_data rb) \<and> (rb_off rb, rb_data rb) \<in> X" if "(e, rb) \<in> ?new" for e rb
    using that sub old [of e rb] x by (auto simp: RangeBuf_from_def)
  moreover have "y \<in> stored b' \<union> T" if y: "y \<in> X" "fst y \<in> dom (hm_get (recv_dic b'))" for y
  proof (cases "fst y = off")
    case True
    then have "y = (off, ch)" using disjoint_chunksD [OF apart y(1) x] by simp
    then show ?thesis using here by simp
  next
    case False
    then have "fst y \<in> dom (hm_get (recv_dic b))" using y(2) unfolding e(2) dom_hm_insert by simp
    then show ?thesis using k y(1) mono unfolding kept_of_def by blast
  qed
  ultimately show ?thesis unfolding kept_of_def by blast
qed

lemma kept_of_cong:
  "kept_of b T X \<Longrightarrow> rec_buffer b' = rec_buffer b \<Longrightarrow> recv_dic b' = recv_dic b \<Longrightarrow> kept_of b' T X"
  by (simp add: kept_of_def stored_def)

lemma kept_of_recv:
  assumes "octets_spec oc" and k: "kept_of b T X" and s: "recv_slice oc now p b = Some (r, b')"
    and p: "ptype p = Application \<longrightarrow> (poff p, drop 26 p) \<in> X"
    and apart: "disjoint_chunks X"
  shows "kept_of b' T X"
  using assms(1) s
proof (cases rule: recv_slice_cases)
  case (app m n)
  then show ?thesis using p by (intro kept_of_arrival [OF k _ apart, of "poff p" "drop 26 p"]) simp_all
next
  case (ack n)
  obtain m ks h r' where "b' = b\<lparr>recv_count := n, max_off := m, send_buffer := fold ack_and_drop ks (send_buffer b),
       high_priority := h, recovery_of := r'\<rparr>" using process_ack_frame [OF ack(4)] by auto
  then show ?thesis by (intro kept_of_cong [OF k]) simp_all
next
  case (other n)
  then show ?thesis by (elim disjE) (simp_all add: kept_of_cong [OF k])
qed (simp_all add: kept_of_cong [OF k])

text \<open>What a read leaves it leaves as it was; what it removes is remembered.\<close>

lemma Connection_read_chunks:
  assumes "Connection_read out c = Some (r, out', c')" and "(e, b') \<in> set (rv_data (rec_buffer c'))"
  shows "\<exists>b. (e, b) \<in> set (rv_data (rec_buffer c)) \<and> rb_data b' = rb_data b \<and> rb_off b' = rb_off b"
proof -
  obtain rb where e: "RecvBuf_emit out (rec_buffer c) = Some (r, out', rb)" and c': "c' = c\<lparr>rec_buffer := rb\<rparr>"
    using assms(1) by (cases "RecvBuf_emit out (rec_buffer c)") (auto simp: Connection_read_def)
  have "rb = rec_buffer c \<or> (\<exists>n. recv_emit_loop 0 (length out) out (rec_buffer c) = Some (n, out', rb))"
    using e by (auto simp: RecvBuf_emit_def Option.bind_eq_Some_conv split: if_splits)
  then show ?thesis using assms(2) recv_emit_loop_chunks unfolding c' by auto
qed

lemma kept_of_read:
  assumes "kept_of b T X" and r: "Connection_read out b = Some (r, out', b')"
  shows "kept_of b' (T \<union> (stored b - stored b')) X"
proof -
  have "recv_dic b' = recv_dic b" using r by (cases "RecvBuf_emit out (rec_buffer b)") (auto simp: Connection_read_def)
  then show ?thesis using assms(1) Connection_read_chunks [OF r] unfolding kept_of_def by fastforce
qed

subsection \<open>Every step\<close>

text \<open>Starting a round cuts more of the data; what it drops from the queue has arrived, or has no budget.\<close>

lemma chunked_round:
  assumes inv: "sys_inv s" and ch: "chunked s cs" and s: "send_all now (snder s) = Some (r, c')"
  shows "\<exists>cs'. chunked (s\<lparr>snder := c'\<rparr>) cs'"
proof -
  let ?b = "send_buffer (snder s)" and ?b' = "send_buffer c'" and ?R = "dom (hm_get (recv_dic (rcver s)))"
  have i: "snd_inv (snder s)" "snd_inv c'" "marks_ok ?R (snder s)" "rcv_ok (data_to_send (snder s)) (to_rcver s) (rcver s)"
    "net_ok (snder s) (to_rcver s)"
    using inv send_all_snd_inv [OF _ s] by (simp_all add: sys_inv_def)
  note f = send_all_store [OF i(1) s]
  then obtain new where new: "concat new = take (sb_off ?b' - sb_off ?b) (drop (sb_off ?b) (data_to_send (snder s)))" "\<forall>ch \<in> set new. ch \<noteq> []"
    "set (at_offsets (sb_off ?b) new) \<subseteq> set (sb_view ?b')" "set (sb_view ?b') \<subseteq> set (sb_view ?b) \<union> set (at_offsets (sb_off ?b) new)" by blast
  have off: "sb_off ?b \<le> length (data_to_send (snder s))" "sb_off ?b \<le> sb_off ?b'" using i(1) f by (simp_all add: snd_inv_def)
  have cs: "concat cs = take (sb_off ?b) (data_to_send (snder s))" "\<forall>c \<in> set cs. c \<noteq> []"
    and parts: "sent_of s (set (at_offsets 0 cs))" "kept_of (rcver s) (taken s) (set (at_offsets 0 cs))" "fate_of s (set (at_offsets 0 cs))"
    using ch by (simp_all add: chunked_def)
  have X: "set (at_offsets 0 (cs @ new)) = set (at_offsets 0 cs) \<union> set (at_offsets (sb_off ?b) new)"
    using cs(1) off(1) by (simp add: at_offsets_append)
  have cat: "concat (cs @ new) = take (sb_off ?b') (data_to_send c')"
    using f cs(1) new(1) off(2) by (simp flip: take_add)
  have fresh: "fst x \<notin> ?R" if x: "x \<in> set (at_offsets (sb_off ?b) new)" for x
  proof
    assume "fst x \<in> ?R"
    then obtain p where p: "p \<in> to_rcver s" "ptype p = Application" "poff p = fst x" using i(4) unfolding rcv_ok_def by blast
    then have "fst x < sb_off ?b" using net_ok_app [OF i(5) p(1,2)] by (simp add: app_ok_def)
    then show False using at_offsets_ge [of "fst x" "snd x"] x by force
  qed
  have "sent_of (s\<lparr>snder := c'\<rparr>) (set (at_offsets 0 (cs @ new)))"
    using parts(1) new(4) unfolding X sent_of_def by auto
  moreover have "kept_of (rcver s) (taken s) (set (at_offsets 0 (cs @ new)))"
    using parts(2) fresh unfolding X kept_of_def by blast
  moreover have "x \<in> set (sb_view ?b') \<or> fst x \<in> ?R \<or> hm_get (sent_dic c') (fst x) = Some 0" if x: "x \<in> set (at_offsets 0 cs)" for x
  proof (cases "x \<in> set (sb_view ?b) \<and> fst x \<notin> sb_acked ?b")
    case True
    then show ?thesis using f by (cases x) auto
  next
    case False
    then show ?thesis using parts(3) x i(3) f unfolding fate_of_def marks_ok_def by metis
  qed
  then have "fate_of (s\<lparr>snder := c'\<rparr>) (set (at_offsets 0 (cs @ new)))"
    using new(3) unfolding X fate_of_def by auto
  ultimately have "chunked (s\<lparr>snder := c'\<rparr>) (cs @ new)"
    using cat cs(2) new(2) by (auto simp: chunked_def)
  then show ?thesis ..
qed

text \<open>A step of the sender that leaves its queue.\<close>

lemma chunked_sender:
  assumes "chunked s cs" and "sb_view (send_buffer c') = sb_view (send_buffer (snder s))"
    and "sb_off (send_buffer c') = sb_off (send_buffer (snder s))" and "data_to_send c' = data_to_send (snder s)"
    and "\<And>k. hm_get (sent_dic (snder s)) k = Some 0 \<Longrightarrow> hm_get (sent_dic c') k = Some 0"
    and "\<And>p. p \<in> M \<Longrightarrow> ptype p = Application \<Longrightarrow> (poff p, drop 26 p) \<in> set (sb_view (send_buffer (snder s)))"
  shows "chunked (s\<lparr>snder := c', to_rcver := to_rcver s \<union> M\<rparr>) cs"
  using assms(1,5,6) unfolding chunked_def sent_of_def fate_of_def
  by (simp add: assms(2-4)) blast

text \<open>A step of the receiver.\<close>

lemma chunked_receiver:
  assumes "chunked s cs" and "dom (hm_get (recv_dic (rcver s))) \<subseteq> dom (hm_get (recv_dic c'))"
    and "kept_of c' T (set (at_offsets 0 cs))"
  shows "chunked (s\<lparr>rcver := c', to_snder := A, taken := T\<rparr>) cs"
  using assms unfolding chunked_def sent_of_def fate_of_def by simp blast

lemma chunked_step:
  assumes oc: "octets_spec oc" and it: "iterates iter" and st: "sys_step oc iter s s'" and inv: "sys_inv s" and ch: "chunked s cs"
  shows "\<exists>cs'. chunked s' cs'"
proof -
  have R: "dom (hm_get (recv_dic (rcver s))) \<subseteq> dom (hm_get (recv_dic (rcver s')))"
    using sys_inv_step [OF oc it st inv] unfolding step_ok_def by blast
  let ?X = "set (at_offsets 0 cs)"
  have i: "snd_inv (snder s)" "snd_inv (rcver s)" "marks_ok (dom (hm_get (recv_dic (rcver s)))) (snder s)" using inv by (simp_all add: sys_inv_def)
  have k: "kept_of (rcver s) (taken s) ?X" and ne: "\<forall>c \<in> set cs. c \<noteq> []" using ch by (simp_all add: chunked_def)
  have ap: "disjoint_chunks ?X" unfolding disjoint_chunks_def using at_offsets_apart [OF ne] by blast
  show ?thesis
    using st
  proof cases
    case (snd_round now r c')
    then show ?thesis using chunked_round [OF inv ch snd_round(2)] by simp
  next
    case (snd_send out now r out' c')
    have e: "send_effect (snder s) c'" and d: "p \<in> emitted r out' \<Longrightarrow> datagram_of iter (snder s) p" for p
      using send_data_datagram [OF oc i(1) snd_send(2) _ snd_send(3)] iterates_facts(1) [OF it] by (auto simp: emitted_eq)
    have "chunked (s\<lparr>snder := c', to_rcver := to_rcver s \<union> emitted r out'\<rparr>) cs"
      by (rule chunked_sender [OF ch]) (use e d app_datagram_ok [OF i(1)] in \<open>auto simp: send_effect_def\<close>)
    then show ?thesis using snd_send(1) by blast
  next
    case (snd_recv p now r c')
    have "ptype p = ACK \<longrightarrow> ack_ok (dom (hm_get (recv_dic (rcver s)))) p" using inv snd_recv(2) by (simp add: sys_inv_def acks_ok_def)
    from recv_slice_marks [OF oc i(1,3) this snd_recv(3)] chunked_sender [OF ch, of c' "{}"] have "chunked s' cs"
      unfolding snd_recv(1) by simp
    then show ?thesis ..
  next
    case (snd_rtt lst c')
    obtain r where "c' = (snder s)\<lparr>rtt := r\<rparr>"
      using snd_rtt(2) by (auto simp: new_rtt_def Option.bind_eq_Some_conv)
    with chunked_sender [OF ch, of c' "{}"] have "chunked s' cs" unfolding snd_rtt(1) by simp
    then show ?thesis ..
  next
    case (rcv_recv p now r c')
    have "ptype p = Application \<longrightarrow> (poff p, drop 26 p) \<in> ?X" using ch rcv_recv(2) by (simp add: chunked_def sent_of_def)
    note kept = kept_of_recv [OF oc k rcv_recv(3) this ap]
    have "dom (hm_get (recv_dic (rcver s))) \<subseteq> dom (hm_get (recv_dic c'))" using R unfolding rcv_recv(1) by simp
    from chunked_receiver [OF ch this kept, of "to_snder s"] have "chunked s' cs" unfolding rcv_recv(1) by simp
    then show ?thesis ..
  next
    case (rcv_send out now r out' c')
    have "send_effect (rcver s) c'"
      using send_data_datagram [OF oc i(2) rcv_send(2) _ rcv_send(3)] iterates_facts(1) [OF it] by auto
    then have kept: "kept_of c' (taken s) ?X" by (intro kept_of_cong [OF k]) (simp_all add: send_effect_def)
    have "dom (hm_get (recv_dic (rcver s))) \<subseteq> dom (hm_get (recv_dic c'))" using R unfolding rcv_send(1) by simp
    from chunked_receiver [OF ch this kept] have "chunked s' cs" unfolding rcv_send(1) by simp
    then show ?thesis ..
  next
    case (rcv_read out r out' c')
    have "dom (hm_get (recv_dic (rcver s))) \<subseteq> dom (hm_get (recv_dic c'))" using R unfolding rcv_read(1) by simp
    from chunked_receiver [OF ch this kept_of_read [OF k rcv_read(2)], of "to_snder s"] have "chunked s' cs" unfolding rcv_read(1) by simp
    then show ?thesis ..
  qed
qed

lemma chunked_reach:
  assumes "octets_spec oc" and "iterates iter" and "length d < lim64" and "(sys_step oc iter)\<^sup>*\<^sup>* (sys_init d ns lo hi) s"
  shows "\<exists>cs. chunked s cs"
  using assms(4)
proof (induction rule: rtranclp_induct)
  case base
  have "chunked (sys_init d ns lo hi) []"
    by (simp add: chunked_def sent_of_def kept_of_def fate_of_def sys_init_def loaded_def SendBuf_new_def RecvBuf_new_def sb_view_def)
  then show ?case ..
next
  case (step s s')
  then show ?case using sys_inv_reach [OF assms(1-3) step.hyps(1)] chunked_step [OF assms(1,2) step.hyps(2)] by blast
qed

text \<open>A budget that is used up: how often the chunk was sent.\<close>

lemma used_up:
  assumes "snd_inv a" and "hm_get (sent_dic a) k = Some 0"
  shows "count_list (sent_pkt a) k = prio_at a k + 1"
proof -
  have "budget_inv (prio_at a) (sent_pkt a) (sent_dic a)" using assms(1) by (simp add: snd_inv_def prio_at_def)
  then have "case hm_get (sent_dic a) k of None \<Rightarrow> k \<notin> set (sent_pkt a) | Some n \<Rightarrow> count_list (sent_pkt a) k + n = prio_at a k + 1"
    unfolding budget_inv_def by blast
  then show ?thesis using assms(2) by simp
qed

text \<open>
  (C1) No byte is lost in silence.  Whatever the network loses, duplicates or reorders, and whenever the receiver reads, the
  data the sender has taken into its buffer is cut into consecutive chunks, and every one of them is in the sender's queue,
  to be sent again; or it is in the receive buffer, at its offset, under its end and with all of its bytes; or a read has taken
  it out of there; or its own retransmission budget is used up, so that it was sent once more than its
  priority says.  A chunk whose offset the receiver has noted, so that it acknowledges it, is in the receive buffer or was read.
\<close>

theorem every_byte_accounted:
  assumes "octets_spec oc" and "iterates iter" and "length d < lim64"
    and "(sys_step oc iter)\<^sup>*\<^sup>* (sys_init d ns lo hi) s"
  shows "\<exists>cs. concat cs = take (written_data (snder s)) d \<and> (\<forall>ch \<in> set cs. ch \<noteq> []) \<and>
     (\<forall>(k, ch) \<in> set (at_offsets 0 cs).
        ((k, ch) \<in> set (sb_view (send_buffer (snder s))) \<or>
         (\<exists>b. (k + length ch, b) \<in> set (rv_data (rec_buffer (rcver s))) \<and> rb_off b = k \<and> rb_data b = ch) \<or>
         (k, ch) \<in> taken s \<or>
         hm_get (sent_dic (snder s)) k = Some 0 \<and> count_list (sent_pkt (snder s)) k = prio_at (snder s) k + 1) \<and>
        (k \<in> dom (hm_get (recv_dic (rcver s))) \<longrightarrow>
         (\<exists>b. (k + length ch, b) \<in> set (rv_data (rec_buffer (rcver s))) \<and> rb_off b = k \<and> rb_data b = ch) \<or> (k, ch) \<in> taken s))"
proof -
  have inv: "sys_inv s" "data_to_send (snder s) = d" using sys_inv_reach [OF assms] by simp_all
  then have a: "snd_inv (snder s)" "sb_off (send_buffer (snder s)) = written_data (snder s)" by (simp_all add: sys_inv_def snd_inv_def)
  obtain cs where cs: "chunked s cs" using chunked_reach [OF assms] by blast
  then have cat: "concat cs = take (written_data (snder s)) d" "\<forall>ch \<in> set cs. ch \<noteq> []"
    and k: "kept_of (rcver s) (taken s) (set (at_offsets 0 cs))" and f: "fate_of s (set (at_offsets 0 cs))"
    unfolding chunked_def a(2) inv(2) by simp_all
  have st: "\<exists>b. (fst x + length (snd x), b) \<in> set (rv_data (rec_buffer (rcver s))) \<and> rb_off b = fst x \<and> rb_data b = snd x"
    if "x \<in> stored (rcver s)" for x
  proof -
    obtain e b where "(e, b) \<in> set (rv_data (rec_buffer (rcver s)))" "(rb_off b, rb_data b) = x" using \<open>x \<in> stored (rcver s)\<close> unfolding stored_iff by blast
    then show ?thesis using k unfolding kept_of_def by force
  qed
  have "x \<in> stored (rcver s) \<union> taken s" if "x \<in> set (at_offsets 0 cs)" "fst x \<in> dom (hm_get (recv_dic (rcver s)))" for x
    using that k unfolding kept_of_def by blast
  then have "(x \<in> set (sb_view (send_buffer (snder s))) \<or>
      (\<exists>b. (fst x + length (snd x), b) \<in> set (rv_data (rec_buffer (rcver s))) \<and> rb_off b = fst x \<and> rb_data b = snd x) \<or> x \<in> taken s \<or>
      hm_get (sent_dic (snder s)) (fst x) = Some 0 \<and> count_list (sent_pkt (snder s)) (fst x) = prio_at (snder s) (fst x) + 1) \<and>
      (fst x \<in> dom (hm_get (recv_dic (rcver s))) \<longrightarrow>
      (\<exists>b. (fst x + length (snd x), b) \<in> set (rv_data (rec_buffer (rcver s))) \<and> rb_off b = fst x \<and> rb_data b = snd x) \<or> x \<in> taken s)"
    if "x \<in> set (at_offsets 0 cs)" for x
    using that f st [of x] used_up [OF a(1), of "fst x"] unfolding fate_of_def by blast
  then have "\<forall>(k, ch) \<in> set (at_offsets 0 cs).
        ((k, ch) \<in> set (sb_view (send_buffer (snder s))) \<or>
         (\<exists>b. (k + length ch, b) \<in> set (rv_data (rec_buffer (rcver s))) \<and> rb_off b = k \<and> rb_data b = ch) \<or>
         (k, ch) \<in> taken s \<or>
         hm_get (sent_dic (snder s)) k = Some 0 \<and> count_list (sent_pkt (snder s)) k = prio_at (snder s) k + 1) \<and>
        (k \<in> dom (hm_get (recv_dic (rcver s))) \<longrightarrow>
         (\<exists>b. (k + length ch, b) \<in> set (rv_data (rec_buffer (rcver s))) \<and> rb_off b = k \<and> rb_data b = ch) \<or> (k, ch) \<in> taken s)"
    by (intro ballI) (simp only: split_paired_all prod.case, metis (no_types, lifting) fst_conv snd_conv)
  with cat show ?thesis by blast
qed

section \<open>The handshake\<close>

lemma handshake_sent:
  assumes "octets_spec oc" and "26 \<le> length out"
  shows "send_handshake oc now out c = Some (Ok 0, demo_handshake @ drop 26 out,
     if server c then set_handshake now c else c\<lparr>feed_back := False\<rparr>)"
proof -
  let ?h = "\<lparr>hdr_ty = Handshake, hdr_pkt_num = 0, hdr_priority = 0, hdr_offset = 0, hdr_pkt_length = 0\<rparr>"
  obtain b where "put_header oc ?h out = (Ok (), b)" "oct_buf oc b = encode_header ?h @ drop 26 out"
    using octets_spec.put_header_only [OF assms, of ?h] by blast
  then show ?thesis by (simp add: send_handshake_def demo_handshake_def)
qed

lemma handshake_packet: "length demo_handshake = 26" "ptype demo_handshake = Handshake"
  using decode_encode_header [where rest = "[]"] by (simp_all add: demo_handshake_def)

text \<open>The two endpoints after the handshake.\<close>

definition opened_sender :: "instant \<Rightarrow> instant \<Rightarrow> connection \<Rightarrow> connection" where
  "opened_sender t1 t4 a = a\<lparr>handshake_completed := True, handshake := t1, recv_count := recv_count a + 1, rtt := t4 - t1\<rparr>"

definition opened_receiver :: "instant \<Rightarrow> connection \<Rightarrow> connection" where
  "opened_receiver t3 b = b\<lparr>recv_count := recv_count b + 1, handshake_confirmed := True, feed_back := False, handshake := t3\<rparr>"

lemma handshake_run:
  assumes "octets_spec oc" and "is_server a" and "server a" and "rtt a = 0" and "\<not> is_stopped a" and "recv_count a + 1 < lim64"
    and "\<not> is_server b" and "\<not> server b" and "\<not> is_stopped b" and "recv_count b + 1 < lim64"
    and "26 \<le> length outa" and "26 \<le> length outb"
  shows "\<exists>p q a1 b1.
     Connection_send_data oc iter t1 outa a = Some (Ok (26, send_info_of a), p @ drop 26 outa, a1) \<and> length p = 26 \<and>
     recv_slice oc t2 p b = Some (Ok 0, b1) \<and> send_ack b1 \<and>
     Connection_send_data oc iter t3 outb b1 = Some (Ok (26, send_info_of b), q @ drop 26 outb, opened_receiver t3 b) \<and> length q = 26 \<and>
     recv_slice oc t4 q a1 = Some (Ok 0, opened_sender t1 t4 a)"
proof -
  let ?a1 = "a\<lparr>handshake_completed := True, handshake := t1\<rparr>"
  let ?b1 = "b\<lparr>recv_count := recv_count b + 1, handshake_confirmed := False, feed_back := True\<rparr>"
  let ?b2 = "opened_receiver t3 b" and ?a2 = "opened_sender t1 t4 a"
  have ne: "outa \<noteq> []" "outb \<noteq> []" using assms(11,12) by auto
  have "write_pkt_type a = (Ok Handshake, a\<lparr>handshake_completed := True\<rparr>)" using assms(2,4) by (simp add: write_pkt_type_def)
  then have 1: "Connection_send_data oc iter t1 outa a = Some (Ok (26, send_info_of a), demo_handshake @ drop 26 outa, ?a1)"
    using handshake_sent [OF assms(1,11)] ne assms(3,5)
    by (simp add: Connection_send_data_def finish_common_def set_handshake_def is_stopped_def send_info_of_def HEADER_LENGTH_def)
  have 2: "recv_slice oc t2 demo_handshake b = Some (Ok 0, ?b1)"
    using octets_spec.recv_slice_eq [OF assms(1) _ assms(10)] assms(7) handshake_packet
    by (simp add: dispatch_Handshake)
  have "write_pkt_type ?b1 = (Ok Handshake, ?b1\<lparr>handshake_confirmed := True\<rparr>)" using assms(7) by (simp add: write_pkt_type_def)
  then have 3: "Connection_send_data oc iter t3 outb ?b1 = Some (Ok (26, send_info_of b), demo_handshake @ drop 26 outb, ?b2)"
    using handshake_sent [OF assms(1,12)] ne assms(8,9)
    by (simp add: Connection_send_data_def finish_common_def is_stopped_def send_info_of_def HEADER_LENGTH_def opened_receiver_def)
  have 4: "recv_slice oc t4 demo_handshake ?a1 = Some (Ok 0, ?a2)"
  proof -
    let ?a = "a\<lparr>handshake_completed := True, handshake := t1, recv_count := recv_count a + 1\<rparr>"
    have "update_rtt t4 ?a = Some (?a\<lparr>rtt := t4 - t1\<rparr>)" using assms(4) by (simp add: update_rtt_def duration_since_def)
    then have "recv_dispatch oc t4 (decode_header demo_handshake) demo_handshake ?a = Some (Ok 0, ?a\<lparr>rtt := t4 - t1\<rparr>)"
      using assms(2) by (simp add: dispatch_Handshake [OF handshake_packet(2)])
    then show ?thesis
      using octets_spec.recv_slice_eq [OF assms(1), of demo_handshake ?a1 t4] assms(6) handshake_packet(1)
      by (simp add: opened_sender_def)
  qed
  have "send_ack ?b1" by (simp add: send_ack_def)
  with 1 2 3 4 handshake_packet(1) show ?thesis by blast
qed

text \<open>
  (C5) The handshake between any two endpoints works: a server that does not know its round-trip time
  sends a \<open>Handshake\<close> of 26 bytes; the client that receives it asks to send, answers with a \<open>Handshake\<close> of
  its own and then does not ask any more; and the server that receives the answer is established and
  knows as round-trip time the time since it sent.  When the clock has not advanced in between it still
  does not know it, and will send another \<open>Handshake\<close>.
\<close>

theorem handshake_exchange:
  assumes "octets_spec oc" and "is_server a" and "server a" and "rtt a = 0" and "\<not> is_stopped a" and "recv_count a + 1 < lim64"
    and "\<not> is_server b" and "\<not> server b" and "\<not> is_stopped b" and "recv_count b + 1 < lim64"
    and "26 \<le> length outa" and "26 \<le> length outb"
  shows "\<exists>p q a1 b1 b2 a2.
     Connection_send_data oc iter t1 outa a = Some (Ok (26, send_info_of a), p @ drop 26 outa, a1) \<and> length p = 26 \<and>
     recv_slice oc t2 p b = Some (Ok 0, b1) \<and> send_ack b1 \<and>
     Connection_send_data oc iter t3 outb b1 = Some (Ok (26, send_info_of b), q @ drop 26 outb, b2) \<and> length q = 26 \<and>
     \<not> send_ack b2 \<and> recv_slice oc t4 q a1 = Some (Ok 0, a2) \<and> is_established a2 \<and>
     rtt a2 = t4 - t1 \<and> (fst (write_pkt_type a2) = Ok Handshake \<longleftrightarrow> t4 \<le> t1)"
proof -
  obtain p q a1 b1 where h: "Connection_send_data oc iter t1 outa a = Some (Ok (26, send_info_of a), p @ drop 26 outa, a1)" "length p = 26"
    "recv_slice oc t2 p b = Some (Ok 0, b1)" "send_ack b1"
    "Connection_send_data oc iter t3 outb b1 = Some (Ok (26, send_info_of b), q @ drop 26 outb, opened_receiver t3 b)" "length q = 26"
    "recv_slice oc t4 q a1 = Some (Ok 0, opened_sender t1 t4 a)"
    using handshake_run [OF assms, of iter t1 t2 t3 t4] by blast
  have "\<not> send_ack (opened_receiver t3 b)" "is_established (opened_sender t1 t4 a)" "rtt (opened_sender t1 t4 a) = t4 - t1"
    "fst (write_pkt_type (opened_sender t1 t4 a)) = Ok Handshake \<longleftrightarrow> t4 \<le> t1"
    using assms(2) by (simp_all add: opened_receiver_def opened_sender_def send_ack_def is_established_def write_pkt_type_def)
  with h show ?thesis by blast
qed

theorem handshake_exchange_witness:
  "\<exists>p q a1 b1 b2 a2.
     Connection_send_data list_octets id 3 (replicate 1350 0) (fresh_connection (SocketAddrV4 0 1) (SocketAddrV4 0 2) True 0) =
       Some (Ok (26, send_info_of (fresh_connection (SocketAddrV4 0 1) (SocketAddrV4 0 2) True 0)), p @ drop 26 (replicate 1350 0), a1) \<and>
     length p = 26 \<and>
     recv_slice list_octets 5 p (fresh_connection (SocketAddrV4 0 2) (SocketAddrV4 0 1) False 0) = Some (Ok 0, b1) \<and> send_ack b1 \<and>
     Connection_send_data list_octets id 6 (replicate 1350 0) b1 =
       Some (Ok (26, send_info_of (fresh_connection (SocketAddrV4 0 2) (SocketAddrV4 0 1) False 0)), q @ drop 26 (replicate 1350 0), b2) \<and>
     length q = 26 \<and> \<not> send_ack b2 \<and> recv_slice list_octets 8 q a1 = Some (Ok 0, a2) \<and> is_established a2 \<and>
     rtt a2 = 8 - 3 \<and> (fst (write_pkt_type a2) = Ok Handshake \<longleftrightarrow> (8::nat) \<le> 3)"
  by (rule handshake_exchange [OF list_oc.octets_spec_axioms]) (simp_all add: is_stopped_def)

end
