(* ===== verification/Round.thy ===== *)
theory Round
  imports Sending
begin

text \<open>
  A whole sending round of one endpoint: from the state in which \<open>send_all\<close> leaves the sender to the last
  \<open>ElictAck\<close>.
\<close>

section \<open>The steps of a round\<close>

text \<open>The chunks still to send, and what the counters and tables must leave room for.\<close>

abbreviation rest_of :: "connection \<Rightarrow> (nat \<times> bytes) list" where
  "rest_of c \<equiv> drop (sb_pos (send_buffer c)) (sb_view (send_buffer c))"

definition elicts :: "connection \<Rightarrow> nat" where
  "elicts c = (sent_count c + length (rest_of c)) div 8 + 1"

definition round_ready :: "connection \<Rightarrow> bool" where
  "round_ready c \<longleftrightarrow> snd_inv c \<and> in_round (send_buffer c) \<and> rtt c \<noteq> 0 \<and> is_server c \<and>
     \<not> recv_flag c \<and> \<not> stop_flag c \<and> \<not> stop_ack c \<and>
     (\<forall>(off, ch) \<in> set (rest_of c). budget_left c off \<and> off div 1024 < length (norm2_vec c)) \<and>
     sent_number c + length (rest_of c) < lim64 \<and>
     next_pkt_num (fst (pkt_num_spaces c)) + length (rest_of c) < lim64 \<and>
     next_pkt_num (snd (pkt_num_spaces c)) + elicts c < lim64"

text \<open>The offsets the round will send.\<close>

definition round_offsets :: "connection \<Rightarrow> nat list" where
  "round_offsets c = map fst (window_prefix (max_data (send_buffer c))
     (queued (take (sb_pos (send_buffer c)) (sb_view (send_buffer c)))) (rest_of c))"

lemma round_elict:
  assumes oc: "octets_spec oc" and r: "round_ready c" and sc: "sent_count c = 8" and out: "1350 \<le> length out"
  shows "\<exists>out' c'. Connection_send_data oc iter now out c = Some (Ok (90, send_info_of c), out', c') \<and>
     round_ready c' \<and> sent_count c' = 0 \<and> rest_of c' = rest_of c \<and> round_offsets c' = round_offsets c \<and>
     sent_pkt c' = sent_pkt c"
proof -
  let ?c' = "after_elict (c\<lparr>sent_count := 0\<rparr>)"
  have inv: "snd_inv c" using r by (simp add: round_ready_def)
  have ty: "write_pkt_type c = (Ok ElictAck, c\<lparr>sent_count := 0\<rparr>)"
    using r sc by (simp add: round_ready_def write_pkt_type_def ELICT_FLAG_def)
  have pn: "next_pkt_num (snd (pkt_num_spaces c)) + 1 < lim64"
    using r sc by (simp add: round_ready_def elicts_def)
  obtain out' where s: "Connection_send_data oc iter now out c = Some (Ok (90, send_info_of c), out', ?c')"
    using send_data_elict [OF oc inv ty _ pn, of out iter now] out sc by auto
  have "snd_inv ?c'" using send_data_snd_inv [OF oc inv _ s] out by simp
  moreover have "elicts ?c' + 1 = elicts c" using sc by (simp add: elicts_def after_elict_def)
  ultimately have "round_ready ?c'"
    using r by (simp add: round_ready_def after_elict_def budget_left_def)
  moreover have "sent_count ?c' = 0" "rest_of ?c' = rest_of c" "round_offsets ?c' = round_offsets c" "sent_pkt ?c' = sent_pkt c"
    by (simp_all add: after_elict_def round_offsets_def)
  ultimately show ?thesis using s by blast
qed


text \<open>One \<open>Application\<close> packet of a round, and what is left of the round after it.\<close>

lemma round_packet:
  assumes oc: "octets_spec oc" and r: "round_ready c" and sc: "sent_count c \<noteq> 8" and out: "1350 \<le> length out"
    and rest: "rest_of c = (off, ch) # xs"
  shows "\<exists>sb stop. Connection_send_data oc iter now out c = Some (Ok (26 + length ch, send_info_of c),
        encode_header (app_header c off (length ch)) @ ch @ drop (26 + length ch) out,
        (after_app c off sb stop)\<lparr>handshake := now\<rparr>) \<and> (stop \<longleftrightarrow> ends_round (send_buffer c)) \<and>
     sb_view sb = sb_view (send_buffer c) \<and> max_data sb = max_data (send_buffer c) \<and>
     (if stop then sb_pos sb = 0 else in_round sb \<and> sb_pos sb = Suc (sb_pos (send_buffer c)))"
proof -
  have inv: "snd_inv c" and rd: "in_round (send_buffer c)" using r by (simp_all add: round_ready_def)
  have v: "sb_view (send_buffer c) ! sb_pos (send_buffer c) = (off, ch)"
    using rest by (metis drop_eq_Nil2 hd_drop_conv_nth list.sel(1) list.distinct(1) not_le)
  have here: "budget_left c off" "off div 1024 < length (norm2_vec c)" using r rest by (auto simp: round_ready_def)
  have cnt: "sent_count c + 1 < lim64" "sent_number c + 1 < lim64" "next_pkt_num (fst (pkt_num_spaces c)) + 1 < lim64"
    using r rest inv by (simp_all add: round_ready_def snd_inv_def)
  have w: "sb_off (send_buffer c) \<le> written_data c" using inv by (simp add: snd_inv_def)
  have out': "1050 \<le> length out" "out \<noteq> []" using out by auto
  obtain sb stop where a: "send_Application oc out c =
      Some (Ok (length ch), encode_header (app_header c off (length ch)) @ ch @ drop (26 + length ch) out, after_app c off sb stop)"
    and stop: "stop \<longleftrightarrow> ends_round (send_buffer c)" and sb: "sb_view sb = sb_view (send_buffer c)"
      "max_data sb = max_data (send_buffer c)"
      "if stop then sb_pos sb = 0 else in_round sb \<and> sb_pos sb = Suc (sb_pos (send_buffer c))"
    using send_Application_eq [OF oc rd out'(1) v w here(2) cnt] here(1) by auto
  have "sent_count c < 8" using inv sc by (simp add: snd_inv_def)
  then have ty: "write_pkt_type c = (Ok Application, c)"
    using r by (auto simp: round_ready_def write_pkt_type_def ELICT_FLAG_def)
  have "\<not> is_stopped (after_app c off sb stop)" using r by (simp add: is_stopped_def after_app_def round_ready_def)
  then have "Connection_send_data oc iter now out c = Some (Ok (26 + length ch, send_info_of c),
      encode_header (app_header c off (length ch)) @ ch @ drop (26 + length ch) out, (after_app c off sb stop)\<lparr>handshake := now\<rparr>)"
    using a ty out'(2)
    by (simp add: Connection_send_data_def finish_common_def HEADER_LENGTH_def send_info_of_def after_app_def)
  with stop sb show ?thesis by blast
qed

lemma round_continues:
  assumes r: "round_ready c" and rest: "rest_of c = (off, ch) # xs" and inv': "snd_inv c'"
    and c': "c' = (after_app c off sb False)\<lparr>handshake := now\<rparr>" and go: "\<not> ends_round (send_buffer c)"
    and sb: "sb_view sb = sb_view (send_buffer c)" "max_data sb = max_data (send_buffer c)" "in_round sb"
      "sb_pos sb = Suc (sb_pos (send_buffer c))"
  shows "round_ready c' \<and> rest_of c' = xs \<and> round_offsets c = off # round_offsets c'"
proof -
  let ?p = "sb_pos (send_buffer c)" and ?v = "sb_view (send_buffer c)"
  have p: "?p < length ?v" using r by (simp add: round_ready_def in_round_def)
  have v: "?v ! ?p = (off, ch)" and xs: "xs = drop (Suc ?p) ?v"
    using Cons_nth_drop_Suc [OF p] rest by simp_all
  have f: "send_buffer c' = sb" "rtt c' = rtt c" "is_server c' = is_server c" "recv_flag c' = recv_flag c"
    "stop_flag c' = stop_flag c" "stop_ack c' = stop_ack c" "norm2_vec c' = norm2_vec c" "sent_count c' = sent_count c + 1"
    "sent_number c' = sent_number c + 1" "sent_dic c' = counted c off" "snd (pkt_num_spaces c') = snd (pkt_num_spaces c)"
    "next_pkt_num (fst (pkt_num_spaces c')) = next_pkt_num (fst (pkt_num_spaces c)) + 1"
    by (simp_all add: c' after_app_def)
  have rest': "rest_of c' = xs" using f(1) sb xs by simp
  have e: "elicts c' = elicts c" unfolding elicts_def rest' f(8) rest by simp
  have t: "queued (take (Suc ?p) ?v) = queued (take ?p ?v) + length ch" using queued_take_Suc [OF p] v by simp
  have "\<not> max_data (send_buffer c) \<le> queued (take ?p ?v) + length ch" using go t by (simp add: ends_round_def)
  then have ro: "round_offsets c = off # round_offsets c'"
    unfolding round_offsets_def rest rest' using t by (simp add: f(1) sb)
  have "distinct (map fst ?v)"
    using sb_inv_distinct [of "send_buffer c"] r by (simp add: round_ready_def in_round_def sb_view_def o_def)
  then have "distinct (map fst (rest_of c))" by (metis distinct_drop drop_map)
  then have "\<forall>(off', ch') \<in> set xs. budget_left c' off' \<and> off' div 1024 < length (norm2_vec c)"
    using r f(10) unfolding round_ready_def rest
    by (force simp: budget_left_def counted_def hm_insert_def update_conv')
  then have "round_ready c'" using r inv' sb(3) rest unfolding round_ready_def e rest' by (simp add: f)
  with ro rest' show ?thesis by simp
qed

lemma round_app:
  assumes oc: "octets_spec oc" and r: "round_ready c" and sc: "sent_count c \<noteq> 8" and out: "1350 \<le> length out"
  shows "\<exists>off ch c'.
     Connection_send_data oc iter now out c = Some (Ok (26 + length ch, send_info_of c),
       encode_header (app_header c off (length ch)) @ ch @ drop (26 + length ch) out, c') \<and>
     (off, ch) \<in> set (rest_of c) \<and> c' = (after_app c off (send_buffer c') (stop_flag c'))\<lparr>handshake := now\<rparr> \<and>
     sent_pkt c' = sent_pkt c @ [off] \<and> sent_count c' = sent_count c + 1 \<and>
     (if ends_round (send_buffer c)
      then round_offsets c = [off] \<and> snd_inv c' \<and> rtt c' \<noteq> 0 \<and> is_server c' \<and> stop_flag c' \<and>
        next_pkt_num (snd (pkt_num_spaces c')) + 1 < lim64 \<and> sb_pos (send_buffer c') = 0
      else round_ready c' \<and> rest_of c = (off, ch) # rest_of c' \<and> round_offsets c = off # round_offsets c')"
proof -
  let ?p = "sb_pos (send_buffer c)" and ?v = "sb_view (send_buffer c)"
  have inv: "snd_inv c" using r by (simp add: round_ready_def)
  have p: "?p < length ?v" using r by (simp add: round_ready_def in_round_def)
  obtain off ch where v: "?v ! ?p = (off, ch)" by (metis surj_pair)
  have rest: "rest_of c = (off, ch) # drop (Suc ?p) ?v" using p v by (metis Cons_nth_drop_Suc)
  obtain sb stop where s: "Connection_send_data oc iter now out c = Some (Ok (26 + length ch, send_info_of c),
        encode_header (app_header c off (length ch)) @ ch @ drop (26 + length ch) out, (after_app c off sb stop)\<lparr>handshake := now\<rparr>)" and stop: "stop \<longleftrightarrow> ends_round (send_buffer c)"
    and sb: "sb_view sb = ?v" "max_data sb = max_data (send_buffer c)" "if stop then sb_pos sb = 0 else in_round sb \<and> sb_pos sb = Suc ?p"
    using round_packet [OF oc r sc out rest, of iter now] by blast
  define c' where "c' = (after_app c off sb stop)\<lparr>handshake := now\<rparr>"
  note s' = s [folded c'_def]
  have inv': "snd_inv c'" using send_data_snd_inv [OF oc inv _ s'] out by simp
  have f: "sent_pkt c' = sent_pkt c @ [off]" "sent_count c' = sent_count c + 1" by (simp_all add: c'_def after_app_def)
  have "send_buffer c' = sb" "stop_flag c' = stop" using r by (simp_all add: c'_def after_app_def round_ready_def)
  then have g: "c' = (after_app c off (send_buffer c') (stop_flag c'))\<lparr>handshake := now\<rparr>" by (simp add: c'_def)
  have m: "(off, ch) \<in> set (rest_of c)" unfolding rest by simp
  show ?thesis
  proof (cases stop)
    case True
    have "max_data (send_buffer c) \<le> queued (take ?p ?v) + length ch \<or> drop (Suc ?p) ?v = []"
      using True stop queued_take_Suc [OF p] v by (auto simp: ends_round_def)
    then have "round_offsets c = [off]" unfolding round_offsets_def rest by auto
    moreover have "rtt c' \<noteq> 0" "is_server c'" "stop_flag c'" "next_pkt_num (snd (pkt_num_spaces c')) + 1 < lim64"
      "sb_pos (send_buffer c') = 0"
      using r True sb(3) by (simp_all add: c'_def after_app_def round_ready_def elicts_def)
    moreover have e: "ends_round (send_buffer c)" using True stop by simp
    ultimately show ?thesis unfolding if_P [OF e] using s' m g f inv' by blast
  next
    case False
    have e: "\<not> ends_round (send_buffer c)" using False stop by simp
    have sb': "in_round sb" "sb_pos sb = Suc ?p" using False sb(3) by simp_all
    have c': "c' = (after_app c off sb False)\<lparr>handshake := now\<rparr>" using False c'_def by simp
    from round_continues [OF r rest inv' c' e sb(1,2) sb'] show ?thesis unfolding if_not_P [OF e] using s' m g f rest by metis
  qed
qed

section \<open>The whole round\<close>

text \<open>The last call: the \<open>ElictAck\<close> that reports what is unreported and stops the sender.\<close>

lemma round_last:
  assumes "octets_spec oc" and "snd_inv c" and "rtt c \<noteq> 0" "is_server c" "stop_flag c"
    and "1350 \<le> length out" and "next_pkt_num (snd (pkt_num_spaces c)) + 1 < lim64"
  shows "\<exists>x out' c'. Connection_send_data oc iter now out c = Some (Ok x, out', c') \<and> is_stopped c' \<and>
     sent_pkt c' = sent_pkt c \<and> ack_point c' = length (sent_pkt c')"
proof -
  have ty: "write_pkt_type c = (Ok ElictAck, c\<lparr>sent_count := 0\<rparr>)"
    using assms(3-5) by (simp add: write_pkt_type_def)
  have out: "90 \<le> length out" using assms(6) by simp
  let ?c' = "after_elict (c\<lparr>sent_count := 0\<rparr>)"
  obtain x out' where "Connection_send_data oc iter now out c = Some (Ok x, out', ?c')"
    using send_data_elict [OF assms(1,2) ty out assms(7), of iter now] by auto
  moreover have "is_stopped ?c'" "sent_pkt ?c' = sent_pkt c" "ack_point ?c' = length (sent_pkt ?c')"
    using assms(5) by (simp_all add: after_elict_def is_stopped_def)
  ultimately show ?thesis by blast
qed

definition all_ok :: "'a result list \<Rightarrow> bool" where
  "all_ok rs \<longleftrightarrow> (\<forall>r \<in> set rs. \<exists>x. r = Ok x)"

lemma send_calls_step:
  assumes "Connection_send_data oc iter now out c = Some (Ok x, out', c1)"
    and "send_calls n oc iter now out c1 = Some (rs, c')" and "all_ok rs"
  shows "send_calls (Suc n) oc iter now out c = Some (Ok x # rs, c') \<and> all_ok (Ok x # rs)"
  using assms by (simp add: all_ok_def)

text \<open>The last packet of a round and the \<open>ElictAck\<close> after it.\<close>

lemma round_last_calls:
  assumes "octets_spec oc" and s: "Connection_send_data oc iter now out c = Some (Ok y, out1, c1)"
    and "snd_inv c1" and "rtt c1 \<noteq> 0" "is_server c1" "stop_flag c1"
    and "1350 \<le> length out" and "next_pkt_num (snd (pkt_num_spaces c1)) + 1 < lim64"
  shows "\<exists>rs c'. send_calls (Suc (Suc 0)) oc iter now out c = Some (rs, c') \<and> all_ok rs \<and> is_stopped c' \<and>
     sent_pkt c' = sent_pkt c1 \<and> ack_point c' = length (sent_pkt c')"
proof -
  obtain x out2 c' where l: "Connection_send_data oc iter now out c1 = Some (Ok x, out2, c')" "is_stopped c'"
    "sent_pkt c' = sent_pkt c1" "ack_point c' = length (sent_pkt c')"
    using round_last [OF assms(1,3-8), of iter now] by blast
  have "send_calls (Suc 0) oc iter now out c1 = Some ([Ok x], c') \<and> all_ok [Ok x]"
    using send_calls_step [OF l(1), of 0 "[]" c'] by (simp add: all_ok_def)
  then have "send_calls (Suc (Suc 0)) oc iter now out c = Some ([Ok y, Ok x], c') \<and> all_ok [Ok y, Ok x]"
    using send_calls_step [OF s] by blast
  with l(2-4) show ?thesis by blast
qed

lemma round_calls:
  assumes oc: "octets_spec oc" and out: "1350 \<le> length out" and r: "round_ready c"
  shows "\<exists>n rs c'. n \<le> length (rest_of c) + elicts c \<and> send_calls n oc iter now out c = Some (rs, c') \<and> all_ok rs \<and>
     is_stopped c' \<and> sent_pkt c' = sent_pkt c @ round_offsets c \<and> ack_point c' = length (sent_pkt c')"
  using r
proof (induction "2 * length (rest_of c) + (if sent_count c = 8 then 1 else 0)" arbitrary: c rule: less_induct)
  case less
  show ?case
  proof (cases "sent_count c = 8")
    case True
    obtain out' c1 where s: "Connection_send_data oc iter now out c = Some (Ok (90, send_info_of c), out', c1)"
      and c1: "round_ready c1" "sent_count c1 = 0" "rest_of c1 = rest_of c" "round_offsets c1 = round_offsets c" "sent_pkt c1 = sent_pkt c"
      using round_elict [OF oc less.prems True out, of iter now] by blast
    obtain n rs c' where n: "n \<le> length (rest_of c) + elicts c1" and
      IH: "send_calls n oc iter now out c1 = Some (rs, c')" "all_ok rs" "is_stopped c'"
        "sent_pkt c' = sent_pkt c @ round_offsets c" "ack_point c' = length (sent_pkt c')"
      using less.hyps [OF _ c1(1)] c1(2-5) True by auto
    have "Suc n \<le> length (rest_of c) + elicts c" using n c1(2,3) True by (simp add: elicts_def)
    with send_calls_step [OF s IH(1,2)] IH(3-5) show ?thesis by blast
  next
    case False
    obtain off ch c1 where s: "Connection_send_data oc iter now out c = Some (Ok (26 + length ch, send_info_of c),
        encode_header (app_header c off (length ch)) @ ch @ drop (26 + length ch) out, c1)"
      and c1: "sent_pkt c1 = sent_pkt c @ [off]" "sent_count c1 = sent_count c + 1"
      and cs: "if ends_round (send_buffer c)
        then round_offsets c = [off] \<and> snd_inv c1 \<and> rtt c1 \<noteq> 0 \<and> is_server c1 \<and> stop_flag c1 \<and>
          next_pkt_num (snd (pkt_num_spaces c1)) + 1 < lim64 \<and> sb_pos (send_buffer c1) = 0
        else round_ready c1 \<and> rest_of c = (off, ch) # rest_of c1 \<and> round_offsets c = off # round_offsets c1"
      using round_app [OF oc less.prems False out, of iter now] by blast
    have ne: "0 < length (rest_of c)" using less.prems by (simp add: round_ready_def in_round_def)
    show ?thesis
    proof (cases "ends_round (send_buffer c)")
      case True
      with cs have e: "round_offsets c = [off]" "snd_inv c1" "rtt c1 \<noteq> 0" "is_server c1" "stop_flag c1"
        "next_pkt_num (snd (pkt_num_spaces c1)) + 1 < lim64" by simp_all
      obtain rs c' where l: "send_calls (Suc (Suc 0)) oc iter now out c = Some (rs, c')" "all_ok rs" "is_stopped c'"
        "sent_pkt c' = sent_pkt c1" "ack_point c' = length (sent_pkt c')"
        using round_last_calls [OF oc s e(2-5) out e(6)] by blast
      moreover have "Suc (Suc 0) \<le> length (rest_of c) + elicts c" using ne by (simp add: elicts_def)
      ultimately show ?thesis using c1(1) e(1) by metis
    next
      case no_end: False
      with cs have e: "round_ready c1" "rest_of c = (off, ch) # rest_of c1" "round_offsets c = off # round_offsets c1"
        by simp_all
      have len: "length (rest_of c) = Suc (length (rest_of c1))" unfolding e(2) by simp
      then have lt: "2 * length (rest_of c1) + (if sent_count c1 = 8 then 1 else 0) <
          2 * length (rest_of c) + (if sent_count c = 8 then 1 else 0)" by simp
      obtain n rs c' where n: "n \<le> length (rest_of c1) + elicts c1" and
        IH: "send_calls n oc iter now out c1 = Some (rs, c')" "all_ok rs" "is_stopped c'"
          "sent_pkt c' = sent_pkt c1 @ round_offsets c1" "ack_point c' = length (sent_pkt c')"
        using less.hyps [OF lt e(1)] by blast
      have "elicts c1 = elicts c" unfolding elicts_def len c1(2) by simp
      then have "Suc n \<le> length (rest_of c) + elicts c" using n len by linarith
      moreover have "sent_pkt c' = sent_pkt c @ round_offsets c" using IH(4) c1(1) e(3) by simp
      ultimately show ?thesis using send_calls_step [OF s IH(1,2)] IH(3,5) by blast
    qed
  qed
qed

text \<open>
  (C6) A sending round ends.  From a state in the middle of a round, with budget and norms for the chunks still
  to send and room in the counters, the calls of \<open>send_data\<close> all succeed, and after at most one per chunk, one
  for every eight packets and one more, the sender is stopped; it has then sent the offsets of the chunks that
  fit the window, each once and in order, and everything it sent has been listed in an \<open>ElictAck\<close>.
\<close>

theorem round_terminates:
  assumes "octets_spec oc" and "1350 \<le> length out" and "round_ready c"
  shows "\<exists>n rs c'. n \<le> length (rest_of c) + (sent_count c + length (rest_of c)) div 8 + 1 \<and>
     send_calls n oc iter now out c = Some (rs, c') \<and> (\<forall>r \<in> set rs. \<exists>x. r = Ok x) \<and> is_stopped c' \<and>
     sent_pkt c' = sent_pkt c @ map fst (window_prefix (max_data (send_buffer c))
        (queued (take (sb_pos (send_buffer c)) (sb_view (send_buffer c)))) (rest_of c)) \<and>
     ack_point c' = length (sent_pkt c')"
  using round_calls [OF assms, of iter now] unfolding all_ok_def round_offsets_def elicts_def
  by (simp only: add.assoc)

theorem round_terminates_witness:
  "\<exists>c n rs c'. snd_reachable list_octets id c \<and> n \<le> 2 \<and>
     send_calls n list_octets id 6 (replicate 1350 0) c = Some (rs, c') \<and> is_stopped c' \<and> sent_pkt c' = [0]"
proof -
  obtain c where c: "snd_reachable list_octets id c"
    "in_round (send_buffer c)" "sb_view (send_buffer c) = [(0, [1, 2, 3])]" "sb_pos (send_buffer c) = 0"
    "rtt c = 5" "sent_count c = 0" "sent_number c = 0" "sent_pkt c = []"
    "sent_dic c = []" "norm2_vec c = [Fin 1]" "stop_flag c = False" "recv_flag c = False" "is_server c"
    "pkt_num_spaces c = (PktNumSpace_new, PktNumSpace_new)" "stop_ack c = False"
    by (rule demo_round)
  have rest: "rest_of c = [(0, [1, 2, 3])]" using c(3,4) by simp
  have "snd_inv c" by (rule snd_reachable_inv [OF list_oc.octets_spec_axioms c(1)])
  then have r: "round_ready c"
    using c unfolding round_ready_def rest elicts_def by (simp add: budget_left_def PktNumSpace_new_def)
  obtain n rs c' where "n \<le> length (rest_of c) + (sent_count c + length (rest_of c)) div 8 + 1"
    "send_calls n list_octets id 6 (replicate 1350 0) c = Some (rs, c')" "is_stopped c'"
    "sent_pkt c' = sent_pkt c @ map fst (window_prefix (max_data (send_buffer c))
        (queued (take (sb_pos (send_buffer c)) (sb_view (send_buffer c)))) (rest_of c))"
    using round_terminates [OF list_oc.octets_spec_axioms _ r, of "replicate 1350 0" id 6] by auto
  then show ?thesis
    unfolding rest c(6,8) using c(1) by (intro exI [of _ c] exI [of _ n] exI [of _ rs] exI [of _ c']) simp
qed

end
