(* ===== verification/Feedback.thy ===== *)
theory Feedback
  imports Network Round
begin

text \<open>
  The two endpoints in turn: a datagram of the sender arrives, and a receiver that asks to answer is asked for
  its answer at once.  This theory follows a report, an \<open>ElictAck\<close> and the \<open>ACK\<close> that answers it, when any of the
  packets it is about may have been lost.
\<close>

section \<open>The loop of the two endpoints\<close>

text \<open>
  One datagram of the sender and, if it calls for one, the answer.  Application packets for the offsets in \<open>L\<close> are
  lost on the way.
\<close>

definition lost_in :: "nat set \<Rightarrow> bytes \<Rightarrow> bool" where
  "lost_in L p \<longleftrightarrow> ptype p = Application \<and> poff p \<in> L"

definition relay_step ::
  "nat set \<Rightarrow> 'b octets \<Rightarrow> ((nat, nat) hash_map \<Rightarrow> (nat \<times> nat) list) \<Rightarrow> instant \<Rightarrow> bytes \<Rightarrow> connection \<times> connection \<Rightarrow>
   (connection \<times> connection) option" where
  "relay_step L oc iter now out = (\<lambda>(a, b). do {
     (r, p, a) \<leftarrow> Connection_send_data oc iter now out a;
     case r of
       Err e \<Rightarrow> Some (a, b)
     | Ok (n, _) \<Rightarrow> if lost_in L (take n p) then Some (a, b) else do {
         (_, b) \<leftarrow> recv_slice oc now (take n p) b;
         if send_ack b then do {
           (r, q, b) \<leftarrow> Connection_send_data oc iter now out b;
           case r of
             Err e \<Rightarrow> Some (a, b)
           | Ok (n, _) \<Rightarrow> do {
               (_, a) \<leftarrow> recv_slice oc now (take n q) a;
               Some (a, b)
             }
         } else Some (a, b)
       }
   })"

fun relay ::
  "nat \<Rightarrow> nat set \<Rightarrow> 'b octets \<Rightarrow> ((nat, nat) hash_map \<Rightarrow> (nat \<times> nat) list) \<Rightarrow> instant \<Rightarrow> bytes \<Rightarrow> connection \<times> connection \<Rightarrow>
   (connection \<times> connection) option" where
  "relay 0 L oc iter now out s = Some s"
| "relay (Suc n) L oc iter now out s = do { s \<leftarrow> relay_step L oc iter now out s; relay n L oc iter now out s }"

text \<open>A receiver that waits for datagrams and has answered everything it was asked.\<close>

definition waiting :: "connection \<Rightarrow> bool" where
  "waiting b \<longleftrightarrow> \<not> is_server b \<and> handshake_confirmed b \<and> sent_count b = 0 \<and> \<not> stop_flag b \<and> recv_hashmap b = [] \<and>
     \<not> feed_back b \<and> bt_wf (rv_data (rec_buffer b))"

section \<open>What the receiver notes\<close>

text \<open>The entries of the answer to a report: 0 for an offset that arrived, 1 for one that is missing.\<close>

definition reported :: "(nat, u8) hash_map \<Rightarrow> nat list \<Rightarrow> (nat \<times> nat) set" where
  "reported d us = (\<lambda>k. (k, if k \<in> dom (hm_get d) then 0 else 1)) ` set us"

lemma in_reported: "(k, p) \<in> reported d us \<longleftrightarrow> k \<in> set us \<and> p = (if k \<in> dom (hm_get d) then 0 else 1)"
  unfolding reported_def image_iff by (simp only: prod.inject) blast

lemma noted_exact:
  assumes "\<forall>k \<in> set us. k < lim64" and m: "m = fold (note_offset d) (map of_nat us) []"
  shows "set m = reported d us" and "distinct (map fst m)" and "length m \<le> length us"
proof -
  define f where "f k = (if k \<in> dom (hm_get d) then 0 else 1 :: nat)" for k
  have ins: "fold (note_offset d) (map of_nat us) m0 = fold (\<lambda>k. hm_insert k (f k)) us m0" for m0
    using assms(1) by (induction us arbitrary: m0) (auto simp: note_offset_def hm_contains_key_def f_def)
  have "hm_wf (fold (\<lambda>k. hm_insert k (f k)) us m0)" if "hm_wf m0" for m0
    using that by (induction us arbitrary: m0) (simp_all add: hm.invar_insert)
  then show d: "distinct (map fst m)" using m ins [of "[]"] by (simp add: hm_wf_def)
  have "hm_get m k = (if k \<in> set us then Some (f k) else None)" for k
    unfolding m ins using hm.get_inserts_fun [of "[]" f us k] by (simp add: hm_wf_def)
  then have "(k, v) \<in> set m \<longleftrightarrow> k \<in> set us \<and> v = f k" for k v
    using map_of_eq_Some_iff [OF d, of k v] by (simp split: if_splits) blast
  then have "set m = (\<lambda>k. (k, f k)) ` set us" by auto
  then show e: "set m = reported d us" by (simp add: reported_def f_def)
  have "length m = card (fst ` set m)" using d by (metis distinct_card length_map set_map)
  also have "\<dots> \<le> length us" unfolding e reported_def by (simp add: image_image card_length)
  finally show "length m \<le> length us" .
qed

section \<open>The answer\<close>

lemma answer_report:
  assumes oc: "octets_spec oc" and it: "iterates iter" and b: "waiting b" and rc: "recv_count b + 1 < lim64"
    and out: "1350 \<le> length out" and us: "\<forall>k \<in> set us. k < lim64" "length us \<le> 8" and ty: "hdr_ty h = ElictAck"
  shows "\<exists>b1 n info q b' h' m kps. recv_slice oc now (encode_header h @ bytes_of (map of_nat us)) b = Some (Ok 0, b1) \<and> send_ack b1 \<and>
     Connection_send_data oc iter now out b1 = Some (Ok (n, info), q, b') \<and>
     take n q = encode_header h' @ to_be_bytes m @ bytes_of (flatten_pairs kps) \<and> hdr_ty h' = ACK \<and>
     set kps = reported (recv_dic b) us \<and> distinct (map fst kps) \<and> length kps \<le> 8 \<and>
     waiting b' \<and> recv_count b' = recv_count b + 1 \<and> recv_dic b' = recv_dic b \<and> rec_buffer b' = rec_buffer b"
proof -
  let ?p = "encode_header h @ bytes_of (map of_nat us)"
  define m where "m = fold (note_offset (recv_dic b)) (map of_nat us) []"
  note noted = noted_exact [OF us(1) m_def]
  define b1 where "b1 = b\<lparr>recv_count := recv_count b + 1, recv_flag := True,
      send_num := unat (hdr_pkt_num (decode_header ?p)), recv_hashmap := m, feed_back := True\<rparr>"
  have e: "hdr_ty (decode_header ?p) = ElictAck" using ty by (simp add: decode_type)
  have r: "recv_slice oc now ?p b = Some (Ok 0, b1)"
    using octets_spec.recv_slice_eq [OF oc, of ?p b now] rc b octets_spec.recv_elict_ack_eq [OF oc, of ?p "b\<lparr>recv_count := recv_count b + 1\<rparr>"]
    by (simp add: dispatch_ElictAck [OF e] waiting_def b1_def m_def)
  let ?b2 = "b1\<lparr>recv_flag := False\<rparr>"
  let ?b3 = "?b2\<lparr>feed_back := False, recv_hashmap := []\<rparr>" and ?ws = "of_nat (Connection_max_ack ?b2) # flatten_pairs (iter m) :: u64 list"
  let ?q = "encode_header (ack_header ?b2) @ bytes_of ?ws @ drop (34 + 16 * length m) out"
  define b' where "b' = ?b3\<lparr>handshake := now\<rparr>"
  have ty1: "write_pkt_type b1 = (Ok ACK, ?b2)"
    using b by (simp add: write_pkt_type_def waiting_def b1_def)
  have len: "length m \<le> 8" using noted(3) us(2) by simp
  have ne: "out \<noteq> []" and ns: "\<not> is_stopped ?b3" using out b by (auto simp: is_stopped_def waiting_def b1_def)
  have a: "send_ACK oc iter out ?b2 = Some (Ok (length m * 8 * 2 + 8), ?q, ?b3)"
    using send_ACK_eq [OF oc, of iter ?b2 out] iterates_facts(1) [OF it, of m] len out by (simp add: b1_def)
  have s: "Connection_send_data oc iter now out b1 = Some (Ok (34 + 16 * length m, send_info_of ?b3), ?q, b')"
    using ty1 ne ns a by (simp add: Connection_send_data_def finish_common_def HEADER_LENGTH_def b'_def)
  have q: "take (34 + 16 * length m) ?q = encode_header (ack_header ?b2) @ to_be_bytes (of_nat (Connection_max_ack ?b2)) @ bytes_of (flatten_pairs (iter m))"
    using iterates_facts(1) [OF it, of m] by simp
  have "mset (iter m) = mset m" using it by (simp add: iterates_def)
  then have "mset (map fst (iter m)) = mset (map fst m)" by simp
  then have "distinct (map fst (iter m))" using noted(2) mset_eq_imp_distinct_iff by blast
  with noted(1) len iterates_facts [OF it, of m]
  have k: "set (iter m) = reported (recv_dic b) us" "distinct (map fst (iter m))" "length (iter m) \<le> 8" by simp_all
  have w: "send_ack b1" "hdr_ty (ack_header ?b2) = ACK" "waiting b'" "recv_count b' = recv_count b + 1" "recv_dic b' = recv_dic b" "rec_buffer b' = rec_buffer b"
    using b by (simp_all add: send_ack_def ack_header_def waiting_def b'_def b1_def)
  show ?thesis
    by (rule exI [of _ b1], rule exI [of _ "34 + 16 * length m"], rule exI [of _ "send_info_of ?b3"],
      rule exI [of _ ?q], rule exI [of _ b'], rule exI [of _ "ack_header ?b2"], rule exI [of _ "of_nat (Connection_max_ack ?b2)"],
      rule exI [of _ "iter m"]) (intro conjI r s q k w)
qed

text \<open>The sender's side.\<close>

lemma digest_answer:
  assumes oc: "octets_spec oc" and srv: "is_server c" and rc: "recv_count c + 1 < lim64" and hp: "high_priority c + 8 < lim64"
    and q: "q = encode_header h @ to_be_bytes m @ bytes_of (flatten_pairs kps)" "hdr_ty h = ACK"
    and kps: "\<forall>(k, v) \<in> set kps. k < lim64 \<and> v < 2 \<and> k div 1024 < length (norm2_vec c)" "length kps \<le> 8"
  shows "recv_slice oc now q c = map_option (\<lambda>r. (Ok 0, c\<lparr>recv_count := recv_count c + 1, max_off := max (max_off c) (unat m), recovery_of := r,
      send_buffer := fold ack_and_drop (acked_by (sent_dic c) kps) (send_buffer c), high_priority := high_priority c + lost_high c kps\<rparr>))
    (update_win (loss_weight c kps (Fin 0)) (f64_of_nat ((8 + 16 * length kps) div 16)) (recovery_of c))"
proof -
  let ?c = "c\<lparr>recv_count := recv_count c + 1\<rparr>"
  have t: "hdr_ty (decode_header q) = ACK" and len: "26 \<le> length q" using q by (simp_all add: decode_type)
  have "u64_pairs kps" using kps(1) by (force simp: u64_pairs_def)
  moreover have "\<forall>(k, p) \<in> set kps. k div 1024 < length (norm2_vec ?c)" using kps(1) by force
  moreover have "high_priority ?c + length kps < lim64" using hp kps(2) by simp
  ultimately have "process_ack q ?c = map_option (\<lambda>r. ?c\<lparr>max_off := max (max_off ?c) (unat m), recovery_of := r,
      send_buffer := fold ack_and_drop (acked_by (sent_dic ?c) kps) (send_buffer ?c), high_priority := high_priority ?c + lost_high ?c kps\<rparr>)
    (update_win (loss_weight ?c kps (Fin 0)) (f64_of_nat ((8 + 16 * length kps) div 16)) (recovery_of ?c))"
    unfolding q(1) by (intro process_ack_eq) simp_all
  moreover have "loss_weight ?c kps (Fin 0) = loss_weight c kps (Fin 0)" "lost_high ?c kps = lost_high c kps"
    by (rule loss_weight_cong) (simp_all add: prio_at_def lost_high_def)
  ultimately have "process_ack q ?c = map_option (\<lambda>r. ?c\<lparr>max_off := max (max_off c) (unat m), recovery_of := r,
      send_buffer := fold ack_and_drop (acked_by (sent_dic c) kps) (send_buffer c), high_priority := high_priority c + lost_high c kps\<rparr>)
    (update_win (loss_weight c kps (Fin 0)) (f64_of_nat ((8 + 16 * length kps) div 16)) (recovery_of c))"
    by simp
  then show ?thesis
    using octets_spec.recv_slice_eq [OF oc _ rc, of q now] srv len by (simp add: dispatch_ACK [OF t] option.map_comp o_def)
qed

section \<open>The report and its answer\<close>

definition after_feedback :: "connection \<Rightarrow> (nat \<times> nat) list \<Rightarrow> nat \<Rightarrow> recovery \<Rightarrow> connection" where
  "after_feedback a kps mo r = (after_elict (a\<lparr>sent_count := 0\<rparr>))\<lparr>recv_count := recv_count a + 1, max_off := mo, recovery_of := r,
     send_buffer := fold ack_and_drop (acked_by (sent_dic a) kps) (send_buffer a), high_priority := high_priority a + lost_high a kps\<rparr>"

lemma report_exchange:
  assumes oc: "octets_spec oc" and it: "iterates iter" and b: "waiting b" and rcb: "recv_count b + 1 < lim64"
    and out: "1350 \<le> length out" and inv: "snd_inv a" and ty: "write_pkt_type a = (Ok ElictAck, c1)"
    and pn: "next_pkt_num (snd (pkt_num_spaces a)) + 1 < lim64"
    and srv: "is_server a" and rca: "recv_count a + 1 < lim64" and hp: "high_priority a + 8 < lim64"
    and us: "\<forall>k \<in> set (unreported a). k < lim64 \<and> k div 1024 < length (norm2_vec a)"
  shows "\<exists>kps mo b'. set kps = reported (recv_dic b) (unreported a) \<and> distinct (map fst kps) \<and> length kps \<le> 8 \<and>
     relay_step L oc iter now out (a, b) = map_option (\<lambda>r. (after_feedback a kps mo r, b'))
       (update_win (loss_weight a kps (Fin 0)) (f64_of_nat ((8 + 16 * length kps) div 16)) (recovery_of a)) \<and>
     waiting b' \<and> recv_count b' = recv_count b + 1 \<and> recv_dic b' = recv_dic b \<and> rec_buffer b' = rec_buffer b"
proof -
  let ?a1 = "after_elict (a\<lparr>sent_count := 0\<rparr>)" and ?p = "encode_header (elict_header a (8 * sent_count a)) @ bytes_of (map of_nat (unreported a))"
  have "90 \<le> length out" using out by simp
  from send_data_elict [OF oc inv ty this pn, of iter now] have len: "length (unreported a) = sent_count a" "sent_count a \<le> 8"
    and s: "Connection_send_data oc iter now out a = Some (Ok (26 + 8 * sent_count a, send_info_of a), ?p @ drop (26 + 8 * sent_count a) out, ?a1)"
    by auto
  have p: "take (26 + 8 * sent_count a) (?p @ drop (26 + 8 * sent_count a) out) = ?p" using len(1) by simp
  have nl: "\<not> lost_in L ?p" by (simp add: lost_in_def decode_type elict_header_def)
  have us': "\<forall>k \<in> set (unreported a). k < lim64" "length (unreported a) \<le> 8" using us len by simp_all
  obtain b1 n info q b' h' m kps where 1: "recv_slice oc now ?p b = Some (Ok 0, b1)" "send_ack b1"
    and 2: "Connection_send_data oc iter now out b1 = Some (Ok (n, info), q, b')"
    and q: "take n q = encode_header h' @ to_be_bytes m @ bytes_of (flatten_pairs kps)" "hdr_ty h' = ACK"
    and kps: "set kps = reported (recv_dic b) (unreported a)" "distinct (map fst kps)" "length kps \<le> 8"
    and b': "waiting b'" "recv_count b' = recv_count b + 1" "recv_dic b' = recv_dic b" "rec_buffer b' = rec_buffer b"
    using answer_report [OF oc it b rcb out us', of "elict_header a (8 * sent_count a)" now] by (auto simp: elict_header_def)
  have f: "is_server ?a1" "recv_count ?a1 = recv_count a" "high_priority ?a1 = high_priority a" "recovery_of ?a1 = recovery_of a"
    "norm2_vec ?a1 = norm2_vec a" "send_buffer ?a1 = send_buffer a" "sent_dic ?a1 = sent_dic a" "prio_at ?a1 = prio_at a"
    using srv by (simp_all add: after_elict_def prio_at_def)
  have f': "loss_weight ?a1 kps (Fin 0) = loss_weight a kps (Fin 0)" "lost_high ?a1 kps = lost_high a kps"
    by (rule loss_weight_cong [OF f(8)]) (simp add: lost_high_def f(8))
  have "\<forall>(k, v) \<in> set kps. k < lim64 \<and> v < 2 \<and> k div 1024 < length (norm2_vec ?a1)"
    using us unfolding kps(1) f by (auto simp: reported_def)
  from digest_answer [OF oc f(1) _ _ q this kps(3), of now] rca hp
  have "recv_slice oc now (take n q) ?a1 = map_option (\<lambda>r. (Ok 0, after_feedback a kps (max (max_off ?a1) (unat m)) r))
      (update_win (loss_weight a kps (Fin 0)) (f64_of_nat ((8 + 16 * length kps) div 16)) (recovery_of a))"
    unfolding f f' after_feedback_def by simp
  then have "relay_step L oc iter now out (a, b) = map_option (\<lambda>r. (after_feedback a kps (max (max_off ?a1) (unat m)) r, b'))
      (update_win (loss_weight a kps (Fin 0)) (f64_of_nat ((8 + 16 * length kps) div 16)) (recovery_of a))"
    using s 1 2 nl unfolding relay_step_def
    by (cases "update_win (loss_weight a kps (Fin 0)) (f64_of_nat ((8 + 16 * length kps) div 16)) (recovery_of a)") (simp_all add: p [simplified])
  with kps b' show ?thesis by blast
qed

end
