(* ===== verification/Rounding.thy ===== *)
theory Rounding
  imports Ieee
begin

text \<open>
  The accuracy of rounding: within half a unit in the last place, so that a value that does not overflow is
  off by at most \<open>2^-p\<close> of itself, and half the smallest positive number.  On top of it a calculus of
  absolute errors for \<open>f64\<close> expressions.
\<close>

section \<open>The exponent\<close>

lemma blen_bounds: "0 < n \<Longrightarrow> 0 < blen n \<and> 2 ^ nat (blen n - 1) \<le> n \<and> n < 2 ^ nat (blen n)"
proof (induction n rule: blen.induct)
  case (1 n)
  show ?case
  proof (cases "n = 1")
    case True
    have "blen 1 = 1" by (simp add: blen.simps)
    with True show ?thesis by simp
  next
    case False
    then have h: "0 < n div 2" using "1.prems" by linarith
    have b: "blen n = 1 + blen (n div 2)" using "1.prems" by (subst blen.simps) simp
    from "1.IH" h "1.prems" have IH: "0 < blen (n div 2)" "2 ^ nat (blen (n div 2) - 1) \<le> n div 2" "n div 2 < 2 ^ nat (blen (n div 2))"
      by auto
    have "nat (blen n - 1) = Suc (nat (blen (n div 2) - 1))" "nat (blen n) = Suc (nat (blen (n div 2)))"
      using IH(1) b by simp_all
    moreover have "2 * 2 ^ nat (blen (n div 2) - 1) \<le> n" "n < 2 * 2 ^ nat (blen (n div 2))"
      using IH(2,3) by linarith+
    ultimately show ?thesis using IH(1) b by (simp only: power_Suc) simp
  qed
qed

lemma pw2_powi: "pw2 e = 2 powi e"
  unfolding pw2_def pow2_eq power_int_def by (simp only: of_int_power of_int_numeral inverse_eq_divide power_one_over)

lemma pw2_add: "pw2 (a + b) = pw2 a * pw2 b"
  unfolding pw2_powi by (rule power_int_add) simp

lemma pw2_mono: "a \<le> b \<Longrightarrow> pw2 a \<le> pw2 b"
  unfolding pw2_powi by (rule power_int_increasing) simp_all

lemma ilog2_le: 
  assumes "0 < x"
  shows "pw2 (ilog2 x) \<le> x"
proof -
  obtain n d where q: "quotient_of x = (n, d)" by (metis surj_pair)
  then have d: "0 < d" and x: "x = of_int n / of_int d"
    by (simp_all add: quotient_of_denom_pos quotient_of_div)
  then have n: "0 < n" using assms by (simp add: zero_less_divide_iff)
  note bn = blen_bounds [OF n] and bd = blen_bounds [OF d]
  have "pw2 (blen n - blen d - 1) \<le> x"
  proof -
    have "pw2 (blen n - 1) = 2 ^ nat (blen n - 1)" "pw2 (blen d) = 2 ^ nat (blen d)"
      using bn bd by (simp_all add: pw2_def pow2_eq)
    moreover have "of_int (2 ^ nat (blen n - 1)) \<le> (of_int n :: rat)" "(of_int d :: rat) \<le> of_int (2 ^ nat (blen d))"
      using bn bd unfolding of_int_le_iff by linarith+
    ultimately have "pw2 (blen n - 1) \<le> of_int n" "of_int d \<le> pw2 (blen d)" by simp_all
    then have "pw2 (blen n - 1) * of_int d \<le> of_int n * pw2 (blen d)"
      by (intro mult_mono) (use n d pw2_pos [of "blen d"] in \<open>simp_all add: less_imp_le\<close>)
    moreover have "pw2 (blen n - 1) = pw2 (blen n - blen d - 1) * pw2 (blen d)"
      by (simp flip: pw2_add)
    ultimately have "pw2 (blen n - blen d - 1) * of_int d * pw2 (blen d) \<le> of_int n * pw2 (blen d)" by (simp add: ac_simps)
    then have "pw2 (blen n - blen d - 1) * of_int d \<le> of_int n" using pw2_pos [of "blen d"] by simp
    then show ?thesis using d by (simp add: x pos_le_divide_eq)
  qed
  then show ?thesis by (simp add: ilog2_def q Let_def)
qed

section \<open>The error of rounding\<close>

lemma round_even_error: "\<bar>of_int (round_even x) - x\<bar> \<le> 1 / 2"
proof -
  have "of_int \<lfloor>x\<rfloor> \<le> x" "x < of_int \<lfloor>x\<rfloor> + 1" by linarith+
  then show ?thesis unfolding round_even_def Let_def by (simp add: abs_le_iff field_simps)
qed

text \<open>The number of the grid nearest to \<open>x\<close>, before the test for overflow.\<close>

lemma rnd_grid:
  "\<exists>y. \<bar>y - x\<bar> \<le> \<bar>x\<bar> * pw2 (- int p) + pw2 (qmin - 1) \<and>
     rnd p qmin emax x = (if pw2 emax \<le> y then PInf else if y \<le> - pw2 emax then NInf else Fin y)"
proof (cases "x = 0")
  case True
  then show ?thesis using pw2_pos [of "qmin - 1"] pw2_pos [of emax] by (intro exI [of _ 0]) (simp add: rnd_def)
next
  case False
  define q where "q = max (ilog2 \<bar>x\<bar> - int p + 1) qmin"
  define y where "y = of_int (round_even (x / pw2 q)) * pw2 q"
  have r: "rnd p qmin emax x = (if pw2 emax \<le> y then PInf else if y \<le> - pw2 emax then NInf else Fin y)"
    using False by (simp add: rnd_def q_def y_def Let_def)
  have "y - x = (of_int (round_even (x / pw2 q)) - x / pw2 q) * pw2 q"
    using pw2_pos [of q] by (simp add: y_def left_diff_distrib)
  then have "\<bar>y - x\<bar> = \<bar>of_int (round_even (x / pw2 q)) - x / pw2 q\<bar> * pw2 q"
    using pw2_pos [of q] by (simp add: abs_mult)
  also have "\<dots> \<le> 1 / 2 * pw2 q"
    using round_even_error pw2_pos [of q] by (intro mult_right_mono) simp_all
  also have "\<dots> = pw2 (q - 1)" using pw2_add [of "q - 1" 1] by (simp add: pw2_def pow2_eq)
  also have "\<dots> \<le> \<bar>x\<bar> * pw2 (- int p) + pw2 (qmin - 1)"
  proof -
    have "pw2 (ilog2 \<bar>x\<bar> - int p) \<le> \<bar>x\<bar> * pw2 (- int p)"
      using ilog2_le [of "\<bar>x\<bar>"] False pw2_pos [of "- int p"] pw2_add [of "ilog2 \<bar>x\<bar>" "- int p"] by simp
    then show ?thesis
      using pw2_pos [of "qmin - 1"] pw2_pos [of "- int p"] by (cases "q = qmin") (auto simp: q_def max_def split: if_splits)
  qed
  finally show ?thesis using r by blast
qed

lemma rnd_error:
  assumes "\<bar>x\<bar> + (\<bar>x\<bar> * pw2 (- int p) + pw2 (qmin - 1)) < pw2 emax"
  shows "\<exists>y. rnd p qmin emax x = Fin y \<and> \<bar>y - x\<bar> \<le> \<bar>x\<bar> * pw2 (- int p) + pw2 (qmin - 1)"
proof -
  obtain y where y: "\<bar>y - x\<bar> \<le> \<bar>x\<bar> * pw2 (- int p) + pw2 (qmin - 1)"
    and r: "rnd p qmin emax x = (if pw2 emax \<le> y then PInf else if y \<le> - pw2 emax then NInf else Fin y)"
    using rnd_grid by blast
  have "\<bar>y\<bar> < pw2 emax" using y assms by linarith
  then have "rnd p qmin emax x = Fin y" using r by (simp add: abs_less_iff)
  with y show ?thesis by blast
qed

section \<open>A calculus of absolute errors\<close>

definition near :: "fl \<Rightarrow> rat \<Rightarrow> rat \<Rightarrow> bool" where
  "near a x e \<longleftrightarrow> (\<exists>y. a = Fin y \<and> \<bar>y - x\<bar> \<le> e)"

lemma near_Fin: "near (Fin y) x e \<longleftrightarrow> \<bar>y - x\<bar> \<le> e"
  by (simp add: near_def)

lemma near_weaken: "near a x e \<Longrightarrow> e \<le> e' \<Longrightarrow> near a x e'"
  by (auto simp: near_def)

lemma near_rnd:
  assumes x: "\<bar>x\<bar> \<le> m" and m: "m * pw2 (- int p) + pw2 (qmin - 1) \<le> e" "m + e < pw2 emax"
  shows "near (rnd p qmin emax x) x e"
proof -
  have "\<bar>x\<bar> * pw2 (- int p) \<le> m * pw2 (- int p)" using x pw2_pos [of "- int p"] by (intro mult_right_mono) simp_all
  then have e: "\<bar>x\<bar> * pw2 (- int p) + pw2 (qmin - 1) \<le> e" using m(1) by linarith
  then have "\<bar>x\<bar> + (\<bar>x\<bar> * pw2 (- int p) + pw2 (qmin - 1)) < pw2 emax" using x m(2) by linarith
  from rnd_error [OF this] e show ?thesis unfolding near_def by fastforce
qed

definition accurate :: "(rat \<Rightarrow> fl) \<Rightarrow> rat \<Rightarrow> rat \<Rightarrow> bool" where
  "accurate rd m u \<longleftrightarrow> (\<forall>x. \<bar>x\<bar> \<le> m \<longrightarrow> near (rd x) x u)"

lemma accurate_rnd64: "accurate rnd64 1000000 (1 / 1000000000)"
proof -
  have "pw2 (- 1075) \<le> pw2 (- 53)" "pw2 53 \<le> pw2 1024" by (simp_all add: pw2_mono)
  moreover have "pw2 (- 53) = 1 / 9007199254740992" "pw2 53 = 9007199254740992" by code_simp+
  ultimately show ?thesis unfolding accurate_def rnd64_def by (intro allI impI near_rnd [of _ 1000000]) simp_all
qed

lemma accurate_rnd32: "accurate rnd32 4 (1 / 1000000)"
proof -
  have "pw2 (- 150) \<le> pw2 (- 24)" "pw2 24 \<le> pw2 128" by (simp_all add: pw2_mono)
  moreover have "pw2 (- 24) = 1 / 16777216" "pw2 24 = 16777216" by code_simp+
  ultimately show ?thesis unfolding accurate_def rnd32_def by (intro allI impI near_rnd [of _ 4]) simp_all
qed

text \<open>The rules: the errors of the operands, and one rounding.\<close>

lemma near_round:
  assumes rd: "accurate rd m d" and y: "\<bar>y - x\<bar> \<le> e" "\<bar>x\<bar> + e \<le> m"
  shows "near (rd y) x (e + d)"
proof -
  have "\<bar>y\<bar> \<le> m" using y by linarith
  then obtain z where "rd y = Fin z" "\<bar>z - y\<bar> \<le> d" using rd unfolding accurate_def near_def by blast
  with y(1) show ?thesis by (simp add: near_Fin)
qed

lemma near_add:
  assumes "accurate rd m u" "near a x e" "near b y d" "\<bar>x + y\<bar> + (e + d) \<le> m"
  shows "near (fl_add rd a b) (x + y) (e + d + u)"
proof -
  obtain p q where "a = Fin p" "b = Fin q" and e: "\<bar>p - x\<bar> \<le> e" "\<bar>q - y\<bar> \<le> d" using assms(2,3) by (auto simp: near_def)
  moreover have "\<bar>p + q - (x + y)\<bar> \<le> e + d" using e by linarith
  ultimately show ?thesis using near_round [OF assms(1) _ assms(4)] by simp
qed

lemma near_neg: "near a x e \<Longrightarrow> near (fl_neg a) (- x) e"
  by (auto simp: near_def)

lemma near_sub:
  assumes "accurate rd m u" "near a x e" "near b y d" "\<bar>x - y\<bar> + (e + d) \<le> m"
  shows "near (fl_sub rd a b) (x - y) (e + d + u)"
  using near_add [OF assms(1,2) near_neg [OF assms(3)]] assms(4) by (simp add: fl_sub_def)

lemma near_mul:
  assumes rd: "accurate rd m u" and a: "near a x e" "\<bar>x\<bar> \<le> X" and b: "near b y d" "\<bar>y\<bar> \<le> Y" and m: "X * Y + (X * d + Y * e + e * d) \<le> m"
  shows "near (fl_mul rd a b) (x * y) (X * d + Y * e + e * d + u)"
proof -
  obtain p q where f: "a = Fin p" "b = Fin q" and e: "\<bar>p - x\<bar> \<le> e" "\<bar>q - y\<bar> \<le> d" using a(1) b(1) by (auto simp: near_def)
  have "p * q - x * y = x * (q - y) + y * (p - x) + (p - x) * (q - y)" by (simp add: algebra_simps)
  then have "\<bar>p * q - x * y\<bar> \<le> \<bar>x\<bar> * \<bar>q - y\<bar> + \<bar>y\<bar> * \<bar>p - x\<bar> + \<bar>p - x\<bar> * \<bar>q - y\<bar>"
    unfolding abs_mult [symmetric] by linarith
  also have "\<dots> \<le> X * d + Y * e + e * d"
    using a(2) b(2) e abs_ge_zero [of x] abs_ge_zero [of y] by (intro add_mono mult_mono) linarith+
  finally have 1: "\<bar>p * q - x * y\<bar> \<le> X * d + Y * e + e * d" .
  have "\<bar>x * y\<bar> \<le> X * Y" unfolding abs_mult using a(2) b(2) abs_ge_zero [of x] by (intro mult_mono) linarith+
  with m have "\<bar>x * y\<bar> + (X * d + Y * e + e * d) \<le> m" by linarith
  from near_round [OF rd 1 this] show ?thesis by (simp add: f)
qed

lemmas near64 = near_add [OF accurate_rnd64] near_sub [OF accurate_rnd64] near_mul [OF accurate_rnd64]

section \<open>Squares and cubes\<close>

lemma square_eq: "f64_powi a 2 = fl_mul rnd64 (Fin 1) (fl_mul rnd64 a a)"
  by (simp add: f64_powi_def powi_loop.simps [of 2] powi_loop.simps [of 1] Let_def)

lemma near_powi:
  assumes "\<bar>y\<bar> \<le> 3"
  shows "near (f64_powi (Fin y) 2) (y ^ 2) (1 / 100000000)" and "near (f64_powi (Fin y) 3) (y ^ 3) (1 / 50000000)"
proof -
  have 0: "near (Fin z) z 0" for z by (simp add: near_Fin)
  have y2: "\<bar>y * y\<bar> \<le> 9" using mult_mono [OF assms assms] by (simp add: abs_mult)
  have sq: "near (fl_mul rnd64 (Fin y) (Fin y)) (y * y) (1 / 1000000000)"
    using near64(3) [OF 0 assms 0 assms] by simp
  have l: "near (fl_mul rnd64 (Fin 1) (Fin y)) y (1 / 1000000000)"
    using near64(3) [OF 0 _ 0 assms, of 1 1] by simp
  show "near (f64_powi (Fin y) 2) (y ^ 2) (1 / 100000000)"
    using near_weaken [OF near64(3) [OF 0 _ sq y2, of 1 1]] by (simp add: square_eq power2_eq_square)
  show "near (f64_powi (Fin y) 3) (y ^ 3) (1 / 50000000)"
    using near_weaken [OF near64(3) [OF l assms sq y2]] by (simp add: cube_eq power3_eq_cube mult.assoc)
qed

end
