(* ===== verification/Credit.thy ===== *)
theory Credit
  imports Feedback Rounding
begin

text \<open>
  What a report is worth when packets were lost.  The loss weight is the sum of the weights of the lost packets up
  to the rounding of \<open>f32\<close>, the polynomials of \<open>update_win\<close> are computed up to the rounding of \<open>f64\<close>, and a
  report is about eight packets at most; so the worth of every report lies between fixed bounds.
\<close>

section \<open>The polynomials\<close>

lemma near_coeff: "\<bar>c\<bar> \<le> 70 \<Longrightarrow> near (rnd64 c) c (1 / 1000000000)"
  using accurate_rnd64 by (simp add: accurate_def)

lemma near_terms:
  assumes y: "\<bar>y\<bar> \<le> 3" and c: "\<bar>c\<bar> \<le> 70"
  shows "near (fl_mul rnd64 (rnd64 c) (f64_powi (Fin y) 3)) (c * y ^ 3) (1 / 500000)"
    and "near (fl_mul rnd64 (rnd64 c) (f64_powi (Fin y) 2)) (c * y ^ 2) (1 / 500000)"
    and "near (fl_mul rnd64 (rnd64 c) (Fin y)) (c * y) (1 / 500000)"
proof -
  have p: "\<bar>y ^ 2\<bar> \<le> 9" "\<bar>y ^ 3\<bar> \<le> 27"
    using power_mono [OF y, of 2] power_mono [OF y, of 3] by (simp_all add: power_abs)
  have 0: "near (Fin y) y 0" by (simp add: near_Fin)
  note k = near_mul [OF accurate_rnd64 near_coeff [OF c] c]
  show "near (fl_mul rnd64 (rnd64 c) (f64_powi (Fin y) 3)) (c * y ^ 3) (1 / 500000)"
    using near_weaken [OF k [OF near_powi(2) [OF y] p(2)]] by simp
  show "near (fl_mul rnd64 (rnd64 c) (f64_powi (Fin y) 2)) (c * y ^ 2) (1 / 500000)"
    using near_weaken [OF k [OF near_powi(1) [OF y] p(1)]] by simp
  show "near (fl_mul rnd64 (rnd64 c) (Fin y)) (c * y) (1 / 500000)"
    using near_weaken [OF k [OF 0 y]] by simp
qed

text \<open>The two polynomials, exactly.\<close>

definition outer_poly :: "rat \<Rightarrow> rat" where
  "outer_poly y = - 2294 / 100 * y ^ 3 + 6583 / 100 * y ^ 2 - 5189 / 100 * y + 8"

definition inner_poly :: "rat \<Rightarrow> rat" where
  "inner_poly y = - 1587 / 10000 * y ^ 3 - 4658 / 10000 * y ^ 2 - 4538 / 10000 * y + 1535 / 10000"

lemma term_range:
  fixes y :: rat
  assumes "\<bar>y\<bar> \<le> 3" and "\<bar>c\<bar> \<le> 70"
  shows "\<bar>c * y\<bar> \<le> 1890" "\<bar>c * y ^ 2\<bar> \<le> 1890" "\<bar>c * y ^ 3\<bar> \<le> 1890"
proof -
  have "\<bar>y ^ 2\<bar> \<le> 9" "\<bar>y ^ 3\<bar> \<le> 27"
    using power_mono [OF assms(1), of 2] power_mono [OF assms(1), of 3] by (simp_all add: power_abs)
  then show "\<bar>c * y\<bar> \<le> 1890" "\<bar>c * y ^ 2\<bar> \<le> 1890" "\<bar>c * y ^ 3\<bar> \<le> 1890"
    unfolding abs_mult using assms mult_mono [of "\<bar>c\<bar>" 70 _ 27] by (auto intro: order_trans)
qed

lemma near_sum:
  assumes "near t3 x3 (1 / 500000)" "near t2 x2 (1 / 500000)" "near t1 x1 (1 / 500000)" "near t0 x0 (1 / 1000000000)"
    and "\<bar>x3\<bar> \<le> 1890" "\<bar>x2\<bar> \<le> 1890" "\<bar>x1\<bar> \<le> 1890" "\<bar>x0\<bar> \<le> 70"
  shows "near (fl_add rnd64 (fl_sub rnd64 (fl_add rnd64 t3 t2) t1) t0) (x3 + x2 - x1 + x0) (1 / 100000)"
proof -
  have 1: "near (fl_add rnd64 t3 t2) (x3 + x2) (1 / 200000)"
    by (rule near_weaken [OF near64(1) [OF assms(1,2)]]) (use assms(5,6) in \<open>linarith | simp\<close>)+
  have 2: "near (fl_sub rnd64 (fl_add rnd64 t3 t2) t1) (x3 + x2 - x1) (1 / 125000)"
    by (rule near_weaken [OF near64(2) [OF 1 assms(3)]]) (use assms(5-7) in \<open>linarith | simp\<close>)+
  show ?thesis
    by (rule near_weaken [OF near64(1) [OF 2 assms(4)]]) (use assms(5-8) in \<open>linarith | simp\<close>)+
qed

lemma outer_near:
  assumes y: "\<bar>y\<bar> \<le> 3"
  shows "near (fl_add rnd64 (fl_sub rnd64 (fl_add rnd64 (fl_mul rnd64 (rnd64 (- 2294 / 100)) (f64_powi (Fin y) 3))
      (fl_mul rnd64 (rnd64 (6583 / 100)) (f64_powi (Fin y) 2))) (fl_mul rnd64 (rnd64 (5189 / 100)) (Fin y))) (rnd64 8)) (outer_poly y) (1 / 100000)"
  unfolding outer_poly_def by (intro near_sum near_terms [OF y] near_coeff term_range [OF y]) simp_all

lemma inner_near:
  assumes y: "\<bar>y\<bar> \<le> 3"
  shows "near (fl_add rnd64 (fl_sub rnd64 (fl_sub rnd64 (fl_mul rnd64 (rnd64 (- 1587 / 10000)) (f64_powi (Fin y) 3))
      (fl_mul rnd64 (rnd64 (4658 / 10000)) (f64_powi (Fin y) 2))) (fl_mul rnd64 (rnd64 (4538 / 10000)) (Fin y))) (rnd64 (1535 / 10000)))
    (inner_poly y) (1 / 100000)"
proof -
  have "inner_poly y = - 1587 / 10000 * y ^ 3 + - (4658 / 10000 * y ^ 2) - 4538 / 10000 * y + 1535 / 10000"
    by (simp add: inner_poly_def)
  then show ?thesis
    unfolding fl_sub_def [of _ _ "fl_mul _ _ (f64_powi _ _)"] using term_range(2) [OF y, of "4658 / 10000"]
    by (simp only:, intro near_sum near_neg near_terms [OF y] near_coeff term_range [OF y]) simp_all
qed

text \<open>The polynomial of the source's case distinction on the weight.\<close>

definition worth_poly :: "rat \<Rightarrow> rat" where
  "worth_poly y = (if fl_lt (Fin y) (rnd32 (2 / 10)) \<or> fl_lt (rnd32 (18 / 10)) (Fin y) then outer_poly y else inner_poly y)"

lemma winadd_near:
  assumes y: "\<bar>y\<bar> \<le> 3" and p: "\<bar>worth_poly y\<bar> \<le> 100"
  shows "near (winadd_of (Fin y) 1200) (worth_poly y * 1200) (1 / 10)"
proof -
  let ?q = "if fl_lt (Fin y) (rnd32 (2 / 10)) \<or> fl_lt (rnd32 (18 / 10)) (Fin y)
    then fl_add rnd64 (fl_sub rnd64 (fl_add rnd64 (fl_mul rnd64 (rnd64 (- 2294 / 100)) (f64_powi (Fin y) 3))
        (fl_mul rnd64 (rnd64 (6583 / 100)) (f64_powi (Fin y) 2))) (fl_mul rnd64 (rnd64 (5189 / 100)) (Fin y))) (rnd64 8)
    else fl_add rnd64 (fl_sub rnd64 (fl_sub rnd64 (fl_mul rnd64 (rnd64 (- 1587 / 10000)) (f64_powi (Fin y) 3))
        (fl_mul rnd64 (rnd64 (4658 / 10000)) (f64_powi (Fin y) 2))) (fl_mul rnd64 (rnd64 (4538 / 10000)) (Fin y))) (rnd64 (1535 / 10000))"
  have q: "near ?q (worth_poly y) (1 / 100000)"
    using outer_near [OF y] inner_near [OF y] by (simp only: worth_poly_def split: if_split) blast
  have "near (Fin 1200) 1200 0" by (simp add: near_Fin)
  then have "near (fl_mul rnd64 ?q (Fin 1200)) (worth_poly y * 1200) (1 / 10)"
    by (intro near_weaken [OF near64(3) [OF q p, of _ 1200 0 1200]]) simp_all
  then show ?thesis unfolding winadd_of_def f64_of_nat_1200 Let_def .
qed

section \<open>Bounds\<close>

lemma fifth_bounds: "near (rnd32 (2 / 10)) (2 / 10) (1 / 1000000)" "near (rnd32 (18 / 10)) (18 / 10) (1 / 1000000)"
  using accurate_rnd32 by (simp_all add: accurate_def)

text \<open>Chords and tangents of the square and the cube.\<close>

lemma chords:
  fixes y :: rat
  assumes "l \<le> y" "y \<le> u" "0 \<le> l"
  shows "y ^ 2 \<le> (l + u) * y - l * u" "y ^ 3 \<le> (l + u) * y ^ 2 - l * u * y" "2 * l * y ^ 2 - l ^ 2 * y \<le> y ^ 3"
    "2 * l * y - l ^ 2 \<le> y ^ 2"
proof -
  have c: "0 \<le> (y - l) * (u - y)" using assms by simp
  then show "y ^ 2 \<le> (l + u) * y - l * u" by (simp add: algebra_simps power2_eq_square)
  have "0 \<le> y * ((y - l) * (u - y))" "0 \<le> y * (y - l)\<^sup>2" using assms c by (intro mult_nonneg_nonneg; simp)+
  then show "y ^ 3 \<le> (l + u) * y ^ 2 - l * u * y" "2 * l * y ^ 2 - l ^ 2 * y \<le> y ^ 3"
    by (simp_all add: algebra_simps power2_eq_square power3_eq_cube)
  have "0 \<le> (y - l)\<^sup>2" by simp
  then show "2 * l * y - l ^ 2 \<le> y ^ 2" by (simp add: algebra_simps power2_eq_square)
qed

lemma outer_low:
  assumes "1499 / 10000 \<le> y" "y \<le> 201 / 1000"
  shows "outer_poly y \<le> 1625 / 1000" "- 4 \<le> outer_poly y"
proof -
  have "(1499 / 10000) ^ 2 \<le> y ^ 2" "(1499 / 10000) ^ 3 \<le> y ^ 3" "y ^ 3 \<le> (201 / 1000) ^ 3" using assms by (auto intro!: power_mono)
  with chords(1) [OF assms] assms show "outer_poly y \<le> 1625 / 1000" "- 4 \<le> outer_poly y"
    unfolding outer_poly_def by (simp_all add: power_divide)
qed

lemma outer_high:
  assumes "1799 / 1000 \<le> y" "y \<le> 20001 / 10000"
  shows "outer_poly y \<le> 0" "- (15995 / 1000) \<le> outer_poly y"
proof -
  from chords [OF assms] show "outer_poly y \<le> 0" "- (15995 / 1000) \<le> outer_poly y"
    using assms unfolding outer_poly_def by (simp_all add: power_divide)
qed

lemma inner_mid:
  assumes "199 / 1000 \<le> y" "y \<le> 1801 / 1000"
  shows "inner_poly y \<le> 1 / 10" "- 4 \<le> inner_poly y"
proof -
  have "(199 / 1000) ^ 2 \<le> y ^ 2" "(199 / 1000) ^ 3 \<le> y ^ 3" "y ^ 2 \<le> (1801 / 1000) ^ 2" "y ^ 3 \<le> (1801 / 1000) ^ 3" using assms by (auto intro!: power_mono)
  then show "inner_poly y \<le> 1 / 10" "- 4 \<le> inner_poly y"
    using assms unfolding inner_poly_def by (simp_all add: power_divide)
qed

lemma worth_poly_bounds:
  assumes "1499 / 10000 \<le> y" "y \<le> 20001 / 10000"
  shows "worth_poly y \<le> 1625 / 1000" "- (15995 / 1000) \<le> worth_poly y"
proof -
  obtain l u where l: "rnd32 (2 / 10) = Fin l" "\<bar>l - 2 / 10\<bar> \<le> 1 / 1000000" and u: "rnd32 (18 / 10) = Fin u" "\<bar>u - 18 / 10\<bar> \<le> 1 / 1000000"
    using fifth_bounds unfolding near_def by blast
  have w: "worth_poly y = (if y < l \<or> u < y then outer_poly y else inner_poly y)"
    unfolding worth_poly_def l(1) u(1) by simp
  consider "y < l" | "l \<le> y" "y \<le> u" | "l \<le> y" "u < y" by linarith
  then have "worth_poly y \<le> 1625 / 1000 \<and> - (15995 / 1000) \<le> worth_poly y"
  proof cases
    case 1
    then have "y \<le> 201 / 1000" using l(2) by linarith
    with outer_low [OF assms(1)] 1 show ?thesis by (simp add: w)
  next
    case 2
    then have "199 / 1000 \<le> y" "y \<le> 1801 / 1000" using l(2) u(2) by linarith+
    from inner_mid [OF this] 2 show ?thesis by (simp add: w)
  next
    case 3
    then have "1799 / 1000 \<le> y" using u(2) by linarith
    from outer_high [OF this assms(2)] 3 show ?thesis by (simp add: w)
  qed
  then show "worth_poly y \<le> 1625 / 1000" "- (15995 / 1000) \<le> worth_poly y" by simp_all
qed

section \<open>The loss weight\<close>

text \<open>The weights without rounding: 0.15, 0.2 or 0.25 for each lost packet, by its priority.\<close>

definition exact_weight :: "nat \<Rightarrow> rat" where
  "exact_weight n = (if n = 1 then 15 / 100 else if n = 2 then 2 / 10 else 25 / 100)"

definition lost_sum :: "connection \<Rightarrow> (nat \<times> nat) list \<Rightarrow> rat" where
  "lost_sum c kps = (\<Sum>(k, p) \<leftarrow> kps. if p = 0 then 0 else exact_weight (prio_at c k))"

lemma exact_weight_bounds: "15 / 100 \<le> exact_weight n" "exact_weight n \<le> 25 / 100" "near (prio_weight n) (exact_weight n) (1 / 1000000)"
  using accurate_rnd32 by (simp_all add: exact_weight_def prio_weight_def accurate_def)

lemma lost_sum_bounds:
  "0 \<le> lost_sum c kps" "lost_sum c kps \<le> 25 / 100 * of_nat (length kps)"
  "\<exists>(k, p) \<in> set kps. p \<noteq> 0 \<Longrightarrow> 15 / 100 \<le> lost_sum c kps"
proof -
  show "0 \<le> lost_sum c kps" for kps unfolding lost_sum_def
    using exact_weight_bounds(1) by (intro sum_list_nonneg) (force intro: order_trans [of 0 "15 / 100"])
  note pos = this
  show "lost_sum c kps \<le> 25 / 100 * of_nat (length kps)"
  proof (induction kps)
    case (Cons kp kps)
    then show ?case using exact_weight_bounds(2) [of "prio_at c (fst kp)"] by (cases kp) (simp add: lost_sum_def algebra_simps)
  qed (simp add: lost_sum_def)
  show "15 / 100 \<le> lost_sum c kps" if "\<exists>(k, p) \<in> set kps. p \<noteq> 0"
    using that
  proof (induction kps)
    case (Cons kp kps)
    then show ?case
      using pos [of kps] exact_weight_bounds(1) [of "prio_at c (fst kp)"] by (cases kp) (fastforce simp: lost_sum_def)
  qed simp
qed

lemma loss_weight_near:
  assumes "near w x e" "0 \<le> x" "x + 25 / 100 * of_nat (length kps) \<le> 3" "e + of_nat (length kps) / 500000 \<le> 1 / 2"
  shows "near (loss_weight c kps w) (x + lost_sum c kps) (e + of_nat (length kps) / 500000)"
  using assms
proof (induction kps arbitrary: w x e)
  case Nil
  then show ?case by (simp add: lost_sum_def)
next
  case (Cons kp kps)
  obtain k p where kp: "kp = (k, p)" by (cases kp)
  note ew = exact_weight_bounds [of "prio_at c k"]
  show ?case
  proof (cases "p = 0")
    case True
    have "near (loss_weight c kps w) (x + lost_sum c kps) (e + of_nat (length kps) / 500000)"
      using Cons.prems by (intro Cons.IH) (simp_all add: add_divide_distrib)
    then show ?thesis using True by (auto elim!: near_weaken simp: kp lost_sum_def add_divide_distrib)
  next
    case False
    let ?x = "x + exact_weight (prio_at c k)"
    have "near (fl_add rnd32 w (prio_weight (prio_at c k))) ?x (e + 1 / 1000000 + 1 / 1000000)"
      using Cons.prems ew by (intro near_add [OF accurate_rnd32]) (simp_all add: abs_if add_divide_distrib)
    then have "near (loss_weight c kps (fl_add rnd32 w (prio_weight (prio_at c k)))) (?x + lost_sum c kps)
        (e + 1 / 1000000 + 1 / 1000000 + of_nat (length kps) / 500000)"
      using Cons.prems ew by (intro Cons.IH) (simp_all add: add_divide_distrib)
    then show ?thesis using False by (simp add: kp lost_sum_def add_divide_distrib add.assoc)
  qed
qed

section \<open>The worth of a report\<close>

lemma report_worth:
  fixes c :: connection
  assumes "length kps \<le> 8" and lost: "\<exists>(k, p) \<in> set kps. p \<noteq> 0"
  defines "w \<equiv> winadd_of (loss_weight c kps (Fin 0)) 1200"
  shows "gained w \<le> 1950" "forfeited w \<le> 19200"
proof -
  have "near (loss_weight c kps (Fin 0)) (0 + lost_sum c kps) (0 + of_nat (length kps) / 500000)"
    using assms(1) by (intro loss_weight_near) (simp_all add: near_Fin)
  then obtain y where y: "loss_weight c kps (Fin 0) = Fin y" "\<bar>y - lost_sum c kps\<bar> \<le> of_nat (length kps) / 500000"
    by (auto simp: near_def)
  have n: "of_nat (length kps) \<le> (8 :: rat)" using assms(1) by simp
  have b: "1499 / 10000 \<le> y" "y \<le> 20001 / 10000"
    using lost_sum_bounds(3) [OF lost, of c] lost_sum_bounds(2) [of c kps] y(2) n by (simp_all add: abs_if split: if_splits)
  note p = worth_poly_bounds [OF b]
  have "near w (worth_poly y * 1200) (1 / 10)" unfolding w_def y(1) using b p by (intro winadd_near) simp_all
  then obtain z where z: "w = Fin z" "\<bar>z - worth_poly y * 1200\<bar> \<le> 1 / 10" by (auto simp: near_def)
  have "z < 1951" "- z < 19201" using z(2) p by (simp_all add: abs_if split: if_splits)
  then have "nat \<lfloor>z\<rfloor> \<le> 1950" "nat \<lfloor>- z\<rfloor> \<le> 19200" by linarith+
  then show "gained w \<le> 1950" "forfeited w \<le> 19200"
    unfolding gained_def forfeited_def z(1) by (simp_all add: min_le_iff_disj)
qed

lemma no_loss_weight: "\<forall>(k, v) \<in> set kps. v = 0 \<Longrightarrow> loss_weight c kps w = w"
  by (induction kps) auto

definition credited :: "recovery \<Rightarrow> nat \<Rightarrow> nat \<Rightarrow> bool \<Rightarrow> recovery" where
  "credited r i d f = r\<lparr>incre_win := incre_win r + i, decre_win := decre_win r + d, roll_back_flag := f\<rparr>"

lemma report_credit:
  assumes mds: "max_datagram_size r = 1200" and kps: "length kps \<le> 8"
    and room: "incre_win r + 9600 < lim64" "decre_win r + 19200 < lim64"
  shows "\<exists>i d f. update_win (loss_weight c kps (Fin 0)) n r = Some (credited r i d f) \<and>
     (if \<exists>(k, p) \<in> set kps. p \<noteq> 0 then i \<le> 1950 \<and> d \<le> 19200 else i = 9600 \<and> d = 0)"
proof -
  let ?x = "winadd_of (loss_weight c kps (Fin 0)) 1200"
  have w: "if \<exists>(k, p) \<in> set kps. p \<noteq> 0 then gained ?x \<le> 1950 \<and> forfeited ?x \<le> 19200 else gained ?x = 9600 \<and> forfeited ?x = 0"
  proof (cases "\<exists>(k, p) \<in> set kps. p \<noteq> 0")
    case True
    then show ?thesis using report_worth [OF kps True, of c] by simp
  next
    case False
    then have "loss_weight c kps (Fin 0) = Fin 0" by (intro no_loss_weight) auto
    then have "?x = Fin 9600" by (simp only: winadd_no_loss)
    then show ?thesis unfolding if_not_P [OF False] by (simp add: gained_def forfeited_def)
  qed
  then have le: "gained ?x \<le> 9600" "forfeited ?x \<le> 19200" by (simp_all split: if_splits)
  let ?f = "roll_back_flag r \<or> \<not> fl_eq ?x n"
  have "update_win (loss_weight c kps (Fin 0)) n r = Some (credited r (gained ?x) (forfeited ?x) ?f)"
  proof (cases "fl_lt (Fin 0) ?x")
    case True
    then have "forfeited ?x = 0" by (simp add: forfeited_def)
    then show ?thesis using True mds room le by (cases r) (simp add: update_win_counters Let_def credited_def add64_def chk64_def)
  next
    case False
    then have "gained ?x = 0" by (simp add: gained_def)
    then show ?thesis using False mds room le by (cases r) (simp add: update_win_counters Let_def credited_def add64_def chk64_def)
  qed
  with w show ?thesis by blast
qed

text \<open>
  (C20) What an acknowledgement does, whatever it reports.  An \<open>ACK\<close> on at most eight packets, whose offsets have norms, is
  processed without a panic when the counters have room.  It marks exactly the queued chunks that it lists as received, and
  those that it lists and that may not be sent again; it counts the lost packets of the highest priority; and in
  spite of the roundings in the weights and in the polynomials, it credits 9600 bytes if nothing was lost, and otherwise
  at most 1950 bytes, and costs at most 19200.
\<close>

theorem process_ack_outcome:
  assumes "length hb = 26" and kps: "u64_pairs kps" "length kps \<le> 8" "\<forall>(k, p) \<in> set kps. k div 1024 < length (norm2_vec c)"
    and "sb_inv (send_buffer c)" and hp: "high_priority c + 8 < lim64" and mds: "max_datagram_size (recovery_of c) = 1200"
    and room: "incre_win (recovery_of c) + 9600 < lim64" "decre_win (recovery_of c) + 19200 < lim64"
  shows "\<exists>c' i d. process_ack (hb @ to_be_bytes m @ bytes_of (flatten_pairs kps)) c = Some c' \<and>
     sb_view (send_buffer c') = sb_view (send_buffer c) \<and>
     sb_acked (send_buffer c') = sb_acked (send_buffer c) \<union>
       {k \<in> fst ` set (sb_view (send_buffer c)). \<exists>p. (k, p) \<in> set kps \<and> (p = 0 \<or> hm_get (sent_dic c) k = Some 0)} \<and>
     high_priority c' = high_priority c + length (filter (\<lambda>(k, p). p \<noteq> 0 \<and> prio_at c k = 3) kps) \<and>
     incre_win (recovery_of c') = incre_win (recovery_of c) + i \<and> decre_win (recovery_of c') = decre_win (recovery_of c) + d \<and>
     (if \<exists>(k, p) \<in> set kps. p \<noteq> 0 then i \<le> 1950 \<and> d \<le> 19200 else i = 9600 \<and> d = 0)"
proof -
  let ?n = "f64_of_nat ((8 + 16 * length kps) div 16)"
  obtain i d f where u: "update_win (loss_weight c kps (Fin 0)) ?n (recovery_of c) = Some (credited (recovery_of c) i d f)"
    and w: "if \<exists>(k, p) \<in> set kps. p \<noteq> 0 then i \<le> 1950 \<and> d \<le> 19200 else i = 9600 \<and> d = 0"
    using report_credit [OF mds kps(2) room] by blast
  define c' where "c' = c\<lparr>max_off := max (max_off c) (unat m), recovery_of := credited (recovery_of c) i d f,
      send_buffer := fold ack_and_drop (acked_by (sent_dic c) kps) (send_buffer c), high_priority := high_priority c + lost_high c kps\<rparr>"
  have "high_priority c + length kps < lim64" using hp kps(2) by simp
  then have "process_ack (hb @ to_be_bytes m @ bytes_of (flatten_pairs kps)) c = Some c'"
    using process_ack_eq [OF assms(1) kps(1,3), of m] unfolding u by (simp add: c'_def)
  moreover have "sb_acked (send_buffer c') = sb_acked (send_buffer c) \<union>
       {k \<in> fst ` set (sb_view (send_buffer c)). \<exists>p. (k, p) \<in> set kps \<and> (p = 0 \<or> hm_get (sent_dic c) k = Some 0)}"
    using sb_acked_fold [OF assms(5), of "acked_by (sent_dic c) kps"] unfolding acked_by_set by (auto simp: c'_def)
  moreover have "sb_view (send_buffer c') = sb_view (send_buffer c)"
    "high_priority c' = high_priority c + length (filter (\<lambda>(k, p). p \<noteq> 0 \<and> prio_at c k = 3) kps)"
    "incre_win (recovery_of c') = incre_win (recovery_of c) + i" "decre_win (recovery_of c') = decre_win (recovery_of c) + d"
    by (simp_all add: c'_def credited_def lost_high_def)
  ultimately show ?thesis using w by (intro exI [of _ c'] exI [of _ i] exI [of _ d] conjI)
qed

theorem process_ack_outcome_witness:
  "\<exists>c' i d. process_ack (replicate 26 0 @ to_be_bytes 0 @ bytes_of (flatten_pairs [(0, 1), (7, 0)])) demo_open = Some c' \<and>
     incre_win (recovery_of c') = i \<and> decre_win (recovery_of c') = d \<and> i \<le> 1950 \<and> d \<le> 19200"
proof -
  have sb: "sb_inv (send_buffer demo_open)" using snd_inv_loaded [of "[1, 2, 3]"] by (simp add: snd_inv_def demo_open_def)
  have h: "length (replicate 26 0 :: bytes) = 26" "u64_pairs [(0, 1), (7, 0)]" "length [(0, 1), (7, 0)] \<le> 8"
    "\<forall>(k, p) \<in> set [(0, 1), (7, 0)]. k div 1024 < length (norm2_vec demo_open)" by simp_all
  have r: "high_priority demo_open + 8 < lim64" "max_datagram_size (recovery_of demo_open) = 1200"
    "incre_win (recovery_of demo_open) + 9600 < lim64" "decre_win (recovery_of demo_open) + 19200 < lim64"
    by (simp_all add: fresh_recovery_def)
  obtain c' i d where c: "process_ack (replicate 26 0 @ to_be_bytes 0 @ bytes_of (flatten_pairs [(0, 1), (7, 0)])) demo_open = Some c'"
    "incre_win (recovery_of c') = incre_win (recovery_of demo_open) + i" "decre_win (recovery_of c') = decre_win (recovery_of demo_open) + d"
    "if \<exists>(k, p) \<in> set [(0 :: nat, 1 :: nat), (7, 0)]. p \<noteq> 0 then i \<le> 1950 \<and> d \<le> 19200 else i = 9600 \<and> d = 0"
    using process_ack_outcome [OF h sb r, of 0] by (elim exE conjE) (rule that)
  have "incre_win (recovery_of c') = i" "decre_win (recovery_of c') = d" "i \<le> 1950" "d \<le> 19200"
    using c(2-4) by (simp_all add: fresh_recovery_def)
  with c(1) show ?thesis by blast
qed

end
