(* ===== verification/Exchange.thy ===== *)
theory Exchange
  imports Credit
begin

text \<open>
  A sending round over a network that loses some of its chunks: the sender's datagrams arrive one after the other,
  except the application packets for the offsets in \<open>L\<close>, and a receiver that asks to answer is asked for its answer at
  once, which arrives before the next datagram is sent.  The round ends; what arrived is acknowledged and delivered, what
  was lost is acknowledged only if it may not be sent again, and the rest stays in the queue.
\<close>

section \<open>A chunk\<close>

lemma relay_chunk:
  assumes oc: "octets_spec oc" and b: "waiting b" and rc: "recv_count b + 2 < lim64"
    and ch: "off + length ch < lim64" and arrives: "off \<notin> L"
    and s: "Connection_send_data oc iter now out a = Some (Ok (26 + length ch, info),
        encode_header (app_header a off (length ch)) @ ch @ rest, a')"
  shows "\<exists>b'. relay_step L oc iter now out (a, b) = Some (a', b') \<and> waiting b' \<and> recv_count b' = recv_count b + 2 \<and>
     recv_dic b' = hm_insert off (of_nat (prio_at a off)) (recv_dic b) \<and>
     rv_data (rec_buffer b') = bt_insert (off + length ch) (RangeBuf_from ch off) (rv_data (rec_buffer b))"
proof -
  let ?p = "encode_header (app_header a off (length ch)) @ ch"
  let ?h = "decode_header ?p" and ?b = "b\<lparr>recv_count := recv_count b + 1\<rparr>"
  have h: "?h = app_header a off (length ch)" by (simp add: decode_encode_header app_header_def)
  have off: "unat (hdr_offset ?h) = off" "hdr_ty ?h = Application" "hdr_priority ?h = of_nat (prio_at a off)"
    unfolding h using ch by (simp_all add: app_header_def)
  obtain m where w: "RecvBuf_write ch off (rec_buffer b) = Some (Ok (), (rec_buffer b)\<lparr>max_recv_off := m,
      rv_data := bt_insert (off + length ch) (RangeBuf_from ch off) (rv_data (rec_buffer b))\<rparr>)"
    using RecvBuf_write_spec [OF ch] by blast
  define b' where "b' = b\<lparr>recv_count := recv_count b + 2, rec_buffer := (rec_buffer b)\<lparr>max_recv_off := m,
      rv_data := bt_insert (off + length ch) (RangeBuf_from ch off) (rv_data (rec_buffer b))\<rparr>,
      recv_dic := hm_insert off (of_nat (prio_at a off)) (recv_dic b)\<rparr>"
  have "recv_slice oc now ?p b = recv_dispatch oc now ?h ?p ?b"
    using octets_spec.recv_slice_eq [OF oc, of ?p b now] rc by simp
  also have "\<dots> = Some (Ok (unat (hdr_pkt_length ?h)), b')"
    using rc w by (simp add: dispatch_Application [OF off(2)] recv_application_eq off b'_def)
  finally have r: "recv_slice oc now ?p b = Some (Ok (unat (hdr_pkt_length ?h)), b')" .
  have w': "waiting b'" "recv_count b' = recv_count b + 2" "recv_dic b' = hm_insert off (of_nat (prio_at a off)) (recv_dic b)"
    "rv_data (rec_buffer b') = bt_insert (off + length ch) (RangeBuf_from ch off) (rv_data (rec_buffer b))"
    using b by (simp_all add: waiting_def b'_def bt_wf_insert)
  have "relay_step L oc iter now out (a, b) = Some (a', b')"
    using s r w'(1) off(1) arrives by (simp add: relay_step_def send_ack_def waiting_def lost_in_def)
  with w' show ?thesis by blast
qed

lemma relay_lost_chunk:
  assumes ch: "off + length ch < lim64" and lost: "off \<in> L"
    and s: "Connection_send_data oc iter now out a = Some (Ok (26 + length ch, info),
        encode_header (app_header a off (length ch)) @ ch @ rest, a')"
  shows "relay_step L oc iter now out (a, b) = Some (a', b)"
  using assms by (simp add: relay_step_def lost_in_def decode_encode_header app_header_def)

section \<open>A report\<close>

text \<open>A chunk that needs no more sending: it arrived, or it may not be sent again.\<close>

definition settled :: "connection \<Rightarrow> connection \<Rightarrow> nat \<Rightarrow> bool" where
  "settled a b k \<longleftrightarrow> k \<in> dom (hm_get (recv_dic b)) \<or> hm_get (sent_dic a) k = Some 0"

definition after_report :: "connection \<Rightarrow> connection \<Rightarrow> connection \<Rightarrow> bool" where
  "after_report a b a' \<longleftrightarrow> (\<exists>kps mo i d f. a' = after_feedback a kps mo (credited (recovery_of a) i d f) \<and>
     set kps = reported (recv_dic b) (unreported a) \<and> length kps \<le> 8 \<and> i \<le> 9600 \<and> d \<le> 19200 \<and>
     (set (unreported a) \<subseteq> dom (hm_get (recv_dic b)) \<longrightarrow> d = 0))"

lemma relay_report:
  assumes oc: "octets_spec oc" and it: "iterates iter" and b: "waiting b" and rcb: "recv_count b + 1 < lim64"
    and out: "1350 \<le> length out" and inv: "snd_inv a" and ty: "write_pkt_type a = (Ok ElictAck, c1)"
    and pn: "next_pkt_num (snd (pkt_num_spaces a)) + 1 < lim64"
    and srv: "is_server a" and rca: "recv_count a + 1 < lim64" and hp: "high_priority a + 8 < lim64"
    and mds: "max_datagram_size (recovery_of a) = 1200"
    and iw: "incre_win (recovery_of a) + 9600 < lim64" "decre_win (recovery_of a) + 19200 < lim64"
    and us: "\<forall>k \<in> set (unreported a). k < lim64 \<and> k div 1024 < length (norm2_vec a)"
  shows "\<exists>a' b'. relay_step L oc iter now out (a, b) = Some (a', b') \<and> after_report a b a' \<and>
     waiting b' \<and> recv_count b' = recv_count b + 1 \<and> recv_dic b' = recv_dic b \<and> rec_buffer b' = rec_buffer b"
proof -
  obtain kps mo b' where kps: "set kps = reported (recv_dic b) (unreported a)" "length kps \<le> 8"
    and s: "relay_step L oc iter now out (a, b) = map_option (\<lambda>r. (after_feedback a kps mo r, b'))
      (update_win (loss_weight a kps (Fin 0)) (f64_of_nat ((8 + 16 * length kps) div 16)) (recovery_of a))"
    and b': "waiting b'" "recv_count b' = recv_count b + 1" "recv_dic b' = recv_dic b" "rec_buffer b' = rec_buffer b"
    using report_exchange [OF oc it b rcb out inv ty pn srv rca hp us, of L now] by blast
  obtain i d f where u: "update_win (loss_weight a kps (Fin 0)) (f64_of_nat ((8 + 16 * length kps) div 16)) (recovery_of a) =
      Some (credited (recovery_of a) i d f)" and w: "if \<exists>(k, p) \<in> set kps. p \<noteq> 0 then i \<le> 1950 \<and> d \<le> 19200 else i = 9600 \<and> d = 0"
    using report_credit [OF mds kps(2) iw] by blast
  have "i \<le> 9600" "d \<le> 19200" using w by (simp_all split: if_splits)
  moreover have "d = 0" if "set (unreported a) \<subseteq> dom (hm_get (recv_dic b))"
  proof -
    have "\<not> (\<exists>(k, p) \<in> set kps. p \<noteq> 0)" using that by (auto simp: kps(1) reported_def)
    then show ?thesis using w by simp
  qed
  ultimately have "after_report a b (after_feedback a kps mo (credited (recovery_of a) i d f))" using kps unfolding after_report_def by blast
  moreover have "relay_step L oc iter now out (a, b) = Some (after_feedback a kps mo (credited (recovery_of a) i d f), b')"
    unfolding s u by simp
  ultimately show ?thesis using b' by blast
qed

text \<open>What the sender looks like afterwards.\<close>

lemma fold_ack_frame: "\<exists>m. fold ack_and_drop ks s = s\<lparr>offset_recv := m\<rparr>"
proof (induction ks arbitrary: s)
  case Nil
  have "fold ack_and_drop [] s = s\<lparr>offset_recv := offset_recv s\<rparr>" by simp
  then show ?case by blast
next
  case (Cons k ks)
  obtain m where "fold ack_and_drop ks (ack_and_drop k s) = (ack_and_drop k s)\<lparr>offset_recv := m\<rparr>" using Cons.IH by blast
  then have "fold ack_and_drop (k # ks) s = s\<lparr>offset_recv := m\<rparr>" by (simp add: ack_and_drop_def)
  then show ?case by blast
qed

lemma lost_high_le: "lost_high c kps \<le> length kps"
  by (simp add: lost_high_def)

lemma after_report_facts:
  assumes "after_report a b a'" and sb: "sb_inv (send_buffer a)"
  shows "rtt a' = rtt a" "is_server a' = is_server a" "recv_flag a' = recv_flag a" "stop_flag a' = stop_flag a"
    "stop_ack a' = (stop_flag a \<or> stop_ack a)" "norm2_vec a' = norm2_vec a" "sent_number a' = sent_number a" "sent_dic a' = sent_dic a"
    "written_data a' = written_data a" "data_to_send a' = data_to_send a" "sent_count a' = 0" "unreported a' = []"
    "fst (pkt_num_spaces a') = fst (pkt_num_spaces a)" "next_pkt_num (snd (pkt_num_spaces a')) = next_pkt_num (snd (pkt_num_spaces a)) + 1"
    "recv_count a' = recv_count a + 1" "max_datagram_size (recovery_of a') = max_datagram_size (recovery_of a)"
    "incre_win (recovery_of a') \<le> incre_win (recovery_of a) + 9600" "decre_win (recovery_of a') \<le> decre_win (recovery_of a) + 19200"
    "high_priority a' \<le> high_priority a + 8"
    "set (unreported a) \<subseteq> dom (hm_get (recv_dic b)) \<Longrightarrow> high_priority a' = high_priority a \<and> decre_win (recovery_of a') = decre_win (recovery_of a)"
    "sb_acked (send_buffer a') = sb_acked (send_buffer a) \<union> {k \<in> set (unreported a) \<inter> fst ` set (sb_view (send_buffer a)). settled a b k}"
    "\<exists>m. send_buffer a' = (send_buffer a)\<lparr>offset_recv := m\<rparr>"
    "sb_inv (send_buffer a')" "sb_view (send_buffer a') = sb_view (send_buffer a)"
proof -
  obtain kps mo i d f where a': "a' = after_feedback a kps mo (credited (recovery_of a) i d f)"
    and kps: "set kps = reported (recv_dic b) (unreported a)" "length kps \<le> 8" and i: "i \<le> 9600" "d \<le> 19200"
    and none: "set (unreported a) \<subseteq> dom (hm_get (recv_dic b)) \<longrightarrow> d = 0"
    using assms(1) unfolding after_report_def by blast
  show "rtt a' = rtt a" "is_server a' = is_server a" "recv_flag a' = recv_flag a" "stop_flag a' = stop_flag a"
    "stop_ack a' = (stop_flag a \<or> stop_ack a)" "norm2_vec a' = norm2_vec a" "sent_number a' = sent_number a" "sent_dic a' = sent_dic a"
    "written_data a' = written_data a" "data_to_send a' = data_to_send a" "sent_count a' = 0" "unreported a' = []"
    "fst (pkt_num_spaces a') = fst (pkt_num_spaces a)" "next_pkt_num (snd (pkt_num_spaces a')) = next_pkt_num (snd (pkt_num_spaces a)) + 1"
    "recv_count a' = recv_count a + 1" "max_datagram_size (recovery_of a') = max_datagram_size (recovery_of a)"
    "incre_win (recovery_of a') \<le> incre_win (recovery_of a) + 9600" "decre_win (recovery_of a') \<le> decre_win (recovery_of a) + 19200"
    "high_priority a' \<le> high_priority a + 8"
    using i lost_high_le [of a kps] kps(2) by (simp_all add: a' after_feedback_def after_elict_def credited_def unreported_def)
  show "high_priority a' = high_priority a \<and> decre_win (recovery_of a') = decre_win (recovery_of a)"
    if "set (unreported a) \<subseteq> dom (hm_get (recv_dic b))"
  proof -
    have "lost_high a kps = 0" using that by (auto simp: lost_high_def filter_empty_conv kps(1) reported_def)
    then show ?thesis using none that by (simp add: a' after_feedback_def credited_def)
  qed
  have ks: "set (acked_by (sent_dic a) kps) = {k \<in> set (unreported a). settled a b k}"
  proof (rule set_eqI)
    fix k
    show "k \<in> set (acked_by (sent_dic a) kps) \<longleftrightarrow> k \<in> {k \<in> set (unreported a). settled a b k}"
      unfolding acked_by_set kps(1) by (cases "k \<in> dom (hm_get (recv_dic b))") (simp_all add: in_reported settled_def)
  qed
  show "sb_acked (send_buffer a') = sb_acked (send_buffer a) \<union> {k \<in> set (unreported a) \<inter> fst ` set (sb_view (send_buffer a)). settled a b k}"
    using sb_acked_fold [OF sb] ks by (auto simp: a' after_feedback_def)
  show "\<exists>m. send_buffer a' = (send_buffer a)\<lparr>offset_recv := m\<rparr>" "sb_inv (send_buffer a')" "sb_view (send_buffer a') = sb_view (send_buffer a)"
    using fold_ack_frame [of "acked_by (sent_dic a) kps" "send_buffer a"] fold_ack_inv [OF sb] by (simp_all add: a' after_feedback_def)
qed

section \<open>The round\<close>

text \<open>
  What a stretch of a round that sends the offsets \<open>os\<close> achieves.  The receiver holds the chunks at these offsets that
  are not in \<open>L\<close>, and what it held before unless a chunk of the queue ends at the same place; the sender's queue is the
  same, and what is marked, or will be by the next report, has grown by the settled ones of \<open>os\<close>.
\<close>

definition holds :: "connection \<Rightarrow> nat \<times> bytes \<Rightarrow> bool" where
  "holds b x \<longleftrightarrow> bt_get (rv_data (rec_buffer b)) (fst x + length (snd x)) = Some (RangeBuf_from (snd x) (fst x))"

definition marks :: "connection \<Rightarrow> connection \<Rightarrow> nat set" where
  "marks a b = sb_acked (send_buffer a) \<union> {k \<in> set (unreported a) \<inter> fst ` set (sb_view (send_buffer a)). settled a b k}"

definition apart :: "(nat \<times> bytes) list \<Rightarrow> nat \<times> bytes \<Rightarrow> bool" where
  "apart v x \<longleftrightarrow> (\<forall>y \<in> set v. fst y + length (snd y) = fst x + length (snd x) \<longrightarrow> y = x)"

definition kept :: "connection \<Rightarrow> connection \<Rightarrow> bool" where
  "kept a a' \<longleftrightarrow> sb_view (send_buffer a') = sb_view (send_buffer a) \<and> rtt a' = rtt a \<and> is_server a' = is_server a \<and>
     recv_flag a' = recv_flag a \<and> written_data a' = written_data a \<and> data_to_send a' = data_to_send a \<and>
     norm2_vec a' = norm2_vec a"

text \<open>Without losses nothing is counted as lost.\<close>

definition clean :: "nat set \<Rightarrow> connection \<Rightarrow> connection \<Rightarrow> bool" where
  "clean L a b \<longleftrightarrow> L = {} \<and> set (unreported a) \<subseteq> dom (hm_get (recv_dic b))"

text \<open>How often a chunk may still be sent, at most.\<close>

definition sends_left :: "connection \<Rightarrow> nat \<Rightarrow> nat" where
  "sends_left a k = (case hm_get (sent_dic a) k of None \<Rightarrow> 4 | Some x \<Rightarrow> x)"

definition progressed :: "nat set \<Rightarrow> connection \<Rightarrow> connection \<Rightarrow> nat set \<Rightarrow> connection \<Rightarrow> connection \<Rightarrow> bool" where
  "progressed L a b os a' b' \<longleftrightarrow> waiting b' \<and> kept a a' \<and> dom (hm_get (sent_dic a')) = dom (hm_get (sent_dic a)) \<union> os \<and>
     (\<forall>k. k \<notin> os \<longrightarrow> hm_get (sent_dic a') k = hm_get (sent_dic a) k) \<and>
     dom (hm_get (recv_dic b')) = dom (hm_get (recv_dic b)) \<union> (os - L) \<and>
     (\<forall>x \<in> set (sb_view (send_buffer a)). fst x \<in> os - L \<longrightarrow> holds b' x) \<and>
     (\<forall>x. holds b x \<and> apart (sb_view (send_buffer a)) x \<longrightarrow> holds b' x) \<and> marks a' b' = marks a b \<union> {k \<in> os. settled a' b' k} \<and>
     (clean L a b \<longrightarrow> clean L a' b' \<and> high_priority a' = high_priority a \<and> decre_win (recovery_of a') = decre_win (recovery_of a)) \<and>
     (\<forall>k \<in> os. sends_left a' k < sends_left a k)"

lemma chunk_ends_differ:
  assumes "sb_inv s" and "x \<in> set (sb_view s)" and "y \<in> set (sb_view s)" and "fst x + length (snd x) = fst y + length (snd y)"
  shows "x = y"
proof -
  obtain i j where i: "i < length (sb_data s)" "x = sb_view s ! i" and j: "j < length (sb_data s)" "y = sb_view s ! j"
    using assms(2,3) by (metis in_set_conv_nth length_sb_view)
  have ok: "chunk_ok (sb_off s) (sb_data s ! i)" "chunk_ok (sb_off s) (sb_data s ! j)" and so: "sorted_wrt before (sb_data s)"
    using assms(1) i(1) j(1) by (simp_all add: sb_inv_def)
  consider "i = j" | "i < j" | "j < i" by linarith
  then show ?thesis
  proof cases
    case 2
    then show ?thesis
      using sorted_wrt_nth_less [OF so 2] j(1) ok assms(4) i j by (simp add: before_def chunk_ok_def sb_view_nth)
  next
    case 3
    then show ?thesis
      using sorted_wrt_nth_less [OF so 3] i(1) ok assms(4) i j by (simp add: before_def chunk_ok_def sb_view_nth)
  qed (use i j in simp)
qed

lemma apart_view: "sb_inv s \<Longrightarrow> x \<in> set (sb_view s) \<Longrightarrow> apart (sb_view s) x"
  unfolding apart_def using chunk_ends_differ by blast

lemma progressedD:
  assumes "progressed L a b os a' b'"
  shows "waiting b'" "kept a a'" "dom (hm_get (sent_dic a')) = dom (hm_get (sent_dic a)) \<union> os"
    "\<forall>k. k \<notin> os \<longrightarrow> hm_get (sent_dic a') k = hm_get (sent_dic a) k"
    "dom (hm_get (recv_dic b')) = dom (hm_get (recv_dic b)) \<union> (os - L)"
    "\<forall>x \<in> set (sb_view (send_buffer a)). fst x \<in> os - L \<longrightarrow> holds b' x"
    "\<forall>x. holds b x \<and> apart (sb_view (send_buffer a)) x \<longrightarrow> holds b' x"
    "marks a' b' = marks a b \<union> {k \<in> os. settled a' b' k}"
    "clean L a b \<longrightarrow> clean L a' b' \<and> high_priority a' = high_priority a \<and> decre_win (recovery_of a') = decre_win (recovery_of a)"
    "\<forall>k \<in> os. sends_left a' k < sends_left a k"
  using assms unfolding progressed_def by - (elim conjE, assumption)+

lemma settled_later:
  assumes "progressed L a b os a' b'" and "k \<notin> os"
  shows "settled a' b' k \<longleftrightarrow> settled a b k"
  using progressedD(4) [OF assms(1)] assms(2) unfolding settled_def progressedD(5) [OF assms(1)] by simp

lemma progressed_trans:
  assumes "sb_inv (send_buffer a)" and "progressed L a b os a1 b1" and "progressed L a1 b1 os' a2 b2" and disj: "os \<inter> os' = {}"
  shows "progressed L a b (os \<union> os') a2 b2"
proof -
  note p = progressedD [OF assms(2)] and q = progressedD [OF assms(3)]
  have k: "kept a a2" and v: "sb_view (send_buffer a1) = sb_view (send_buffer a)" using p(2) q(2) by (simp_all add: kept_def)
  have h: "holds b2 x" if "x \<in> set (sb_view (send_buffer a))" "fst x \<in> os \<union> os' - L" for x
    using that p(6) q(6,7) apart_view [OF assms(1) that(1)] unfolding v by blast
  have h': "holds b2 x" if "holds b x" "apart (sb_view (send_buffer a)) x" for x
    using that p(7) q(7) unfolding v by blast
  have "{k \<in> os. settled a1 b1 k} = {k \<in> os. settled a2 b2 k}" using settled_later [OF assms(3)] disj by blast
  then have m: "marks a2 b2 = marks a b \<union> {k \<in> os \<union> os'. settled a2 b2 k}" unfolding q(8) p(8) by blast
  have s: "hm_get (sent_dic a2) k = hm_get (sent_dic a) k" if "k \<notin> os \<union> os'" for k
    using that p(4) q(4) by simp
  have d: "dom (hm_get (sent_dic a2)) = dom (hm_get (sent_dic a)) \<union> (os \<union> os')"
    "dom (hm_get (recv_dic b2)) = dom (hm_get (recv_dic b)) \<union> (os \<union> os' - L)"
    unfolding q(3,5) p(3,5) by blast+
  have l: "sends_left a2 k < sends_left a k" if "k \<in> os \<union> os'" for k
    using that disj p(4,10) q(4,10) by (cases "k \<in> os") (auto simp: sends_left_def)
  show ?thesis
    unfolding progressed_def using q(1) k d s h h' m p(9) q(9) l by simp
qed

text \<open>The state between two datagrams of a round, with room in the counters for the rest of it.\<close>

definition report_ok :: "connection \<Rightarrow> bool" where
  "report_ok a \<longleftrightarrow> (\<forall>k \<in> set (unreported a). k < lim64 \<and> k div 1024 < length (norm2_vec a))"

definition room :: "connection \<Rightarrow> connection \<Rightarrow> nat \<Rightarrow> nat \<Rightarrow> bool" where
  "room a b n m \<longleftrightarrow> max_datagram_size (recovery_of a) = 1200 \<and> high_priority a + 8 * m < lim64 \<and>
     2 * (incre_win (recovery_of a) + 9600 * m) < lim64 \<and> decre_win (recovery_of a) + 19200 * m < lim64 \<and> recv_count a + m < lim64 \<and> recv_count b + 2 * n + m < lim64 \<and>
     next_pkt_num (fst (pkt_num_spaces a)) + n < lim64 \<and> next_pkt_num (snd (pkt_num_spaces a)) + m < lim64"

lemma room_mono: "room a b n m \<Longrightarrow> n' \<le> n \<Longrightarrow> m' \<le> m \<Longrightarrow> room a b n' m'"
  by (simp add: room_def)

text \<open>A report leaves the sender where it was, with one report less to come.\<close>

lemma report_turn:
  assumes oc: "octets_spec oc" and it: "iterates iter" and out: "1350 \<le> length out"
    and inv: "snd_inv a" and ty: "write_pkt_type a = (Ok ElictAck, c1)" and srv: "is_server a"
    and pn: "next_pkt_num (snd (pkt_num_spaces a)) + 1 < lim64"
    and b: "waiting b" and rm: "room a b n (Suc m)" and ok: "report_ok a"
  shows "\<exists>a' b'. relay_step L oc iter now out (a, b) = Some (a', b') \<and> after_report a b a' \<and>
     progressed L a b {} a' b' \<and> room a' b' n m"
proof -
  have sb: "sb_inv (send_buffer a)" using inv by (simp add: snd_inv_def)
  have "recv_count b + 1 < lim64" "recv_count a + 1 < lim64" "high_priority a + 8 < lim64" "max_datagram_size (recovery_of a) = 1200"
    "incre_win (recovery_of a) + 9600 < lim64" "decre_win (recovery_of a) + 19200 < lim64"
    using rm by (simp_all add: room_def)
  from relay_report [OF oc it b this(1) out inv ty pn srv this(2-6) ok [unfolded report_ok_def], of L now]
  obtain a' b' where s: "relay_step L oc iter now out (a, b) = Some (a', b')" and a': "after_report a b a'"
    and b': "waiting b'" "recv_count b' = recv_count b + 1" "recv_dic b' = recv_dic b" "rec_buffer b' = rec_buffer b"
    by blast
  note f = after_report_facts [OF a' sb]
  have "marks a' b' = marks a b" by (simp add: marks_def f)
  then have "progressed L a b {} a' b'"
    using b' f(20) by (simp add: progressed_def kept_def holds_def clean_def f)
  moreover have "room a' b' n m"
    using rm b'(2) f(17-19) by (simp add: room_def f(1-16))
  ultimately show ?thesis using s a' by blast
qed

lemma after_report_inv: "after_report a b a' \<Longrightarrow> snd_inv a \<Longrightarrow> snd_inv a'"
  by (auto simp: after_report_def snd_inv_def after_feedback_def after_elict_def credited_def fold_ack_inv)

lemma round_ready_report:
  assumes r: "round_ready a" and sc: "sent_count a = 8" and a': "after_report a b a'"
  shows "round_ready a' \<and> elicts a = Suc (elicts a') \<and> rest_of a' = rest_of a \<and> round_offsets a' = round_offsets a"
proof -
  have inv: "snd_inv a" and rd: "in_round (send_buffer a)" using r by (simp_all add: round_ready_def)
  have sb: "sb_inv (send_buffer a)" using inv by (simp add: snd_inv_def)
  note f = after_report_facts [OF a' sb]
  obtain m where m: "send_buffer a' = (send_buffer a)\<lparr>offset_recv := m\<rparr>" using f(22) by blast
  have "in_round (send_buffer a')" using rd f(23,24) unfolding m by (simp add: in_round_def)
  moreover have rest: "rest_of a' = rest_of a" using f(24) unfolding m by simp
  moreover have e: "elicts a = Suc (elicts a')" unfolding elicts_def rest sc by (simp add: f)
  moreover have "round_offsets a' = round_offsets a"
    unfolding round_offsets_def rest using f(24) unfolding m by simp
  moreover have "round_ready a'"
    using r calculation(1) after_report_inv [OF a' inv] unfolding round_ready_def rest e by (simp add: f(1-19) budget_left_def)
  ultimately show ?thesis by blast
qed

text \<open>What a chunk does to the receiver, unless it is lost.\<close>

definition chunk_arrives :: "nat set \<Rightarrow> nat \<Rightarrow> bytes \<Rightarrow> connection \<Rightarrow> connection \<Rightarrow> bool" where
  "chunk_arrives L off ch b b' \<longleftrightarrow> waiting b' \<and> recv_count b' \<le> recv_count b + 2 \<and>
     dom (hm_get (recv_dic b')) = dom (hm_get (recv_dic b)) \<union> ({off} - L) \<and>
     bt_get (rv_data (rec_buffer b')) = (if off \<in> L then bt_get (rv_data (rec_buffer b))
       else (bt_get (rv_data (rec_buffer b)))(off + length ch \<mapsto> RangeBuf_from ch off))"

lemma relay_any_chunk:
  assumes oc: "octets_spec oc" and b: "waiting b" and rc: "recv_count b + 2 < lim64" and ch: "off + length ch < lim64"
    and s: "Connection_send_data oc iter now out a = Some (Ok (26 + length ch, info),
        encode_header (app_header a off (length ch)) @ ch @ rest, a')"
  shows "\<exists>b'. relay_step L oc iter now out (a, b) = Some (a', b') \<and> chunk_arrives L off ch b b'"
proof (cases "off \<in> L")
  case True
  then show ?thesis using relay_lost_chunk [OF ch True s, of b] b by (auto simp: chunk_arrives_def)
next
  case False
  from relay_chunk [OF oc b rc ch False s] obtain b' where st: "relay_step L oc iter now out (a, b) = Some (a', b')"
    and b': "waiting b'" "recv_count b' = recv_count b + 2" "recv_dic b' = hm_insert off (of_nat (prio_at a off)) (recv_dic b)"
      "rv_data (rec_buffer b') = bt_insert (off + length ch) (RangeBuf_from ch off) (rv_data (rec_buffer b))" by blast
  have "bt_get (rv_data (rec_buffer b')) = (bt_get (rv_data (rec_buffer b)))(off + length ch \<mapsto> RangeBuf_from ch off)"
    using b b'(4) by (simp add: waiting_def get_bt_insert)
  then have "chunk_arrives L off ch b b'" using b' False by (auto simp: chunk_arrives_def dom_hm_insert)
  with st show ?thesis by blast
qed

lemma chunk_progress:
  assumes sb: "sb_inv (send_buffer a)" and mem: "(off, ch) \<in> set (sb_view (send_buffer a))"
    and bl: "hm_get (sent_dic a) off \<noteq> Some 0" and b': "chunk_arrives L off ch b b'"
    and ef: "sb_view (send_buffer a') = sb_view (send_buffer a)" "sb_acked (send_buffer a') = sb_acked (send_buffer a)"
    and u: "unreported a' = unreported a @ [off]" and sd: "sent_dic a' = counted a off"
    and k: "kept a a'" "high_priority a' = high_priority a" "recovery_of a' = recovery_of a"
  shows "progressed L a b {off} a' b'"
proof -
  have get: "hm_get (sent_dic a') k = (if k = off then hm_get (sent_dic a') off else hm_get (sent_dic a) k)" for k
    by (simp add: sd counted_def hm_insert_def update_conv')
  have dom: "dom (hm_get (sent_dic a')) = dom (hm_get (sent_dic a)) \<union> {off}"
    unfolding sd counted_def by (simp add: dom_hm_insert)
  have "holds b' x" if "x \<in> set (sb_view (send_buffer a))" "fst x = off" "off \<notin> L" for x
  proof -
    have "distinct (map fst (sb_view (send_buffer a)))" using sb_inv_distinct [OF sb] by (simp add: sb_view_def o_def)
    then have "x = (off, ch)" using that mem by (metis eq_key_imp_eq_value prod.collapse)
    then show ?thesis using b' that(3) by (simp add: holds_def chunk_arrives_def)
  qed
  moreover have "holds b' x" if "holds b x" "apart (sb_view (send_buffer a)) x" for x
    using that mem b' by (cases "fst x + length (snd x) = off + length ch") (force simp: holds_def chunk_arrives_def apart_def)+
  moreover have "marks a' b' = marks a b \<union> {k \<in> {off}. settled a' b' k}"
  proof -
    have rd: "dom (hm_get (recv_dic b')) = dom (hm_get (recv_dic b)) \<union> ({off} - L)" using b' by (simp add: chunk_arrives_def)
    have same: "settled a' b' k \<longleftrightarrow> settled a b k" if "k \<noteq> off" for k using get [of k] that by (simp add: settled_def rd)
    have more: "settled a' b' k" if "settled a b k" for k using that bl same [of k] by (cases "k = off") (auto simp: settled_def rd)
    have "off \<in> fst ` set (sb_view (send_buffer a))" using mem by force
    then have "{k \<in> set (unreported a') \<inter> fst ` set (sb_view (send_buffer a)). settled a' b' k} =
        {k \<in> set (unreported a) \<inter> fst ` set (sb_view (send_buffer a)). settled a b k} \<union> {k \<in> {off}. settled a' b' k}"
      unfolding u using same more by auto
    then show ?thesis unfolding marks_def ef by blast
  qed
  moreover have "clean L a' b'" if "clean L a b" using that b' unfolding clean_def u by (auto simp: chunk_arrives_def)
  moreover have "hm_get (sent_dic a') j = hm_get (sent_dic a) j" if "j \<noteq> off" for j using get [of j] that by simp
  moreover have "sends_left a' off < sends_left a off"
    using bl prio_at_range [of a off] by (auto simp: sends_left_def sd counted_def hm_insert_def update_conv' split: option.split)
  ultimately show ?thesis using b' k dom unfolding progressed_def by (auto simp: chunk_arrives_def)
qed

lemma chunk_turn:
  assumes oc: "octets_spec oc" and it: "iterates iter" and out: "1350 \<le> length out" and r: "round_ready a" and sc: "sent_count a \<noteq> 8"
    and b: "waiting b" and rm: "room a b (Suc n) m" and ok: "report_ok a"
  shows "\<exists>off ch a' b'. relay_step L oc iter now out (a, b) = Some (a', b') \<and> progressed L a b {off} a' b' \<and> room a' b' n m \<and>
     report_ok a' \<and> sent_count a' = sent_count a + 1 \<and>
     (if ends_round (send_buffer a)
      then round_offsets a = [off] \<and> snd_inv a' \<and> rtt a' \<noteq> 0 \<and> is_server a' \<and> stop_flag a' \<and>
        next_pkt_num (snd (pkt_num_spaces a')) + 1 < lim64 \<and> sb_pos (send_buffer a') = 0
      else round_ready a' \<and> rest_of a = (off, ch) # rest_of a' \<and> round_offsets a = off # round_offsets a')"
proof -
  have inv: "snd_inv a" and sb: "sb_inv (send_buffer a)" using r by (simp_all add: round_ready_def snd_inv_def)
  obtain off ch a' where s: "Connection_send_data oc iter now out a = Some (Ok (26 + length ch, send_info_of a),
       encode_header (app_header a off (length ch)) @ ch @ drop (26 + length ch) out, a')"
    and m: "(off, ch) \<in> set (rest_of a)" and a': "a' = (after_app a off (send_buffer a') (stop_flag a'))\<lparr>handshake := now\<rparr>"
    and sc': "sent_count a' = sent_count a + 1"
    and cs: "if ends_round (send_buffer a)
      then round_offsets a = [off] \<and> snd_inv a' \<and> rtt a' \<noteq> 0 \<and> is_server a' \<and> stop_flag a' \<and>
        next_pkt_num (snd (pkt_num_spaces a')) + 1 < lim64 \<and> sb_pos (send_buffer a') = 0
      else round_ready a' \<and> rest_of a = (off, ch) # rest_of a' \<and> round_offsets a = off # round_offsets a'"
    using round_app [OF oc r sc out, of iter now] by blast
  have mem: "(off, ch) \<in> set (sb_view (send_buffer a))" using m by (rule in_set_dropD)
  note e = sb_view_entry [OF sb mem]
  have ch: "off + length ch < lim64" using e(3) sb by (simp add: sb_inv_def)
  have rc: "recv_count b + 2 < lim64" using rm by (simp add: room_def)
  obtain b' where st: "relay_step L oc iter now out (a, b) = Some (a', b')" and b': "chunk_arrives L off ch b b'"
    using relay_any_chunk [OF oc b rc ch s] by blast
  have f: "recovery_of a' = recovery_of a" "high_priority a' = high_priority a" "recv_count a' = recv_count a" "norm2_vec a' = norm2_vec a"
    "sent_pkt a' = sent_pkt a @ [off]" "ack_point a' = ack_point a" "sent_dic a' = counted a off"
    "rtt a' = rtt a" "is_server a' = is_server a" "recv_flag a' = recv_flag a" "written_data a' = written_data a" "data_to_send a' = data_to_send a"
    "next_pkt_num (fst (pkt_num_spaces a')) = next_pkt_num (fst (pkt_num_spaces a)) + 1" "snd (pkt_num_spaces a') = snd (pkt_num_spaces a)"
    by (subst a', simp add: after_app_def)+
  have ef: "sb_view (send_buffer a') = sb_view (send_buffer a)" "sb_acked (send_buffer a') = sb_acked (send_buffer a)"
    using send_data_datagram [OF oc inv out iterates_facts(1) [OF it] s] by (simp_all add: send_effect_def)
  have u: "unreported a' = unreported a @ [off]" using inv by (simp add: unreported_def f snd_inv_def)
  have bl: "hm_get (sent_dic a) off \<noteq> Some 0" using r m by (auto simp: round_ready_def budget_left_def)
  have progress: "progressed L a b {off} a' b'"
    using chunk_progress [OF sb mem bl b' ef u f(7)] by (simp add: kept_def ef f)
  moreover have "room a' b' n m" using rm b' by (simp add: room_def f chunk_arrives_def)
  moreover have "report_ok a'"
    using ok e(5) r m unfolding report_ok_def u f round_ready_def by auto
  ultimately show ?thesis using st sc' cs by blast
qed

text \<open>At most \<open>n\<close> turns end the round and send \<open>os\<close>, and leave room for \<open>N\<close> chunks and \<open>M\<close> reports.\<close>

definition completes ::
  "nat set \<Rightarrow> 'b octets \<Rightarrow> ((nat, nat) hash_map \<Rightarrow> (nat \<times> nat) list) \<Rightarrow> instant \<Rightarrow> bytes \<Rightarrow> nat \<Rightarrow> nat \<Rightarrow> nat \<Rightarrow> nat set \<Rightarrow>
   connection \<times> connection \<Rightarrow> bool" where
  "completes L oc iter now out N M n os s \<longleftrightarrow> (\<exists>k a' b'. k \<le> n \<and> relay k L oc iter now out s = Some (a', b') \<and>
     progressed L (fst s) (snd s) os a' b' \<and> room a' b' N M \<and> is_stopped a' \<and> unreported a' = [] \<and>
     sb_pos (send_buffer a') = 0 \<and> snd_inv a')"

lemma completes_step:
  assumes "sb_inv (send_buffer a)" "relay_step L oc iter now out (a, b) = Some (a1, b1)" "progressed L a b os a1 b1"
    "completes L oc iter now out N M n os' (a1, b1)" and "Suc n \<le> m" "os'' = os \<union> os'" "os \<inter> os' = {}"
  shows "completes L oc iter now out N M m os'' (a, b)"
proof -
  obtain k a' b' where k: "k \<le> n" "relay k L oc iter now out (a1, b1) = Some (a', b')"
    and e: "progressed L a1 b1 os' a' b'" "room a' b' N M" "is_stopped a'" "unreported a' = []" "sb_pos (send_buffer a') = 0" "snd_inv a'"
    using assms(4) unfolding completes_def fst_conv snd_conv by blast
  have "relay (Suc k) L oc iter now out (a, b) = Some (a', b')" using assms(2) k(2) by simp
  moreover have "Suc k \<le> m" using k(1) assms(5) by simp
  moreover have "progressed L a b os'' a' b'" using progressed_trans [OF assms(1,3) e(1) assms(7)] assms(6) by simp
  ultimately show ?thesis using e(2-6) unfolding completes_def fst_conv snd_conv by blast
qed

lemma final_turn:
  assumes "octets_spec oc" "iterates iter" "1350 \<le> length out" and a: "snd_inv a" "rtt a \<noteq> 0" "is_server a" "stop_flag a"
    and pn: "next_pkt_num (snd (pkt_num_spaces a)) + 1 < lim64" and pos: "sb_pos (send_buffer a) = 0"
    and "waiting b" "room a b N (Suc M)" "report_ok a"
  shows "completes L oc iter now out N M (Suc 0) {} (a, b)"
proof -
  have ty: "write_pkt_type a = (Ok ElictAck, a\<lparr>sent_count := 0\<rparr>)" using a(2-4) by (simp add: write_pkt_type_def)
  obtain a' b' where s: "relay_step L oc iter now out (a, b) = Some (a', b')" and a': "after_report a b a'"
    and p: "progressed L a b {} a' b'" "room a' b' N M"
    using report_turn [OF assms(1-3) a(1) ty a(3) pn assms(10-12), of L now] by blast
  have "sb_inv (send_buffer a)" using a(1) by (simp add: snd_inv_def)
  note f = after_report_facts [OF a' this]
  have "is_stopped a'" "sb_pos (send_buffer a') = 0" using a(4) pos f(22) by (auto simp: f(4,5) is_stopped_def)
  moreover have "relay (Suc 0) L oc iter now out (a, b) = Some (a', b')" using s by simp
  ultimately show ?thesis
    using p after_report_inv [OF a' a(1)] f(12) unfolding completes_def fst_conv snd_conv by (metis le_refl)
qed

text \<open>The reports to come.\<close>

definition reports_of :: "connection \<Rightarrow> nat" where
  "reports_of a = (sent_count a + length (round_offsets a)) div 8 + 1"

definition lockstep :: "connection \<Rightarrow> connection \<Rightarrow> nat \<Rightarrow> nat \<Rightarrow> bool" where
  "lockstep a b N M \<longleftrightarrow> round_ready a \<and> waiting b \<and> room a b (length (round_offsets a) + N) (reports_of a + M) \<and> report_ok a"

lemma full_report_turn:
  assumes oc: "octets_spec oc" "iterates iter" and out: "1350 \<le> length out" and l: "lockstep a b N M" and sc: "sent_count a = 8"
  shows "\<exists>a1 b1. relay_step L oc iter now out (a, b) = Some (a1, b1) \<and> progressed L a b {} a1 b1 \<and> lockstep a1 b1 N M \<and> sent_count a1 = 0 \<and>
     round_offsets a1 = round_offsets a \<and> reports_of a = Suc (reports_of a1)"
proof -
  have r: "round_ready a" "waiting b" "report_ok a" using l by (simp_all add: lockstep_def)
  have ty: "write_pkt_type a = (Ok ElictAck, a\<lparr>sent_count := 0\<rparr>)"
    using r(1) sc by (simp add: round_ready_def write_pkt_type_def ELICT_FLAG_def)
  have a: "snd_inv a" "is_server a" "next_pkt_num (snd (pkt_num_spaces a)) + 1 < lim64"
    using r(1) by (simp_all add: round_ready_def elicts_def)
  obtain m where m: "reports_of a = Suc m" by (simp add: reports_of_def)
  have rm: "room a b (length (round_offsets a) + N) (Suc (m + M))" using l m by (simp add: lockstep_def)
  obtain a1 b1 where s: "relay_step L oc iter now out (a, b) = Some (a1, b1)" and a1: "after_report a b a1"
    and p: "progressed L a b {} a1 b1" and rm': "room a1 b1 (length (round_offsets a) + N) (m + M)"
    using report_turn [OF oc out a(1) ty a(2,3) r(2) rm r(3), of L now] by blast
  note rr = round_ready_report [OF r(1) sc a1]
  have "sb_inv (send_buffer a)" using a(1) by (simp add: snd_inv_def)
  note f = after_report_facts(11,12) [OF a1 this]
  have e: "reports_of a1 = m" "waiting b1" "report_ok a1"
    using rr m f sc progressedD(1) [OF p] by (simp_all add: report_ok_def reports_of_def)
  with rr rm' have "lockstep a1 b1 N M" unfolding lockstep_def by metis
  with s p rr f(1) e(1) m show ?thesis by blast
qed

lemma set_window_prefix: "set (window_prefix w n xs) \<subseteq> set xs"
  by (induction w n xs rule: window_prefix.induct) auto

lemma distinct_window_prefix: "distinct (map fst xs) \<Longrightarrow> distinct (map fst (window_prefix w n xs))"
  using set_window_prefix by (induction w n xs rule: window_prefix.induct) fastforce+

lemma round_offsets_distinct: "round_ready a \<Longrightarrow> distinct (round_offsets a)"
  unfolding round_offsets_def
  by (intro distinct_window_prefix) (simp add: round_ready_def snd_inv_def sb_view_def o_def sb_inv_distinct distinct_drop flip: drop_map)

lemma round_offsets_nonempty: "round_ready a \<Longrightarrow> round_offsets a \<noteq> []"
  by (cases "rest_of a") (auto simp: round_offsets_def round_ready_def in_round_def)

lemma length_window_prefix: "length (window_prefix w n xs) \<le> length xs"
  by (induction w n xs rule: window_prefix.induct) auto

lemma reports_le: "length (round_offsets a) \<le> length (rest_of a)" "reports_of a \<le> elicts a"
proof -
  show "length (round_offsets a) \<le> length (rest_of a)"
    unfolding round_offsets_def length_map by (rule length_window_prefix)
  then show "reports_of a \<le> elicts a" unfolding reports_of_def elicts_def by (intro add_mono div_le_mono) simp_all
qed

lemma round_exchange_calls:
  assumes oc: "octets_spec oc" "iterates iter" and out: "1350 \<le> length out" and "lockstep a b N M"
  shows "completes L oc iter now out N M (length (round_offsets a) + reports_of a) (set (round_offsets a)) (a, b)"
  using assms(4)
proof (induction "2 * length (round_offsets a) + (if sent_count a = 8 then 1 else 0)" arbitrary: a b rule: less_induct)
  case less
  have r: "round_ready a" "waiting b" "report_ok a" using less.prems by (simp_all add: lockstep_def)
  have sb: "sb_inv (send_buffer a)" using r(1) by (simp add: round_ready_def snd_inv_def)
  show ?case
  proof (cases "sent_count a = 8")
    case True
    obtain a1 b1 where s: "relay_step L oc iter now out (a, b) = Some (a1, b1)" "progressed L a b {} a1 b1" and l: "lockstep a1 b1 N M" "sent_count a1 = 0"
      and e: "round_offsets a1 = round_offsets a" "reports_of a = Suc (reports_of a1)"
      using full_report_turn [OF oc out less.prems True, of L now] by blast
    have lt: "2 * length (round_offsets a1) + (if sent_count a1 = 8 then 1 else 0) <
        2 * length (round_offsets a) + (if sent_count a = 8 then 1 else 0)" unfolding e(1) l(2) True by simp
    from completes_step [OF sb s less.hyps [OF lt l(1)]] show ?thesis unfolding e by simp
  next
    case False
    obtain k where k: "length (round_offsets a) = Suc k" using round_offsets_nonempty [OF r(1)] by (cases "round_offsets a") simp_all
    have "room a b (Suc (k + N)) (reports_of a + M)" using less.prems k by (simp add: lockstep_def)
    from chunk_turn [OF oc out r(1) False r(2) this r(3), of L now] obtain off ch a1 b1
      where s: "relay_step L oc iter now out (a, b) = Some (a1, b1)" and p: "progressed L a b {off} a1 b1"
      and rm: "room a1 b1 (k + N) (reports_of a + M)" and ok: "report_ok a1" and sc: "sent_count a1 = sent_count a + 1"
      and cs: "if ends_round (send_buffer a)
        then round_offsets a = [off] \<and> snd_inv a1 \<and> rtt a1 \<noteq> 0 \<and> is_server a1 \<and> stop_flag a1 \<and>
          next_pkt_num (snd (pkt_num_spaces a1)) + 1 < lim64 \<and> sb_pos (send_buffer a1) = 0
        else round_ready a1 \<and> rest_of a = (off, ch) # rest_of a1 \<and> round_offsets a = off # round_offsets a1"
      by blast
    have b1: "waiting b1" by (rule progressedD(1) [OF p])
    show ?thesis
    proof (cases "ends_round (send_buffer a)")
      case True
      with cs have e: "round_offsets a = [off]" "snd_inv a1" "rtt a1 \<noteq> 0" "is_server a1" "stop_flag a1"
        "next_pkt_num (snd (pkt_num_spaces a1)) + 1 < lim64" "sb_pos (send_buffer a1) = 0" by simp_all
      have "room a1 b1 N (Suc M)" using room_mono [OF rm] by (simp add: reports_of_def)
      from completes_step [OF sb s p final_turn [OF oc out e(2-7) b1 this ok]] show ?thesis
        using k e(1) by (simp add: reports_of_def)
    next
      case no_end: False
      with cs have e: "round_ready a1" "round_offsets a = off # round_offsets a1" by simp_all
      have len: "length (round_offsets a1) = k" using k unfolding e(2) by simp
      have el: "reports_of a1 = reports_of a" unfolding reports_of_def len sc k by simp
      have lt: "2 * length (round_offsets a1) + (if sent_count a1 = 8 then 1 else 0) <
          2 * length (round_offsets a) + (if sent_count a = 8 then 1 else 0)" unfolding len k by simp
      have "lockstep a1 b1 N M" unfolding lockstep_def len el using e(1) b1 rm ok by blast
      moreover have "{off} \<inter> set (round_offsets a1) = {}" using round_offsets_distinct [OF r(1)] unfolding e(2) by simp
      ultimately show ?thesis using completes_step [OF sb s p less.hyps [OF lt]] unfolding len el e(2) by (simp add: len)
    qed
  qed
qed

text \<open>A round from its start, with nothing unreported.\<close>

lemma round_completes:
  assumes "octets_spec oc" and "iterates iter" and "1350 \<le> length out"
    and "round_ready a" and "sent_count a = 0" and "waiting b" and "room a b (length (round_offsets a) + N) (reports_of a + M)"
  shows "completes L oc iter now out N M (length (round_offsets a) + reports_of a) (set (round_offsets a)) (a, b)"
proof -
  have "unreported a = []" using assms(4,5) by (simp add: round_ready_def snd_inv_def unreported_def)
  then have "lockstep a b N M" using assms(4,6,7) by (simp add: lockstep_def report_ok_def)
  from round_exchange_calls [OF assms(1-3) this] show ?thesis .
qed

lemma marks_unacked:
  "unreported a = [] \<Longrightarrow> unacked (send_buffer a) = filter (\<lambda>(k, _). k \<notin> marks a b) (sb_view (send_buffer a))"
  by (simp add: unacked_def marks_def)

text \<open>
  (C7) A round over a network that loses any of its chunks.  Let the application packets for the offsets in \<open>L\<close> be lost,
  and everything else arrive.  From the start of a round of a sender with budget and norms for its chunks, with a
  receiver that waits, and with room in the counters, at most one turn per chunk, one for every eight and one more end the
  round, and none of them panics.  Then the receiver holds every chunk of the round that was not lost, whole and at its
  offset; the chunks that leave the sender's queue in the next round are exactly those that were sent and arrived, in
  this round or before, and those that were lost and may not be sent again; all others stay queued; and the receiver waits
  again.  Without losses nothing is counted as lost and the window is not reduced.
\<close>

theorem round_with_losses:
  assumes "octets_spec oc" and "iterates iter" and "1350 \<le> length out"
    and "round_ready a" and "sent_count a = 0" and "waiting b" and "room a b (length (rest_of a)) (elicts a)"
  shows "\<exists>n a' b'. n \<le> length (rest_of a) + length (rest_of a) div 8 + 1 \<and> relay n L oc iter now out (a, b) = Some (a', b') \<and>
     is_stopped a' \<and> waiting b' \<and>
     (let sent = window_prefix (max_data (send_buffer a)) (queued (take (sb_pos (send_buffer a)) (sb_view (send_buffer a)))) (rest_of a)
      in (\<forall>(k, ch) \<in> set sent. k \<notin> L \<longrightarrow> bt_get (rv_data (rec_buffer b')) (k + length ch) = Some (RangeBuf_from ch k)) \<and>
         unacked (send_buffer a') = filter (\<lambda>(k, _). \<not> (k \<in> fst ` set sent \<and>
           (k \<notin> L \<or> k \<in> dom (hm_get (recv_dic b)) \<or> hm_get (sent_dic a') k = Some 0))) (unacked (send_buffer a))) \<and>
     (L = {} \<longrightarrow> high_priority a' = high_priority a \<and> decre_win (recovery_of a') = decre_win (recovery_of a))"
proof -
  let ?v = "sb_view (send_buffer a)"
  define sent where "sent = window_prefix (max_data (send_buffer a)) (queued (take (sb_pos (send_buffer a)) ?v)) (rest_of a)"
  have u: "unreported a = []" using assms(4,5) by (simp add: round_ready_def snd_inv_def unreported_def)
  have "room a b (length (round_offsets a)) (reports_of a)" by (rule room_mono [OF assms(7) reports_le])
  then have "completes L oc iter now out 0 0 (length (round_offsets a) + reports_of a) (set (round_offsets a)) (a, b)"
    using round_completes [OF assms(1-6), of 0 0] by simp
  then obtain n a' b' where n: "n \<le> length (round_offsets a) + reports_of a"
    "relay n L oc iter now out (a, b) = Some (a', b')" and p: "progressed L a b (fst ` set sent) a' b'" and e: "is_stopped a'" "unreported a' = []"
    unfolding completes_def fst_conv snd_conv round_offsets_def sent_def by auto
  have sub: "set sent \<subseteq> set ?v" unfolding sent_def using set_window_prefix set_drop_subset by fast
  have h: "\<forall>(k, ch) \<in> set sent. k \<notin> L \<longrightarrow> bt_get (rv_data (rec_buffer b')) (k + length ch) = Some (RangeBuf_from ch k)"
    using progressedD(6) [OF p] sub unfolding holds_def by force
  have k: "kept a a'" "waiting b'" "marks a' b' = marks a b \<union> {k \<in> fst ` set sent. settled a' b' k}"
    "dom (hm_get (recv_dic b')) = dom (hm_get (recv_dic b)) \<union> (fst ` set sent - L)"
    using progressedD [OF p] by blast+
  have l: "L = {} \<longrightarrow> high_priority a' = high_priority a \<and> decre_win (recovery_of a') = decre_win (recovery_of a)"
    using progressedD(9) [OF p] u by (simp add: clean_def)
  have st: "k \<in> fst ` set sent \<Longrightarrow> settled a' b' k \<longleftrightarrow> k \<notin> L \<or> k \<in> dom (hm_get (recv_dic b)) \<or> hm_get (sent_dic a') k = Some 0" for k
    unfolding settled_def k(4) by blast
  have un: "unacked (send_buffer a') = filter (\<lambda>(k, _). \<not> (k \<in> fst ` set sent \<and>
      (k \<notin> L \<or> k \<in> dom (hm_get (recv_dic b)) \<or> hm_get (sent_dic a') k = Some 0))) (unacked (send_buffer a))"
    unfolding marks_unacked [OF e(2), of b'] marks_unacked [OF u, of b] filter_filter k(3) using k(1)
    by (intro filter_cong) (auto simp: kept_def st)
  have len: "n \<le> length (rest_of a) + length (rest_of a) div 8 + 1" using n(1) assms(5) reports_le [of a] by (simp add: elicts_def)
  show ?thesis
    unfolding Let_def sent_def [symmetric] using len n(2) e(1) h un k(2) l by blast
qed

end
