(* ===== verification/Delivery.thy ===== *)
theory Delivery
  imports Exchange
begin

text \<open>
  A whole transfer over a network that loses nothing: rounds, each opened with \<open>send_all\<close>, until all data is sent.
\<close>

section \<open>Between two rounds\<close>

text \<open>What the receiver has of the first \<open>j\<close> bytes of the data: all of them, in chunks that lie among them.\<close>

definition delivered :: "bytes \<Rightarrow> connection \<Rightarrow> nat \<Rightarrow> bool" where
  "delivered d b j \<longleftrightarrow> (\<forall>i < j. \<exists>k ch. holds b (k, ch) \<and> k \<in> dom (hm_get (recv_dic b)) \<and> k \<le> i \<and> i < k + length ch \<and> k + length ch \<le> j \<and>
     ch = take (length ch) (drop k d))"

definition between_rounds :: "bytes \<Rightarrow> connection \<Rightarrow> connection \<Rightarrow> bool" where
  "between_rounds d a b \<longleftrightarrow> snd_inv a \<and> data_to_send a = d \<and> rtt a \<noteq> 0 \<and> is_server a \<and> \<not> recv_flag a \<and> sent_count a = 0 \<and>
     sb_pos (send_buffer a) = 0 \<and> unacked (send_buffer a) = [] \<and> high_priority a = 0 \<and> decre_win (recovery_of a) = 0 \<and>
     dom (hm_get (sent_dic a)) \<subseteq> {..<written_data a} \<and> length d \<le> 1024 * length (norm2_vec a) \<and> waiting b \<and>
     delivered d b (written_data a) \<and> room a b (length d - written_data a) (length d - written_data a)"

section \<open>Opening a round\<close>

lemma no_high_loss:
  assumes "high_priority c = 0"
  shows "round_window c = cwnd (recovery_of c)"
proof -
  have t: "\<not> fl_lt CONGESTION_THREAHOLD (Fin 0)"
    using rnd64_sign(1) [of "1 / 100"] by (simp add: CONGESTION_THREAHOLD_def notneg_def)
  have "f64_of_nat 0 = Fin 0" by (simp add: f64_of_nat_def rnd64_def rnd_def)
  moreover have "fl_div rnd64 (Fin 0) x = Fin 0 \<or> fl_div rnd64 (Fin 0) x = NaN" for x
    by (cases x) (simp_all add: fl_inf_def rnd64_def rnd_def)
  moreover have "\<not> fl_lt x NaN" for x by (cases x) simp_all
  ultimately show ?thesis using t unfolding round_window_def assms by metis
qed

lemma window_exists:
  assumes "2 * incre_win (recovery_of c) < lim64"
  shows "\<exists>w r. round_window c = Some (w, r) \<and> max_datagram_size r = max_datagram_size (recovery_of c) \<and>
     incre_win r \<le> incre_win (recovery_of c) \<and> decre_win r \<le> decre_win (recovery_of c) \<and> (high_priority c = 0 \<longrightarrow> 9600 \<le> w)"
proof (cases "round_window c = cwnd (recovery_of c)")
  case True
  then show ?thesis using cwnd_eq [OF assms] by simp
next
  case False
  then have h: "high_priority c \<noteq> 0" using no_high_loss by blast
  obtain w r where w: "Recovery_rollback (recovery_of c) = (w, r)" by force
  have "round_window c = Some (w, r)" using False w by (simp add: round_window_def split: if_splits)
  moreover have "max_datagram_size r = max_datagram_size (recovery_of c)" "incre_win r = incre_win (recovery_of c)" "decre_win r = decre_win (recovery_of c)"
    using w by (auto simp: Recovery_rollback_def split: option.splits)
  ultimately show ?thesis using h by auto
qed

lemma length_le_concat: "\<forall>c \<in> set cs. c \<noteq> [] \<Longrightarrow> length cs \<le> length (concat cs)"
  by (induction cs) (auto simp: Suc_le_eq length_greater_0_conv [symmetric] simp del: length_greater_0_conv)

lemma length_at_offsets [simp]: "length (at_offsets k cs) = length cs"
  by (induction cs arbitrary: k) simp_all

lemma at_offsets_end: "(k, c) \<in> set (at_offsets j cs) \<Longrightarrow> k + length c \<le> j + length (concat cs)"
  by (induction cs arbitrary: j) (auto simp flip: add.assoc)

lemma queued_at_offsets: "queued (at_offsets i cs) = length (concat cs)"
  by (induction cs arbitrary: i) auto

text \<open>What \<open>send_all\<close> does between two rounds while data is left.\<close>

definition opened :: "instant \<Rightarrow> connection \<Rightarrow> nat \<Rightarrow> recovery \<Rightarrow> send_buf \<Rightarrow> connection" where
  "opened now a n r sb = (set_handshake now (a\<lparr>stop_flag := False, stop_ack := False\<rparr>))
     \<lparr>high_priority := 0, sent_number := 0, recovery_of := r, send_buffer := sb,
       written_data := written_data a + n, total_offset := total_offset a + n\<rparr>"

text \<open>The bytes in the queue are among those written.\<close>

lemma sum_before:
  assumes "sorted_wrt before bs" and "\<forall>b \<in> set bs. l \<le> rb_off b \<and> rb_off b + rb_len b \<le> e" and "l \<le> e"
  shows "l + (\<Sum>b \<leftarrow> bs. rb_len b) \<le> e"
  using assms
proof (induction bs arbitrary: l)
  case (Cons b bs)
  then have "rb_off b + rb_len b + (\<Sum>b \<leftarrow> bs. rb_len b) \<le> e" by (intro Cons.IH) (auto simp: before_def)
  with Cons.prems(2) show ?case by auto
qed simp

lemma queued_le:
  assumes "sb_inv s"
  shows "queued (sb_view s) \<le> sb_off s"
proof -
  have ok: "\<forall>b \<in> set (sb_data s). rb_len b = length (rb_data b) \<and> rb_off b + rb_len b \<le> sb_off s" "sorted_wrt before (sb_data s)"
    using assms by (auto simp: sb_inv_def chunk_ok_def)
  have "queued (sb_view s) = (\<Sum>b \<leftarrow> sb_data s. rb_len b)"
    using ok(1) by (auto simp: queued_def sb_view_def intro!: arg_cong [of _ _ sum_list])
  also have "\<dots> \<le> sb_off s" using sum_before [OF ok(2) _ le0, of "sb_off s"] ok(1) by fastforce
  finally show ?thesis .
qed

text \<open>The queue after \<open>send_all\<close>: the chunks to send again, and new ones up to the window.\<close>

definition written_up ::
  "connection \<Rightarrow> usize \<Rightarrow> nat \<Rightarrow> recovery \<Rightarrow> bytes list \<Rightarrow> send_buf \<Rightarrow> connection \<Rightarrow> bool" where
  "written_up a w n r cs sb a1 \<longleftrightarrow> sb_view sb = unacked (send_buffer a) @ at_offsets (written_data a) cs \<and>
     concat cs = take n (drop (written_data a) (data_to_send a)) \<and> (\<forall>c \<in> set cs. c \<noteq> []) \<and>
     queued (sb_view sb) = queued (unacked (send_buffer a)) + n \<and> sb_pos sb = 0 \<and> sb_acked sb = {} \<and> max_data sb = w \<and>
     (sb_view sb \<noteq> [] \<longrightarrow> in_round sb) \<and> snd_inv a1 \<and> max_datagram_size r = max_datagram_size (recovery_of a) \<and>
     incre_win r \<le> incre_win (recovery_of a) \<and> decre_win r \<le> decre_win (recovery_of a)"

lemma queue_written:
  assumes a: "snd_inv a" "sb_pos (send_buffer a) = 0" and br: "br \<le> 1024" and w: "w < lim64"
  defines "d \<equiv> drop (written_data a) (data_to_send a)" and "n \<equiv> accepted (drop (written_data a) (data_to_send a)) w (send_buffer a)"
  assumes wr: "SendBuf_write d w br k (send_buffer a) = Some (Ok n, sb)"
  shows "\<exists>cs. sb_view sb = unacked (send_buffer a) @ at_offsets (written_data a) cs \<and> concat cs = take n d \<and> (\<forall>c \<in> set cs. c \<noteq> []) \<and>
     queued (sb_view sb) = queued (unacked (send_buffer a)) + n \<and> sb_pos sb = 0 \<and> sb_acked sb = {} \<and> max_data sb = w \<and> (sb_view sb \<noteq> [] \<longrightarrow> in_round sb)"
proof -
  let ?s = "send_buffer a"
  have n: "n \<le> length d" by (simp add: n_def d_def accepted_def)
  define cs where "cs = (if n = 0 then [] else pieces br (take n d))"
  have ne: "\<forall>c \<in> set cs. c \<noteq> []"
  proof (cases "n = 0")
    case False
    then have "take n d \<noteq> []" using n by auto
    from pieces_sizes [OF this br] False show ?thesis by (auto simp: cs_def)
  qed (simp add: cs_def)
  have c: "concat cs = take n d" by (simp add: cs_def concat_pieces)
  have sb0: "sb_inv ?s" "sb_off ?s + length d < lim64" "sb_off ?s = written_data a" using a(1) by (simp_all add: snd_inv_def d_def)
  obtain sb' where "SendBuf_write d w br k ?s = Some (Ok n, sb')"
    and v: "sb_view sb' = unacked ?s @ (if n = 0 then [] else at_offsets (sb_off ?s) (pieces br (take n d)))"
    and sp': "sb_inv sb'" "sb_len sb' = queued (unacked ?s) + n" "used_length sb' = queued (unacked ?s) + n" "sb_sent sb' = 0" "sb_pos sb' = sb_pos ?s"
      "max_data sb' = w" "sb_acked sb' = {}"
    using SendBuf_write_spec [OF sb0(1) br w sb0(2), of k] unfolding n_def [folded d_def, symmetric] by blast
  then have eq: "sb' = sb" using wr by simp
  have v': "sb_view sb = unacked ?s @ at_offsets (written_data a) cs" using v unfolding eq sb0(3) by (simp add: cs_def)
  have q: "queued (sb_view sb) = queued (unacked ?s) + n" using n by (simp add: v' queued_at_offsets c)
  have "sb_off sb < lim64" using sp'(1) eq by (simp add: sb_inv_def)
  then have "in_round sb" if "sb_view sb \<noteq> []"
    using that sp' a(2) q queued_le [of sb] unfolding eq by (auto simp: in_round_def simp flip: length_sb_view)
  then show ?thesis using v' c ne q sp' a(2) unfolding eq by auto
qed

lemma send_all_written:
  assumes a: "snd_inv a" "data_to_send a = d" "sb_pos (send_buffer a) = 0" and inc: "2 * incre_win (recovery_of a) < lim64"
    and more: "written_data a < length d \<or> unacked (send_buffer a) \<noteq> []"
  shows "\<exists>w n r sb cs. (high_priority a = 0 \<longrightarrow> 9600 \<le> w) \<and> n = accepted (drop (written_data a) d) w (send_buffer a) \<and>
     send_all now a = Some (Ok True, opened now a n r sb) \<and> written_up a w n r cs sb (opened now a n r sb)"
proof -
  let ?c = "set_handshake now (a\<lparr>stop_flag := False, stop_ack := False\<rparr>)"
  have f: "send_buffer ?c = send_buffer a" "data_to_send ?c = d" "written_data ?c = written_data a" "high_priority ?c = high_priority a"
    "recovery_of ?c = recovery_of a" "total_offset ?c = total_offset a"
    using a by (simp_all add: set_handshake_def)
  have inv: "snd_inv ?c" using a(1) by (simp add: snd_inv_def set_handshake_def)
  obtain w r where rw: "round_window ?c = Some (w, r)" and r: "max_datagram_size r = max_datagram_size (recovery_of a)"
    "incre_win r \<le> incre_win (recovery_of a)" "decre_win r \<le> decre_win (recovery_of a)" and w0: "high_priority a = 0 \<longrightarrow> 9600 \<le> w"
    using window_exists [of ?c] inc unfolding f by metis
  have w: "w < lim64" using round_window_bounds [OF _ rw] inv by (simp add: snd_inv_def)
  define n where "n = accepted (drop (written_data a) d) w (send_buffer a)"
  obtain sb where sa: "send_all_write ?c = Some (Ok True, opened now a n r sb)"
    and wr: "SendBuf_write (drop (written_data a) d) w (block_rest ?c) (max_off ?c) (send_buffer a) = Some (Ok n, sb)"
    and i: "snd_inv (opened now a n r sb)"
    using send_all_write_eq [OF inv rw] unfolding f n_def opened_def by blast
  have "block_rest ?c \<le> 1024" by (simp add: block_rest_def)
  from queue_written [OF a(1,3) this w, of "max_off ?c" sb] wr obtain cs where "written_up a w n r cs sb (opened now a n r sb)"
    unfolding written_up_def a(2) n_def [symmetric] using i r by blast
  moreover have "send_all now a = send_all_write ?c"
  proof -
    have "sb_data (send_buffer a) \<noteq> []" if "unacked (send_buffer a) \<noteq> []" using that by (auto simp: unacked_def sb_view_def)
    then show ?thesis using more a(2) by (auto simp: send_all_def set_handshake_def Let_def)
  qed
  ultimately show ?thesis using sa w0 n_def by metis
qed

lemma queued_pos: "snd_inv a \<Longrightarrow> unacked (send_buffer a) \<noteq> [] \<Longrightarrow> 0 < queued (unacked (send_buffer a))"
proof -
  assume "snd_inv a" "unacked (send_buffer a) \<noteq> []"
  then obtain x xs where x: "unacked (send_buffer a) = x # xs" and sb: "sb_inv (send_buffer a)" by (cases "unacked (send_buffer a)") (auto simp: snd_inv_def)
  have "x \<in> set (unacked (send_buffer a))" using x by simp
  then have "x \<in> set (sb_view (send_buffer a))" unfolding unacked_def by simp
  then have "snd x \<noteq> []" using sb_view_entry(1) [OF sb, of "fst x" "snd x"] by simp
  then show ?thesis using x by simp
qed

lemma send_all_opens:
  assumes bt: "between_rounds d a b" and left: "written_data a < length d"
  shows "\<exists>n r sb cs. send_all now a = Some (Ok True, opened now a n r sb) \<and>
     min 9600 (length d - written_data a) \<le> n \<and> n \<le> length d - written_data a \<and>
     sb_view sb = at_offsets (written_data a) cs \<and> concat cs = take n (drop (written_data a) d) \<and> (\<forall>c \<in> set cs. c \<noteq> []) \<and>
     in_round sb \<and> sb_pos sb = 0 \<and> queued (sb_view sb) \<le> max_data sb \<and>
     incre_win r \<le> incre_win (recovery_of a) \<and> decre_win r = 0 \<and> max_datagram_size r = 1200 \<and>
     snd_inv (opened now a n r sb)"
proof -
  have a: "snd_inv a" "data_to_send a = d" "sb_pos (send_buffer a) = 0" and u: "unacked (send_buffer a) = []" "high_priority a = 0"
    and r: "2 * incre_win (recovery_of a) < lim64" "max_datagram_size (recovery_of a) = 1200" "decre_win (recovery_of a) = 0"
    using bt by (simp_all add: between_rounds_def room_def)
  obtain w n r sb cs where w: "9600 \<le> w" "n = accepted (drop (written_data a) d) w (send_buffer a)"
    and sa: "send_all now a = Some (Ok True, opened now a n r sb)" and wr: "written_up a w n r cs sb (opened now a n r sb)"
    using send_all_written [OF a r(1), of now] left u(2) by blast
  have n: "n = min (length d - written_data a) w" using w u(1) by (simp add: accepted_def)
  note f = wr [unfolded written_up_def a(2) u(1) append_Nil r(2,3)]
  have "queued (sb_view sb) = queued [] + n" and m: "max_data sb = w" using f by blast+
  then have q: "queued (sb_view sb) = n" by simp
  then have "sb_view sb \<noteq> []" using n left w(1) by auto
  with f have "in_round sb" by blast
  moreover have "queued (sb_view sb) \<le> max_data sb" using q m n by simp
  moreover have "min 9600 (length d - written_data a) \<le> n" "n \<le> length d - written_data a" using n w(1) by simp_all
  ultimately show ?thesis using sa f
    by - (rule exI [of _ n], rule exI [of _ r], rule exI [of _ sb], rule exI [of _ cs], simp)
qed

lemma open_round:
  assumes bt: "between_rounds d a b" and left: "written_data a < length d"
  shows "\<exists>n a1 cs. send_all now a = Some (Ok True, a1) \<and> min 9600 (length d - written_data a) \<le> n \<and> n \<le> length d - written_data a \<and>
     sb_view (send_buffer a1) = at_offsets (written_data a) cs \<and> concat cs = take n (drop (written_data a) d) \<and>
     round_ready a1 \<and> sent_count a1 = 0 \<and> sb_pos (send_buffer a1) = 0 \<and> queued (sb_view (send_buffer a1)) \<le> max_data (send_buffer a1) \<and>
     written_data a1 = written_data a + n \<and> data_to_send a1 = d \<and> norm2_vec a1 = norm2_vec a \<and> sent_dic a1 = sent_dic a \<and>
     high_priority a1 = 0 \<and> decre_win (recovery_of a1) = 0 \<and>
     room a1 b (length (rest_of a1) + (length d - written_data a - n)) (elicts a1 + (length d - written_data a - n))"
proof -
  obtain n r sb cs where sa: "send_all now a = Some (Ok True, opened now a n r sb)"
    and n: "min 9600 (length d - written_data a) \<le> n" "n \<le> length d - written_data a"
    and v: "sb_view sb = at_offsets (written_data a) cs" and cs: "concat cs = take n (drop (written_data a) d)" "\<forall>c \<in> set cs. c \<noteq> []"
    and o: "in_round sb" "sb_pos sb = 0" "queued (sb_view sb) \<le> max_data sb"
    and r: "incre_win r \<le> incre_win (recovery_of a)" "decre_win r = 0" "max_datagram_size r = 1200" and i: "snd_inv (opened now a n r sb)"
    using send_all_opens [OF bt left, of now] by blast
  define a1 where "a1 = opened now a n r sb"
  have f: "send_buffer a1 = sb" "rtt a1 = rtt a" "is_server a1 = is_server a" "recv_flag a1 = recv_flag a" "stop_flag a1 = False" "stop_ack a1 = False"
    "sent_count a1 = sent_count a" "sent_number a1 = 0" "pkt_num_spaces a1 = pkt_num_spaces a" "norm2_vec a1 = norm2_vec a" "sent_dic a1 = sent_dic a"
    "recovery_of a1 = r" "high_priority a1 = 0" "recv_count a1 = recv_count a" "written_data a1 = written_data a + n" "data_to_send a1 = data_to_send a"
    by (simp_all add: a1_def opened_def set_handshake_def)
  have rest: "rest_of a1 = at_offsets (written_data a) cs" using o(2) v f(1) by simp
  have len: "length cs \<le> n" "cs \<noteq> []" using length_le_concat [OF cs(2)] cs(1) n left by auto
  have sc: "sent_count a1 = 0" using bt by (simp add: f between_rounds_def)
  have el: "elicts a1 = length cs div 8 + 1" unfolding elicts_def rest sc by simp
  have el_n: "elicts a1 \<le> n" using len el by (cases cs) auto
  have sb: "sb_inv sb" "sb_off sb = written_data a + n" using i f unfolding a1_def [symmetric] by (simp_all add: snd_inv_def)
  have fresh: "budget_left a1 k \<and> k div 1024 < length (norm2_vec a1)" if "(k, c) \<in> set (rest_of a1)" for k c
  proof -
    have "written_data a \<le> k" using that at_offsets_ge unfolding rest by blast
    moreover have "k < written_data a + n" using sb_view_entry(4) [OF sb(1), of k c] that v sb(2) unfolding rest by simp
    ultimately show ?thesis
      using bt n(2) left unfolding between_rounds_def budget_left_def f by (auto simp: less_mult_imp_div_less dom_def)
  qed
  have rm: "room a1 b (length (rest_of a1) + (length d - written_data a - n)) (elicts a1 + (length d - written_data a - n))"
  proof -
    have "room a b (length d - written_data a) (length d - written_data a)" using bt by (simp add: between_rounds_def)
    then have "room a b (length cs + (length d - written_data a - n)) (elicts a1 + (length d - written_data a - n))"
      by (rule room_mono) (use len(1) el_n n(2) in simp_all)
    then show ?thesis using r unfolding rest by (simp add: room_def f)
  qed
  have "round_ready a1"
    using bt i o(1) fresh rm unfolding round_ready_def a1_def [symmetric]
    by (auto simp: f between_rounds_def room_def)
  with sa n v cs o rm f r bt show ?thesis unfolding a1_def [symmetric] between_rounds_def by (metis (no_types, lifting))
qed

section \<open>A round and all rounds\<close>

definition full_round ::
  "'b octets \<Rightarrow> ((nat, nat) hash_map \<Rightarrow> (nat \<times> nat) list) \<Rightarrow> bytes \<Rightarrow> connection \<times> connection \<Rightarrow> connection \<times> connection \<Rightarrow> bool" where
  "full_round oc iter out s s' \<longleftrightarrow> (\<exists>now a1 n. send_all now (fst s) = Some (Ok True, a1) \<and>
     relay n {} oc iter now out (a1, snd s) = Some s' \<and> is_stopped (fst s'))"

lemma delivered_extends:
  assumes "delivered d b j" and v: "sb_view (send_buffer a) = at_offsets j cs" and cs: "concat cs = take n (drop j d)" "n \<le> length d - j"
    and ne: "\<forall>x \<in> set (sb_view (send_buffer a)). snd x \<noteq> []"
    and p: "progressed {} a b (fst ` set (sb_view (send_buffer a))) a' b'"
  shows "delivered d b' (j + n)"
  unfolding delivered_def
proof (intro allI impI)
  fix i assume i: "i < j + n"
  have len: "length (concat cs) = n" using cs by simp
  show "\<exists>k ch. holds b' (k, ch) \<and> k \<in> dom (hm_get (recv_dic b')) \<and> k \<le> i \<and> i < k + length ch \<and> k + length ch \<le> j + n \<and> ch = take (length ch) (drop k d)"
  proof (cases "i < j")
    case True
    then obtain k ch where x: "holds b (k, ch)" "k \<le> i" "i < k + length ch" "k + length ch \<le> j" "ch = take (length ch) (drop k d)"
      and noted: "k \<in> dom (hm_get (recv_dic b))"
      using assms(1) unfolding delivered_def by blast
    have "apart (sb_view (send_buffer a)) (k, ch)"
      unfolding apart_def
    proof (intro ballI impI)
      fix y assume y: "y \<in> set (sb_view (send_buffer a))" "fst y + length (snd y) = fst (k, ch) + length (snd (k, ch))"
      then have "j \<le> fst y" "snd y \<noteq> []" using at_offsets_ge [of "fst y" "snd y" j cs] ne v by simp_all
      then have "j < fst y + length (snd y)" by (simp add: trans_le_add1 flip: length_greater_0_conv)
      with y(2) x(4) show "y = (k, ch)" by simp
    qed
    then have "holds b' (k, ch)" using progressedD(7) [OF p] x(1) by blast
    moreover have "k + length ch \<le> j + n" using x(4) by simp
    moreover have "k \<in> dom (hm_get (recv_dic b'))" using noted unfolding progressedD(5) [OF p] by blast
    ultimately show ?thesis using x by blast
  next
    case False
    then obtain x where x: "x \<in> set (at_offsets j cs)" "holds_byte i x" using at_offsets_cover [of j i cs] i len by auto
    have "holds b' x" using progressedD(6) [OF p] x(1) v by auto
    moreover have "fst x \<in> dom (hm_get (recv_dic b'))" using x(1) unfolding progressedD(5) [OF p] v by blast
    moreover have "cut_from d x" by (rule at_offsets_cut [OF x(1) cs(1)])
    moreover have "fst x + length (snd x) \<le> j + n" using at_offsets_end [of "fst x" "snd x" j cs] x(1) len by simp
    ultimately show ?thesis using x(2) unfolding cut_from_def holds_byte_def by (metis prod.collapse)
  qed
qed

lemma all_settled: "progressed {} a b os a' b' \<Longrightarrow> marks a' b' = marks a b \<union> os"
  using progressedD(5,8) [of "{}" a b os a' b'] by (auto simp: settled_def)

lemma transfer_round:
  assumes oc: "octets_spec oc" and it: "iterates iter" and out: "1350 \<le> length out"
    and bt: "between_rounds d a b" and left: "written_data a < length d"
  shows "\<exists>a' b'. full_round oc iter out (a, b) (a', b') \<and> between_rounds d a' b' \<and>
     min (length d) (written_data a + 9600) \<le> written_data a'"
proof -
  obtain n a1 cs where sa: "send_all now a = Some (Ok True, a1)" and n: "min 9600 (length d - written_data a) \<le> n" "n \<le> length d - written_data a"
    and v: "sb_view (send_buffer a1) = at_offsets (written_data a) cs" and cs: "concat cs = take n (drop (written_data a) d)"
    and rr: "round_ready a1" "sent_count a1 = 0" "sb_pos (send_buffer a1) = 0" "queued (sb_view (send_buffer a1)) \<le> max_data (send_buffer a1)"
    and f: "written_data a1 = written_data a + n" "data_to_send a1 = d" "norm2_vec a1 = norm2_vec a" "sent_dic a1 = sent_dic a"
      "high_priority a1 = 0" "decre_win (recovery_of a1) = 0"
    and rm: "room a1 b (length (rest_of a1) + (length d - written_data a - n)) (elicts a1 + (length d - written_data a - n))"
    using open_round [OF bt left] by blast
  let ?v = "sb_view (send_buffer a1)"
  have b: "waiting b" "delivered d b (written_data a)" using bt by (simp_all add: between_rounds_def)
  have a1: "sb_inv (send_buffer a1)" "sb_off (send_buffer a1) = written_data a + n" "rtt a1 \<noteq> 0" "is_server a1" "\<not> recv_flag a1"
    using rr(1) f(1) by (simp_all add: round_ready_def snd_inv_def)
  have ne: "\<forall>x \<in> set ?v. snd x \<noteq> []" using sb_view_entry(1) [OF a1(1)] by force
  have ro: "round_offsets a1 = map fst ?v"
    unfolding round_offsets_def using rr(3,4) window_prefix_all [OF _ ne, of 0] by simp
  have "room a1 b (length (round_offsets a1) + (length d - written_data a - n)) (reports_of a1 + (length d - written_data a - n))"
    by (rule room_mono [OF rm]) (use reports_le [of a1] in linarith)+
  from round_completes [OF oc it out rr(1,2) b(1) this, of "{}" now] obtain k a' b'
    where k: "relay k {} oc iter now out (a1, b) = Some (a', b')" and p: "progressed {} a1 b (fst ` set ?v) a' b'"
      and rm': "room a' b' (length d - written_data a - n) (length d - written_data a - n)"
      and e: "is_stopped a'" "unreported a' = []" "sb_pos (send_buffer a') = 0" "snd_inv a'"
    unfolding completes_def fst_conv snd_conv ro by auto
  have kp: "kept a1 a'" "waiting b'" "marks a' b' = marks a1 b \<union> fst ` set ?v" "dom (hm_get (sent_dic a')) = dom (hm_get (sent_dic a)) \<union> fst ` set ?v"
    using progressedD [OF p] f(4) all_settled [OF p] by auto
  have lo: "high_priority a' = 0" "decre_win (recovery_of a') = 0"
    using progressedD(9) [OF p] f(5,6) rr by (simp_all add: clean_def round_ready_def snd_inv_def unreported_def)
  have w: "written_data a' = written_data a + n" using kp(1) f(1) by (simp add: kept_def)
  have "sent_count a' = 0" using e(2,4) by (simp add: unreported_def snd_inv_def)
  moreover have "unacked (send_buffer a') = []"
    unfolding marks_unacked [OF e(2), of b'] kp(3) using kp(1) by (force simp: kept_def filter_empty_conv)
  moreover have "dom (hm_get (sent_dic a')) \<subseteq> {..<written_data a + n}"
    using bt sb_view_entry(4) [OF a1(1)] a1(2) unfolding kp(4) between_rounds_def by force
  moreover have "delivered d b' (written_data a + n)" by (rule delivered_extends [OF b(2) v cs n(2) ne p])
  moreover have "length d \<le> 1024 * length (norm2_vec a)" using bt by (simp add: between_rounds_def)
  moreover have "length d - (written_data a + n) = length d - written_data a - n" by simp
  ultimately have "between_rounds d a' b'"
    using e(3,4) kp(1,2) lo f a1(3-5) rm' unfolding between_rounds_def w by (simp add: kept_def)
  moreover have "full_round oc iter out (a, b) (a', b')" unfolding full_round_def using sa k e(1) by auto
  moreover have "min (length d) (written_data a + 9600) \<le> written_data a'" using n(1) left unfolding w by simp
  ultimately show ?thesis by blast
qed

lemma one_more_round:
  assumes "0 < (y :: nat)" and "x + 9600 \<le> y \<or> x = 0" and "m \<le> (x + 9599) div 9600"
  shows "Suc m \<le> (y + 9599) div 9600"
  using assms(2)
proof
  assume "x + 9600 \<le> y"
  then have "(x + 9599 + 9600) div 9600 \<le> (y + 9599) div 9600" by (intro div_le_mono) simp
  then show ?thesis using assms(3) by (simp only: div_add_self2)
next
  assume "x = 0"
  with assms show ?thesis by (simp add: Suc_le_eq div_greater_zero_iff)
qed

lemma transfer_rounds:
  assumes oc: "octets_spec oc" and it: "iterates iter" and out: "1350 \<le> length out" and "between_rounds d a b"
  shows "\<exists>m a' b'. m \<le> (length d - written_data a + 9599) div 9600 \<and> (full_round oc iter out ^^ m) (a, b) (a', b') \<and>
     between_rounds d a' b' \<and> written_data a' = length d"
  using assms(4)
proof (induction "length d - written_data a" arbitrary: a b rule: less_induct)
  case less
  have le: "written_data a \<le> length d" using less.prems by (auto simp: between_rounds_def snd_inv_def)
  show ?case
  proof (cases "written_data a < length d")
    case True
    obtain a1 b1 where s: "full_round oc iter out (a, b) (a1, b1)" and b1: "between_rounds d a1 b1"
      and w: "min (length d) (written_data a + 9600) \<le> written_data a1"
      using transfer_round [OF oc it out less.prems True] by blast
    have "length d - written_data a1 < length d - written_data a" using w True by simp
    from less.hyps [OF this b1] obtain m a' b' where m: "m \<le> (length d - written_data a1 + 9599) div 9600"
      "(full_round oc iter out ^^ m) (a1, b1) (a', b')" and e: "between_rounds d a' b'" "written_data a' = length d" by blast
    have "0 < length d - written_data a" "length d - written_data a1 + 9600 \<le> length d - written_data a \<or> length d - written_data a1 = 0"
      using w True unfolding min_def by (simp, cases "length d \<le> written_data a + 9600") (simp, simp, linarith)
    from one_more_round [OF this m(1)] have "Suc m \<le> (length d - written_data a + 9599) div 9600" .
    moreover have "(full_round oc iter out ^^ Suc m) (a, b) (a', b')" by (rule relpowp_Suc_I2 [OF s m(2)])
    ultimately show ?thesis using e by blast
  next
    case False
    then have "written_data a = length d" using le by simp
    moreover have "(full_round oc iter out ^^ 0) (a, b) (a, b)" by simp
    ultimately show ?thesis using less.prems by (metis le0)
  qed
qed

section \<open>From opening to the end of the data\<close>

text \<open>When everything is written and acknowledged, \<open>send_all\<close> empties the queue and then reports that nothing is left.\<close>

lemma send_all_ends:
  assumes a: "snd_inv a" "data_to_send a = d" "unacked (send_buffer a) = []" "2 * incre_win (recovery_of a) < lim64" and w: "written_data a = length d"
  shows "\<exists>r a2. send_all now a = Some (Ok r, a2) \<and> sb_data (send_buffer a2) = [] \<and> (\<forall>t. \<exists>a3. send_all t a2 = Some (Ok False, a3))"
proof -
  let ?c = "set_handshake now (a\<lparr>stop_flag := False, stop_ack := False\<rparr>)"
  have over: "\<exists>a3. send_all t c = Some (Ok False, a3)" if "sb_data (send_buffer c) = []" "data_to_send c = d" "written_data c = length d" for t c
    using that by (simp add: send_all_def set_handshake_def Let_def)
  show ?thesis
  proof (cases "sb_data (send_buffer a) = []")
    case True
    then have "send_all now a = Some (Ok False, ?c)" "sb_data (send_buffer ?c) = []" "data_to_send ?c = d" "written_data ?c = length d"
      using a(2) w by (simp_all add: send_all_def set_handshake_def Let_def)
    then show ?thesis using over by blast
  next
    case False
    have f: "send_buffer ?c = send_buffer a" "data_to_send ?c = d" "written_data ?c = length d" "recovery_of ?c = recovery_of a"
      using a w by (simp_all add: set_handshake_def)
    have inv: "snd_inv ?c" using a(1) by (simp add: snd_inv_def set_handshake_def)
    obtain win r where rw: "round_window ?c = Some (win, r)" using window_exists [of ?c] a(4) unfolding f by metis
    have n0: "accepted (drop (written_data ?c) (data_to_send ?c)) win (send_buffer ?c) = 0" unfolding f by (simp add: accepted_def)
    obtain sb where sw: "send_all_write ?c = Some (Ok True, ?c\<lparr>high_priority := 0, sent_number := 0, recovery_of := r, send_buffer := sb,
        written_data := written_data ?c + 0, total_offset := total_offset ?c + 0\<rparr>)" and v: "sb_view sb = unacked (send_buffer ?c) @ []"
      using send_all_write_eq [OF inv rw] unfolding n0 if_P [OF refl] by blast
    define c2 where "c2 = ?c\<lparr>high_priority := 0, sent_number := 0, recovery_of := r, send_buffer := sb,
        written_data := written_data ?c + 0, total_offset := total_offset ?c + 0\<rparr>"
    have "send_all now a = send_all_write ?c" using False a(2) w by (simp add: send_all_def set_handshake_def Let_def)
    moreover have "sb_data (send_buffer c2) = []" "data_to_send c2 = d" "written_data c2 = length d"
      using v f a(3) by (simp_all add: c2_def sb_view_def)
    ultimately show ?thesis using sw over unfolding c2_def [symmetric] by metis
  qed
qed

lemma between_rounds_opened:
  assumes "t1 < t4" and "length d \<le> 1024 * length ns" and "19200 * length d < lim64"
  shows "between_rounds d (opened_sender t1 t4 (loaded (fresh_connection la pa True t0) d ns lo hi))
     (opened_receiver t3 (fresh_connection lb pb False t0'))"
proof -
  have "snd_inv (loaded (fresh_connection la pa True t0) d ns lo hi)" using snd_inv_loaded assms(3) by simp
  moreover have "unacked (SendBuf_new 10800) = []" "sb_pos (SendBuf_new 10800) = 0" by (simp_all add: unacked_def SendBuf_new_def sb_view_def)
  ultimately show ?thesis
    using assms
    by (simp add: between_rounds_def opened_sender_def opened_receiver_def loaded_def snd_inv_def waiting_def delivered_def room_def
        fresh_recovery_def RecvBuf_new_def PktNumSpace_new_def bt_wf_def)
qed

lemma fresh_handshake:
  assumes "octets_spec oc" and "26 \<le> length out"
  shows "\<exists>p q a1 b1. Connection_send_data oc iter t1 out (loaded (fresh_connection la pa True t0) d ns lo hi) = Some (Ok (26, \<lparr>send_from = la, send_to = pa\<rparr>), p, a1) \<and>
     recv_slice oc t2 (take 26 p) (fresh_connection lb pb False t0') = Some (Ok 0, b1) \<and> send_ack b1 \<and>
     Connection_send_data oc iter t3 out b1 = Some (Ok (26, \<lparr>send_from = lb, send_to = pb\<rparr>), q, opened_receiver t3 (fresh_connection lb pb False t0')) \<and>
     recv_slice oc t4 (take 26 q) a1 = Some (Ok 0, opened_sender t1 t4 (loaded (fresh_connection la pa True t0) d ns lo hi))"
proof -
  let ?a = "loaded (fresh_connection la pa True t0) d ns lo hi" and ?b = "fresh_connection lb pb False t0'"
  have s: "is_server ?a" "server ?a" "rtt ?a = 0" "\<not> is_stopped ?a" "recv_count ?a + 1 < lim64"
    "\<not> is_server ?b" "\<not> server ?b" "\<not> is_stopped ?b" "recv_count ?b + 1 < lim64"
    by (simp_all add: loaded_def is_stopped_def)
  have info: "send_info_of ?a = \<lparr>send_from = la, send_to = pa\<rparr>" "send_info_of ?b = \<lparr>send_from = lb, send_to = pb\<rparr>"
    by (simp_all add: send_info_of_def loaded_def fresh_connection_def)
  obtain p q a1 b1 where h: "Connection_send_data oc iter t1 out ?a = Some (Ok (26, send_info_of ?a), p @ drop 26 out, a1)" "length p = 26"
    "recv_slice oc t2 p ?b = Some (Ok 0, b1)" "send_ack b1"
    "Connection_send_data oc iter t3 out b1 = Some (Ok (26, send_info_of ?b), q @ drop 26 out, opened_receiver t3 ?b)" "length q = 26"
    "recv_slice oc t4 q a1 = Some (Ok 0, opened_sender t1 t4 ?a)"
    using handshake_run [OF assms(1) s assms(2,2), of iter t1 t2 t3 t4] by blast
  have take: "take 26 (p @ drop 26 out) = p" "take 26 (q @ drop 26 out) = q" using h(2,6) by simp_all
  show ?thesis using h(1,3,4,5,7) unfolding info by (metis take)
qed

text \<open>
  (C4) A whole transfer over a network that loses nothing, from opening the two connections to the end of the data.
  For data of any length (up to the width of the counters) with a norm for every block, the handshake
  succeeds, and if the clock advances during it, at most one round for every 9600 bytes delivers everything:
  no call panics, each round ends with a stopped sender, and at the end every byte of the data is in a chunk
  the receiver holds at its offset with the bytes of the data.  Then \<open>send_all\<close> empties the sender's queue, and
  from then on reports that nothing is left.
\<close>

theorem lossless_transfer_completes:
  assumes "octets_spec oc" and "iterates iter" and "1350 \<le> length out" and "t1 < t4"
    and "length d \<le> 1024 * length ns" and "19200 * length d < lim64"
  shows "\<exists>p q a1 b1 a2 b2 m a' b' r a''.
     Connection_send_data oc iter t1 out (loaded (fresh_connection la pa True t0) d ns lo hi) = Some (Ok (26, \<lparr>send_from = la, send_to = pa\<rparr>), p, a1) \<and>
     recv_slice oc t2 (take 26 p) (fresh_connection lb pb False t0') = Some (Ok 0, b1) \<and> send_ack b1 \<and>
     Connection_send_data oc iter t3 out b1 = Some (Ok (26, \<lparr>send_from = lb, send_to = pb\<rparr>), q, b2) \<and>
     recv_slice oc t4 (take 26 q) a1 = Some (Ok 0, a2) \<and>
     m \<le> (length d + 9599) div 9600 \<and> (full_round oc iter out ^^ m) (a2, b2) (a', b') \<and>
     (\<forall>i < length d. \<exists>k ch. bt_get (rv_data (rec_buffer b')) (k + length ch) = Some (RangeBuf_from ch k) \<and>
        k \<le> i \<and> i < k + length ch \<and> ch = take (length ch) (drop k d)) \<and>
     send_all t5 a' = Some (Ok r, a'') \<and> sb_data (send_buffer a'') = [] \<and> (\<forall>t. \<exists>a3. send_all t a'' = Some (Ok False, a3))"
proof -
  let ?a = "loaded (fresh_connection la pa True t0) d ns lo hi" and ?b = "fresh_connection lb pb False t0'"
  have "26 \<le> length out" using assms(3) by simp
  from fresh_handshake [OF assms(1) this, of iter t1 la pa t0 d ns lo hi t2 lb pb t0' t3 t4] obtain p q a1 b1
    where h: "Connection_send_data oc iter t1 out ?a = Some (Ok (26, \<lparr>send_from = la, send_to = pa\<rparr>), p, a1)"
      "recv_slice oc t2 (take 26 p) ?b = Some (Ok 0, b1)" "send_ack b1"
      "Connection_send_data oc iter t3 out b1 = Some (Ok (26, \<lparr>send_from = lb, send_to = pb\<rparr>), q, opened_receiver t3 ?b)"
      "recv_slice oc t4 (take 26 q) a1 = Some (Ok 0, opened_sender t1 t4 ?a)"
    by blast
  have "written_data (opened_sender t1 t4 ?a) = 0" by (simp add: opened_sender_def loaded_def)
  then obtain m a' b' where m: "m \<le> (length d + 9599) div 9600"
    "(full_round oc iter out ^^ m) (opened_sender t1 t4 ?a, opened_receiver t3 ?b) (a', b')"
    and e: "between_rounds d a' b'" "written_data a' = length d"
    using transfer_rounds [OF assms(1-3) between_rounds_opened [OF assms(4-6)], of la pa t0 lo hi t3 lb pb t0'] by auto
  have "delivered d b' (length d)" using e by (simp add: between_rounds_def)
  then have "\<forall>i < length d. \<exists>k ch. bt_get (rv_data (rec_buffer b')) (k + length ch) = Some (RangeBuf_from ch k) \<and>
      k \<le> i \<and> i < k + length ch \<and> ch = take (length ch) (drop k d)"
    unfolding delivered_def holds_def by fastforce
  moreover obtain r a'' where "send_all t5 a' = Some (Ok r, a'')" "sb_data (send_buffer a'') = []" "\<forall>t. \<exists>a3. send_all t a'' = Some (Ok False, a3)"
    using send_all_ends [of a' d t5] e by (auto simp: between_rounds_def room_def)
  ultimately show ?thesis
    using h m by metis
qed

theorem lossless_transfer_completes_witness:
  "\<exists>a2 b2 m a' b' r a''. m \<le> 1 \<and> (full_round list_octets id (replicate 1350 0) ^^ m) (a2, b2) (a', b') \<and>
     (\<forall>i < 3. \<exists>k ch. bt_get (rv_data (rec_buffer b')) (k + length ch) = Some (RangeBuf_from ch k) \<and>
        k \<le> i \<and> i < k + length ch \<and> ch = take (length ch) (drop k [1, 2, 3])) \<and>
     send_all 20 a' = Some (Ok r, a'') \<and> sb_data (send_buffer a'') = []"
proof -
  have "length (replicate 1350 0 :: bytes) \<ge> 1350" "(3 :: instant) < 8" "length [1, 2, 3 :: u8] \<le> 1024 * length [Fin 1]"
    "19200 * length [1, 2, 3 :: u8] < lim64" by simp_all
  from lossless_transfer_completes [OF list_oc.octets_spec_axioms id_iterates this, of "SocketAddrV4 0 1" "SocketAddrV4 0 2" 0 "Fin 0" "Fin 0" 5
      "SocketAddrV4 0 2" "SocketAddrV4 0 1" 0 6 20]
  show ?thesis
  proof (elim exE conjE, goal_cases)
    case (1 p q a1 b1 a2 b2 m a' b' r a'')
    have len: "length [1, 2, 3 :: u8] = 3" by simp
    have m: "m \<le> 1" using 1(6) by simp
    note 1(8) [unfolded len]
    with m 1(7,9,10) show ?case by blast
  qed
qed

theorem round_with_losses_witness:
  "\<exists>a b a1 n a' b' (sent :: (nat \<times> bytes) list). between_rounds [1, 2, 3] a b \<and> send_all 7 a = Some (Ok True, a1) \<and>
     relay n {0} list_octets id 7 (replicate 1350 0) (a1, b) = Some (a', b') \<and> is_stopped a' \<and> waiting b' \<and>
     unacked (send_buffer a') = filter (\<lambda>(k, _). \<not> (k \<in> fst ` set sent \<and>
       (k \<notin> {0} \<or> k \<in> dom (hm_get (recv_dic b)) \<or> hm_get (sent_dic a') k = Some 0))) (unacked (send_buffer a1))"
proof -
  define a b where "a = opened_sender 3 8 (loaded (fresh_connection (SocketAddrV4 0 1) (SocketAddrV4 0 2) True 0) [1, 2, 3] [Fin 1] (Fin 0) (Fin 0))"
    and "b = opened_receiver 6 (fresh_connection (SocketAddrV4 0 2) (SocketAddrV4 0 1) False 0)"
  have bt: "between_rounds [1, 2, 3] a b" unfolding a_def b_def by (rule between_rounds_opened) simp_all
  have "written_data a < length [1, 2, 3 :: u8]" by (simp add: a_def opened_sender_def loaded_def)
  from open_round [OF bt this, of 7] obtain n a1 where sa: "send_all 7 a = Some (Ok True, a1)" and r: "round_ready a1" "sent_count a1 = 0"
    and rm: "room a1 b (length (rest_of a1) + (length [1, 2, 3 :: u8] - written_data a - n)) (elicts a1 + (length [1, 2, 3 :: u8] - written_data a - n))"
    by blast
  define sent where "sent = window_prefix (max_data (send_buffer a1)) (queued (take (sb_pos (send_buffer a1)) (sb_view (send_buffer a1)))) (rest_of a1)"
  have rm': "room a1 b (length (rest_of a1)) (elicts a1)" by (rule room_mono [OF rm]) simp_all
  have w: "waiting b" and out: "1350 \<le> length (replicate 1350 0 :: bytes)" using bt by (simp_all add: between_rounds_def)
  obtain k a' b' where k: "relay k {0} list_octets id 7 (replicate 1350 0) (a1, b) = Some (a', b')" "is_stopped a'" "waiting b'"
    "unacked (send_buffer a') = filter (\<lambda>(k, _). \<not> (k \<in> fst ` set sent \<and> (k \<notin> {0} \<or> k \<in> dom (hm_get (recv_dic b)) \<or> hm_get (sent_dic a') k = Some 0))) (unacked (send_buffer a1))"
    using round_with_losses [OF list_oc.octets_spec_axioms id_iterates out r w rm', of "{0}" 7] unfolding Let_def sent_def [symmetric]
    by (elim exE conjE) (rule that)
  show ?thesis
    by (rule exI [of _ a], rule exI [of _ b], rule exI [of _ a1], rule exI [of _ k], rule exI [of _ a'], rule exI [of _ b'], rule exI [of _ sent])
      (intro conjI bt sa k)
qed

section \<open>Runs of the system\<close>

text \<open>The two endpoints of a state of the system that was reached without reading from the receive buffer.\<close>

definition reaches ::
  "'b octets \<Rightarrow> ((nat, nat) hash_map \<Rightarrow> (nat \<times> nat) list) \<Rightarrow> system \<Rightarrow> connection \<Rightarrow> connection \<Rightarrow> bool" where
  "reaches oc iter s0 a b \<longleftrightarrow> (\<exists>s. (sys_step oc iter)\<^sup>*\<^sup>* s0 s \<and> snder s = a \<and> rcver s = b \<and> taken s = taken s0)"

lemma reachesI: "(sys_step oc iter)\<^sup>*\<^sup>* s0 s \<Longrightarrow> taken s = taken s0 \<Longrightarrow> reaches oc iter s0 (snder s) (rcver s)"
  unfolding reaches_def by blast

lemma reaches_round:
  assumes "reaches oc iter s0 a b" and "send_all now a = Some (r, a')"
  shows "reaches oc iter s0 a' b"
proof -
  obtain s where s: "(sys_step oc iter)\<^sup>*\<^sup>* s0 s" "snder s = a" "rcver s = b" "taken s = taken s0" using assms(1) unfolding reaches_def by blast
  have "sys_step oc iter s (s\<lparr>snder := a'\<rparr>)" using assms(2) s(2) by (intro snd_round) simp
  from reachesI [OF rtranclp.rtrancl_into_rtrancl [OF s(1) this]] s show ?thesis by simp
qed

lemma reaches_lost:
  assumes "reaches oc iter s0 a b" and "1350 \<le> length out" and "Connection_send_data oc iter now out a = Some (r, p, a')"
  shows "reaches oc iter s0 a' b"
proof -
  obtain s where s: "(sys_step oc iter)\<^sup>*\<^sup>* s0 s" "snder s = a" "rcver s = b" "taken s = taken s0" using assms(1) unfolding reaches_def by blast
  have "sys_step oc iter s (s\<lparr>snder := a', to_rcver := to_rcver s \<union> emitted r p\<rparr>)"
    using assms(2,3) s(2) by (intro snd_send) simp_all
  from reachesI [OF rtranclp.rtrancl_into_rtrancl [OF s(1) this]] s show ?thesis by simp
qed

text \<open>A datagram of the sender that arrives, and an answer that arrives.\<close>

lemma reaches_datagram:
  assumes "reaches oc iter s0 a b" and "1350 \<le> length out" and "Connection_send_data oc iter now out a = Some (Ok (n, info), p, a')"
    and "recv_slice oc now' (take n p) b = Some (r, b')"
  shows "reaches oc iter s0 a' b'"
proof -
  obtain s where s: "(sys_step oc iter)\<^sup>*\<^sup>* s0 s" "snder s = a" "rcver s = b" "taken s = taken s0" using assms(1) unfolding reaches_def by blast
  let ?s1 = "s\<lparr>snder := a', to_rcver := to_rcver s \<union> emitted (Ok (n, info)) p\<rparr>"
  have "sys_step oc iter s ?s1" using assms(2,3) s(2) by (intro snd_send) simp_all
  moreover have "sys_step oc iter ?s1 (?s1\<lparr>rcver := b'\<rparr>)"
    by (rule rcv_recv [of "take n p"]) (use assms(4) s(3) in \<open>simp_all add: emitted_def\<close>)
  ultimately have "(sys_step oc iter)\<^sup>*\<^sup>* s0 (?s1\<lparr>rcver := b'\<rparr>)" using s(1) by (meson rtranclp.rtrancl_into_rtrancl)
  from reachesI [OF this] s show ?thesis by simp
qed

lemma reaches_answer:
  assumes "reaches oc iter s0 a b" and "1350 \<le> length out" and "Connection_send_data oc iter now out b = Some (r, q, b')"
  shows "reaches oc iter s0 a b'"
    and "r = Ok (n, info) \<Longrightarrow> recv_slice oc now' (take n q) a = Some (r', a') \<Longrightarrow> reaches oc iter s0 a' b'"
proof -
  obtain s where s: "(sys_step oc iter)\<^sup>*\<^sup>* s0 s" "snder s = a" "rcver s = b" "taken s = taken s0" using assms(1) unfolding reaches_def by blast
  let ?s1 = "s\<lparr>rcver := b', to_snder := to_snder s \<union> emitted r q\<rparr>"
  have "sys_step oc iter s ?s1" using assms(2,3) s(3) by (intro rcv_send) simp_all
  with s(1) have 1: "(sys_step oc iter)\<^sup>*\<^sup>* s0 ?s1" by (rule rtranclp.rtrancl_into_rtrancl)
  from reachesI [OF 1] s show "reaches oc iter s0 a b'" by simp
  assume "r = Ok (n, info)" "recv_slice oc now' (take n q) a = Some (r', a')"
  then have "sys_step oc iter ?s1 (?s1\<lparr>snder := a'\<rparr>)"
    by (intro snd_recv [of "take n q"]) (use s(2) in \<open>simp_all add: emitted_def\<close>)
  from reachesI [OF rtranclp.rtrancl_into_rtrancl [OF 1 this]] s show "reaches oc iter s0 a' b'" by simp
qed

text \<open>So every turn of the two endpoints is a run of the system, and so is the handshake.\<close>

lemma reaches_relay_step:
  assumes st: "reaches oc iter s0 a b" and out: "1350 \<le> length out" and r: "relay_step L oc iter now out (a, b) = Some (a', b')"
  shows "reaches oc iter s0 a' b'"
proof -
  obtain res p a1 where s: "Connection_send_data oc iter now out a = Some (res, p, a1)"
    using r by (auto simp: relay_step_def Option.bind_eq_Some_conv)
  note lost = reaches_lost [OF st out s]
  show ?thesis
  proof (cases res)
    case (Err e)
    then show ?thesis using r s lost by (simp add: relay_step_def)
  next
    case (Ok v)
    obtain n info where v: "v = (n, info)" by (cases v)
    note s' = s [unfolded Ok v]
    show ?thesis
    proof (cases "lost_in L (take n p)")
      case True
      then show ?thesis using r s' lost by (simp add: relay_step_def)
    next
      case False
      obtain r1 b1 where b1: "recv_slice oc now (take n p) b = Some (r1, b1)"
        using r s' False by (auto simp: relay_step_def Option.bind_eq_Some_conv)
      note arrived = reaches_datagram [OF st out s' b1]
      show ?thesis
      proof (cases "send_ack b1")
        case False
        then show ?thesis using r s' b1 arrived \<open>\<not> lost_in L (take n p)\<close> by (simp add: relay_step_def)
      next
        case True
        obtain r2 q b2 where q: "Connection_send_data oc iter now out b1 = Some (r2, q, b2)"
          using r s' b1 True False by (auto simp: relay_step_def Option.bind_eq_Some_conv)
        show ?thesis
        proof (cases r2)
          case (Err e)
          then show ?thesis using r s' b1 True False q reaches_answer(1) [OF arrived out q] by (simp add: relay_step_def)
        next
          case (Ok v2)
          obtain n2 info2 where v2: "v2 = (n2, info2)" by (cases v2)
          obtain r3 a2 where a2: "recv_slice oc now (take n2 q) a1 = Some (r3, a2)" "a' = a2" "b' = b2"
            using r s' b1 True False q Ok v2 by (auto simp: relay_step_def Option.bind_eq_Some_conv)
          from reaches_answer(2) [OF arrived out q Ok [unfolded v2] a2(1)] show ?thesis unfolding a2(2,3) .
        qed
      qed
    qed
  qed
qed

lemma reaches_relay:
  "reaches oc iter s0 a b \<Longrightarrow> 1350 \<le> length out \<Longrightarrow> relay n L oc iter now out (a, b) = Some (a', b') \<Longrightarrow> reaches oc iter s0 a' b'"
proof (induction n arbitrary: a b)
  case (Suc n)
  from Suc.prems(3) obtain a1 b1 where s: "relay_step L oc iter now out (a, b) = Some (a1, b1)" "relay n L oc iter now out (a1, b1) = Some (a', b')"
    by (auto simp: Option.bind_eq_Some_conv)
  from Suc.IH [OF reaches_relay_step [OF Suc.prems(1,2) s(1)] Suc.prems(2) s(2)] show ?case .
qed simp

lemma reaches_opened:
  assumes "octets_spec oc" and "1350 \<le> length (out :: bytes)"
  shows "reaches oc iter (sys_init d ns lo hi)
     (opened_sender t1 t4 (loaded (fresh_connection (SocketAddrV4 0 1) (SocketAddrV4 0 2) True 0) d ns lo hi))
     (opened_receiver t3 (fresh_connection (SocketAddrV4 0 2) (SocketAddrV4 0 1) False 0))"
proof -
  let ?s0 = "sys_init d ns lo hi" and ?a = "loaded (fresh_connection (SocketAddrV4 0 1) (SocketAddrV4 0 2) True 0) d ns lo hi"
    and ?b = "fresh_connection (SocketAddrV4 0 2) (SocketAddrV4 0 1) False 0"
  have out: "26 \<le> length out" using assms(2) by simp
  have st: "reaches oc iter ?s0 ?a ?b" using reachesI [of oc iter ?s0 ?s0] by (simp add: sys_init_def)
  obtain p q a1 b1 where h: "Connection_send_data oc iter t1 out ?a = Some (Ok (26, \<lparr>send_from = SocketAddrV4 0 1, send_to = SocketAddrV4 0 2\<rparr>), p, a1)"
    "recv_slice oc t1 (take 26 p) ?b = Some (Ok 0, b1)"
    "Connection_send_data oc iter t3 out b1 = Some (Ok (26, \<lparr>send_from = SocketAddrV4 0 2, send_to = SocketAddrV4 0 1\<rparr>), q, opened_receiver t3 ?b)"
    "recv_slice oc t4 (take 26 q) a1 = Some (Ok 0, opened_sender t1 t4 ?a)"
    using fresh_handshake [OF assms(1) out, of iter t1 "SocketAddrV4 0 1" "SocketAddrV4 0 2" 0 d ns lo hi t1 "SocketAddrV4 0 2" "SocketAddrV4 0 1" 0 t3 t4] by blast
  show ?thesis by (rule reaches_answer(2) [OF reaches_datagram [OF st assms(2) h(1,2)] assms(2) h(3) refl h(4)])
qed

text \<open>After \<open>send_all\<close> with no high-priority losses the next window is open.\<close>

lemma send_all_window:
  assumes a: "snd_inv a" "2 * incre_win (recovery_of a) < lim64" "high_priority a = 0" and s: "send_all now a = Some (res, a2)"
  shows "\<exists>w r. round_window a2 = Some (w, r) \<and> 0 < w"
proof -
  let ?c = "set_handshake now (a\<lparr>stop_flag := False, stop_ack := False\<rparr>)"
  have f: "recovery_of ?c = recovery_of a" "high_priority ?c = high_priority a" by (simp_all add: set_handshake_def)
  have inv: "snd_inv ?c" using a(1) by (simp add: snd_inv_def set_handshake_def)
  obtain w r where rw: "round_window ?c = Some (w, r)" "incre_win r \<le> incre_win (recovery_of a)" "9600 \<le> w"
    using window_exists [of ?c] a(2,3) unfolding f by blast
  obtain sb where sw: "send_all_write ?c = Some (Ok True, ?c\<lparr>high_priority := 0, sent_number := 0, recovery_of := r, send_buffer := sb,
      written_data := written_data ?c + accepted (drop (written_data ?c) (data_to_send ?c)) w (send_buffer ?c),
      total_offset := total_offset ?c + accepted (drop (written_data ?c) (data_to_send ?c)) w (send_buffer ?c)\<rparr>)"
    using send_all_write_eq [OF inv rw(1)] by blast
  consider "a2 = ?c" | "send_all_write ?c = Some (res, a2)" using s by (auto simp: send_all_def Let_def split: if_splits)
  then show ?thesis
  proof cases
    case 1
    with rw show ?thesis by (intro exI [of _ w] exI [of _ r]) simp
  next
    case 2
    then have "recovery_of a2 = r" "high_priority a2 = 0" using sw by auto
    then obtain w2 r2 where "round_window a2 = Some (w2, r2)" "9600 \<le> w2" using window_exists [of a2] rw(2) a(2) by auto
    then show ?thesis by (intro exI [of _ w2] exI [of _ r2]) simp
  qed
qed

text \<open>A run with three bytes: the handshake, a round in which everything arrives, and the call that empties the queue.\<close>

lemma demo_delivered:
  obtains s ch where "(sys_step list_octets id)\<^sup>*\<^sup>* (sys_init [1, 2, 3] [Fin 1] (Fin 0) (Fin 0)) s" "written_data (snder s) = 3"
    "sb_data (send_buffer (snder s)) = []" "taken s = {}" "0 \<in> dom (hm_get (recv_dic (rcver s)))" "holds (rcver s) (0, ch)" "ch \<noteq> []"
    "\<exists>w r. round_window (snder s) = Some (w, r) \<and> 0 < w"
proof -
  let ?d = "[1, 2, 3] :: bytes" and ?out = "replicate 1350 0 :: bytes" and ?s0 = "sys_init [1, 2, 3] [Fin 1] (Fin 0) (Fin 0)"
  define a b where "a = opened_sender 3 8 (loaded (fresh_connection (SocketAddrV4 0 1) (SocketAddrV4 0 2) True 0) ?d [Fin 1] (Fin 0) (Fin 0))"
    and "b = opened_receiver 6 (fresh_connection (SocketAddrV4 0 2) (SocketAddrV4 0 1) False 0)"
  have bt: "between_rounds ?d a b" unfolding a_def b_def by (rule between_rounds_opened) simp_all
  have out: "1350 \<le> length ?out" by simp
  have r0: "reaches list_octets id ?s0 a b"
    unfolding a_def b_def by (rule reaches_opened [OF list_oc.octets_spec_axioms out])
  have w: "written_data a = 0" by (simp add: a_def opened_sender_def loaded_def)
  then have "written_data a < length ?d" by simp
  from transfer_round [OF list_oc.octets_spec_axioms id_iterates out bt this] obtain a' b'
    where fr: "full_round list_octets id ?out (a, b) (a', b')" and bt': "between_rounds ?d a' b'"
      and w': "min (length ?d) (written_data a + 9600) \<le> written_data a'" by blast
  obtain now a1 n where f: "send_all now a = Some (Ok True, a1)" "relay n {} list_octets id now ?out (a1, b) = Some (a', b')"
    using fr unfolding full_round_def fst_conv snd_conv by blast
  have r1: "reaches list_octets id ?s0 a' b'" by (rule reaches_relay [OF reaches_round [OF r0 f(1)] out f(2)])
  have a': "snd_inv a'" "data_to_send a' = ?d" "unacked (send_buffer a') = []" "2 * incre_win (recovery_of a') < lim64" "high_priority a' = 0"
    "written_data a' \<le> length ?d" "delivered ?d b' (written_data a')"
    using bt' by (auto simp: between_rounds_def room_def snd_inv_def)
  then have w3: "written_data a' = length ?d" using w' w by simp
  from send_all_ends [OF a'(1-4) w3, of 20] obtain r a2 where z: "send_all 20 a' = Some (Ok r, a2)" "sb_data (send_buffer a2) = []"
    by (elim exE conjE) (rule that)
  obtain s where s: "(sys_step list_octets id)\<^sup>*\<^sup>* ?s0 s" "snder s = a2" "rcver s = b'" "taken s = taken ?s0"
    using reaches_round [OF r1 z(1)] unfolding reaches_def by blast
  have inv: "snd_inv a2" "sb_off (send_buffer a') \<le> sb_off (send_buffer a2)" "data_to_send a2 = ?d"
    using send_all_snd_inv [OF a'(1) z(1)] send_all_store [OF a'(1) z(1)] a'(2) by simp_all
  then have "written_data a2 = 3" using w3 a'(1) by (auto simp: snd_inv_def)
  moreover obtain ch where "holds b' (0, ch)" "0 \<in> dom (hm_get (recv_dic b'))" "ch \<noteq> []"
  proof -
    have "0 < written_data a'" using w3 by simp
    then obtain k ch where k: "holds b' (k, ch)" "k \<in> dom (hm_get (recv_dic b'))" "k \<le> 0" "0 < k + length ch"
      using a'(7) unfolding delivered_def by blast
    then have "k = 0" "ch \<noteq> []" by simp_all
    with k show thesis by (intro that [of ch]) simp_all
  qed
  ultimately show thesis
    using that [of s ch] s z(2) send_all_window [OF a'(1,4,5) z(1)] by (simp add: sys_init_def)
qed

theorem every_byte_accounted_witness:
  "\<exists>s cs. (sys_step list_octets id)\<^sup>*\<^sup>* (sys_init [1, 2, 3] [Fin 1] (Fin 0) (Fin 0)) s \<and> concat cs = [1, 2, 3] \<and>
     sb_view (send_buffer (snder s)) = [] \<and> taken s = {} \<and> (0, hd cs) \<in> set (at_offsets 0 cs) \<and> hd cs \<noteq> [] \<and>
     (\<exists>b. (length (hd cs), b) \<in> set (rv_data (rec_buffer (rcver s))) \<and> rb_off b = 0 \<and> rb_data b = hd cs)"
proof -
  obtain s ch where s: "(sys_step list_octets id)\<^sup>*\<^sup>* (sys_init [1, 2, 3] [Fin 1] (Fin 0) (Fin 0)) s" "written_data (snder s) = 3"
    "sb_data (send_buffer (snder s)) = []" "taken s = {}" "0 \<in> dom (hm_get (recv_dic (rcver s)))" by (rule demo_delivered)
  from every_byte_accounted [OF list_oc.octets_spec_axioms id_iterates _ s(1)] s(2,4) obtain cs
    where cs: "concat cs = [1, 2, 3]" "\<forall>ch \<in> set cs. ch \<noteq> []" and h: "\<forall>(k, ch) \<in> set (at_offsets 0 cs).
        k \<in> dom (hm_get (recv_dic (rcver s))) \<longrightarrow>
         (\<exists>b. (k + length ch, b) \<in> set (rv_data (rec_buffer (rcver s))) \<and> rb_off b = k \<and> rb_data b = ch)"
    by fastforce
  obtain c cs' where c: "cs = c # cs'" using cs(1) by (cases cs) auto
  then have "(0, c) \<in> set (at_offsets 0 cs)" by simp
  with h s(5) have "\<exists>b. (length c, b) \<in> set (rv_data (rec_buffer (rcver s))) \<and> rb_off b = 0 \<and> rb_data b = c" by fastforce
  with cs c s(1,3,4) show ?thesis by (intro exI [of _ s] exI [of _ cs]) (simp add: sb_view_def)
qed

theorem received_data_intact_witness:
  "\<exists>s e b. (sys_step list_octets id)\<^sup>*\<^sup>* (sys_init [1, 2, 3] [Fin 1] (Fin 0) (Fin 0)) s \<and>
     (e, b) \<in> set (rv_data (rec_buffer (rcver s))) \<and> rb_off b = 0 \<and> rb_data b \<noteq> [] \<and>
     rb_data b = take (length (rb_data b)) [1, 2, 3] \<and> (\<exists>p \<in> to_rcver s. ptype p = Application \<and> poff p = 0)"
proof -
  obtain s ch where s: "(sys_step list_octets id)\<^sup>*\<^sup>* (sys_init [1, 2, 3] [Fin 1] (Fin 0) (Fin 0)) s"
    "0 \<in> dom (hm_get (recv_dic (rcver s)))" "holds (rcver s) (0, ch)" "ch \<noteq> []" by (rule demo_delivered)
  have b: "(length ch, RangeBuf_from ch 0) \<in> set (rv_data (rec_buffer (rcver s)))" using s(3) unfolding holds_def by (auto dest: map_of_SomeD)
  from received_data_intact [OF list_oc.octets_spec_axioms id_iterates _ s(1)]
  have i: "\<forall>(e, b) \<in> set (rv_data (rec_buffer (rcver s))). rb_data b = take (length (rb_data b)) (drop (rb_off b) [1, 2, 3])"
    "\<forall>k \<in> dom (hm_get (recv_dic (rcver s))). \<exists>p \<in> to_rcver s. ptype p = Application \<and> poff p = k" by simp_all
  have "rb_data (RangeBuf_from ch 0) = take (length (rb_data (RangeBuf_from ch 0))) (drop (rb_off (RangeBuf_from ch 0)) [1, 2, 3])"
    using i(1) b by blast
  then have "ch = take (length ch) [1, 2, 3]" by (simp add: RangeBuf_from_def)
  with i(2) s b show ?thesis
    by (intro exI [of _ s] exI [of _ "length ch"] exI [of _ "RangeBuf_from ch 0"]) (auto simp: RangeBuf_from_def)
qed

end
