(* ===== verification/Lossy.thy ===== *)
theory Lossy
  imports Delivery
begin

text \<open>
  A whole transfer over a network that may lose any application packets: rounds, each opened with \<open>send_all\<close>, until all
  data is sent and nothing has to be sent again.  The budgets of the chunks bound the number of rounds.
\<close>

section \<open>Chunks of the data\<close>

lemma length_le_queued: "\<forall>x \<in> set v. snd x \<noteq> [] \<Longrightarrow> length v \<le> queued v"
  by (induction v) (auto simp: Suc_le_eq simp flip: length_greater_0_conv)

section \<open>Between two rounds\<close>

text \<open>
  The data written so far is cut into chunks.  Every one of them waits in the queue or is settled, and those that the
  receiver has noted it holds; what waits may be sent again.
\<close>

definition accounted :: "bytes \<Rightarrow> connection \<Rightarrow> connection \<Rightarrow> bytes list \<Rightarrow> bool" where
  "accounted d a b cs \<longleftrightarrow> concat cs = take (written_data a) d \<and> (\<forall>c \<in> set cs. c \<noteq> []) \<and>
     set (unacked (send_buffer a)) \<subseteq> set (at_offsets 0 cs) \<and>
     (\<forall>x \<in> set (at_offsets 0 cs). (x \<in> set (unacked (send_buffer a)) \<or> settled a b (fst x)) \<and>
        (fst x \<in> dom (hm_get (recv_dic b)) \<longrightarrow> holds b x))"

definition pausing :: "bytes \<Rightarrow> connection \<Rightarrow> connection \<Rightarrow> bool" where
  "pausing d a b \<longleftrightarrow> snd_inv a \<and> data_to_send a = d \<and> rtt a \<noteq> 0 \<and> is_server a \<and> \<not> recv_flag a \<and> sent_count a = 0 \<and>
     sb_pos (send_buffer a) = 0 \<and> length d \<le> 1024 * length (norm2_vec a) \<and> waiting b \<and>
     dom (hm_get (sent_dic a)) \<subseteq> {..<written_data a} \<and> dom (hm_get (recv_dic b)) \<subseteq> {..<written_data a} \<and>
     (\<forall>x \<in> set (unacked (send_buffer a)). budget_left a (fst x)) \<and> (\<exists>cs. accounted d a b cs)"

text \<open>An upper bound of the packets still to send.\<close>

definition sends_of :: "connection \<Rightarrow> (nat \<times> bytes) list \<Rightarrow> nat" where
  "sends_of a v = (\<Sum>x \<leftarrow> v. sends_left a (fst x))"

definition potential :: "connection \<Rightarrow> nat" where
  "potential a = sends_of a (unacked (send_buffer a)) + 4 * (length (data_to_send a) - written_data a)"

definition lossy_room :: "connection \<Rightarrow> connection \<Rightarrow> bool" where
  "lossy_room a b \<longleftrightarrow> room a b (potential a + length (data_to_send a)) (2 * potential a + length (data_to_send a))"

section \<open>Opening a round\<close>

lemma send_all_resumes:
  assumes p: "pausing d a b" and inc: "2 * incre_win (recovery_of a) < lim64" and more: "written_data a < length d \<or> unacked (send_buffer a) \<noteq> []"
  shows "\<exists>n r sb cs. send_all now a = Some (Ok True, opened now a n r sb) \<and> n \<le> length d - written_data a \<and>
     sb_view sb = unacked (send_buffer a) @ at_offsets (written_data a) cs \<and> concat cs = take n (drop (written_data a) d) \<and>
     (\<forall>c \<in> set cs. c \<noteq> []) \<and> sb_pos sb = 0 \<and> sb_acked sb = {} \<and> snd_inv (opened now a n r sb) \<and>
     (sb_view sb \<noteq> [] \<longrightarrow> in_round sb) \<and> (high_priority a = 0 \<longrightarrow> sb_view sb \<noteq> []) \<and>
     max_datagram_size r = max_datagram_size (recovery_of a) \<and> incre_win r \<le> incre_win (recovery_of a) \<and> decre_win r \<le> decre_win (recovery_of a)"
proof -
  have a: "snd_inv a" "data_to_send a = d" "sb_pos (send_buffer a) = 0" using p by (simp_all add: pausing_def)
  obtain w n r sb cs where w: "high_priority a = 0 \<longrightarrow> 9600 \<le> w" "n = accepted (drop (written_data a) d) w (send_buffer a)"
    and sa: "send_all now a = Some (Ok True, opened now a n r sb)" and wr: "written_up a w n r cs sb (opened now a n r sb)"
    using send_all_written [OF a inc more, of now] by (elim exE conjE) (rule that)
  note f = wr [unfolded written_up_def a(2)]
  have "sb_view sb \<noteq> []" if "high_priority a = 0"
  proof -
    have "0 < queued (unacked (send_buffer a)) + n"
      using that w more queued_pos [OF a(1)] by (cases "unacked (send_buffer a) = []") (auto simp: accepted_def)
    moreover have "queued (sb_view sb) = queued (unacked (send_buffer a)) + n" using f by blast
    ultimately show ?thesis by auto
  qed
  moreover have "n \<le> length d - written_data a" using w(2) by (simp add: accepted_def)
  ultimately show ?thesis using sa f
    by - (rule exI [of _ n], rule exI [of _ r], rule exI [of _ sb], rule exI [of _ cs], simp)
qed

lemma sends_of_new:
  assumes "dom (hm_get (sent_dic a)) \<subseteq> {..<j}"
  shows "sends_of a (at_offsets j cs) = 4 * length cs"
proof -
  have "sends_left a (fst x) = 4" if "x \<in> set (at_offsets j cs)" for x
    using that assms at_offsets_ge [of "fst x" "snd x" j cs] by (fastforce simp: sends_left_def split: option.split)
  then have "map (\<lambda>x. sends_left a (fst x)) (at_offsets j cs) = replicate (length cs) 4"
    by (intro nth_equalityI) (simp_all add: in_set_conv_nth [symmetric])
  then show ?thesis by (simp add: sends_of_def sum_list_replicate)
qed

lemma accounted_opened:
  assumes ac: "accounted d a b cs" and cs': "concat cs' = take n (drop (written_data a) d)" "\<forall>c \<in> set cs'. c \<noteq> []"
    and len: "written_data a \<le> length d" and rd: "dom (hm_get (recv_dic b)) \<subseteq> {..<written_data a}"
    and a1: "written_data a1 = written_data a + n" "unacked (send_buffer a1) = unacked (send_buffer a) @ at_offsets (written_data a) cs'"
      "sent_dic a1 = sent_dic a"
  shows "accounted d a1 b (cs @ cs')"
proof -
  have l: "length (concat cs) = written_data a" using ac len by (simp add: accounted_def)
  have s: "settled a1 b k = settled a b k" for k by (simp add: settled_def a1)
  have "concat (cs @ cs') = take (written_data a + n) d" using ac cs'(1) by (simp add: accounted_def take_add)
  moreover have new: "fst x \<notin> dom (hm_get (recv_dic b))" if "x \<in> set (at_offsets (written_data a) cs')" for x
  proof -
    have "written_data a \<le> fst x" using that at_offsets_ge [of "fst x" "snd x" "written_data a" cs'] by simp
    then show ?thesis using rd by (metis lessThan_iff linorder_not_le subsetD)
  qed
  moreover have "set (at_offsets 0 (cs @ cs')) = set (at_offsets 0 cs) \<union> set (at_offsets (written_data a) cs')"
    by (simp add: at_offsets_append l)
  ultimately show ?thesis
    using ac cs'(2) unfolding accounted_def a1(1,2) s set_append by blast
qed

lemma open_lossy_round:
  assumes p: "pausing d a b" and rm: "lossy_room a b" and more: "written_data a < length d \<or> unacked (send_buffer a) \<noteq> []"
  shows "\<exists>a1. send_all now a = Some (Ok True, a1) \<and> pausing d a1 b \<and> lossy_room a1 b \<and> potential a1 \<le> potential a \<and> high_priority a1 = 0 \<and>
     sb_acked (send_buffer a1) = {} \<and> \<not> stop_flag a1 \<and> \<not> stop_ack a1 \<and> sent_number a1 = 0 \<and> (sb_view (send_buffer a1) \<noteq> [] \<longrightarrow> in_round (send_buffer a1)) \<and>
     (high_priority a = 0 \<longrightarrow> sb_view (send_buffer a1) \<noteq> [])"
proof -
  have "2 * incre_win (recovery_of a) < lim64" using rm by (simp add: lossy_room_def room_def)
  from send_all_resumes [OF p this more, of now] obtain n r sb cs' where sa: "send_all now a = Some (Ok True, opened now a n r sb)"
    and n: "n \<le> length d - written_data a" and v: "sb_view sb = unacked (send_buffer a) @ at_offsets (written_data a) cs'"
    and cs': "concat cs' = take n (drop (written_data a) d)" "\<forall>c \<in> set cs'. c \<noteq> []"
    and sb: "sb_pos sb = 0" "sb_acked sb = {}" and i: "snd_inv (opened now a n r sb)"
    and o: "sb_view sb \<noteq> [] \<longrightarrow> in_round sb" "high_priority a = 0 \<longrightarrow> sb_view sb \<noteq> []"
    and r: "max_datagram_size r = max_datagram_size (recovery_of a)" "incre_win r \<le> incre_win (recovery_of a)" "decre_win r \<le> decre_win (recovery_of a)"
    by (elim exE conjE) (rule that)
  define a1 where "a1 = opened now a n r sb"
  have f: "send_buffer a1 = sb" "rtt a1 = rtt a" "is_server a1 = is_server a" "recv_flag a1 = recv_flag a" "stop_flag a1 = False" "stop_ack a1 = False"
    "sent_count a1 = sent_count a" "sent_number a1 = 0" "pkt_num_spaces a1 = pkt_num_spaces a" "norm2_vec a1 = norm2_vec a" "sent_dic a1 = sent_dic a"
    "recovery_of a1 = r" "high_priority a1 = 0" "recv_count a1 = recv_count a" "written_data a1 = written_data a + n" "data_to_send a1 = data_to_send a"
    by (simp_all add: a1_def opened_def set_handshake_def)
  have u: "unacked sb = unacked (send_buffer a) @ at_offsets (written_data a) cs'" using v sb(2) by (simp add: unacked_def)
  have a: "data_to_send a = d" "written_data a \<le> length d" and sd: "dom (hm_get (sent_dic a)) \<subseteq> {..<written_data a}"
    and rd: "dom (hm_get (recv_dic b)) \<subseteq> {..<written_data a}"
    using p by (auto simp: pausing_def snd_inv_def)
  have sl: "sends_left a1 = sends_left a" by (simp add: fun_eq_iff sends_left_def f)
  have "length cs' \<le> n" using length_le_concat [OF cs'(2)] cs'(1) by simp
  then have pot: "potential a1 \<le> potential a"
    using n sends_of_new [OF sd, of cs'] unfolding potential_def f u a sends_of_def sl by simp
  obtain cs where "accounted d a b cs" using p unfolding pausing_def by blast
  from accounted_opened [OF this cs' a(2) rd, of a1] have "accounted d a1 b (cs @ cs')" using u by (simp add: f)
  moreover have "budget_left a1 (fst x)" if "x \<in> set (unacked sb)" for x
    using that p sd at_offsets_ge [of "fst x" "snd x" "written_data a" cs'] unfolding u
    by (fastforce simp: pausing_def budget_left_def f)
  moreover have "dom (hm_get (sent_dic a)) \<subseteq> {..<written_data a + n}" "dom (hm_get (recv_dic b)) \<subseteq> {..<written_data a + n}"
    using sd rd by auto
  ultimately have pa: "pausing d a1 b"
    using p i sb(1) unfolding pausing_def a1_def [symmetric] f by blast
  have "room a1 b (potential a + length d) (2 * potential a + length d)"
    using rm r by (simp add: lossy_room_def room_def f a)
  then have "lossy_room a1 b" unfolding lossy_room_def f(16) a(1) by (rule room_mono) (use pot in simp_all)
  with sa pa pot sb(2) o show ?thesis unfolding a1_def [symmetric] by (intro exI [of _ a1]) (simp add: f)
qed

section \<open>A round\<close>

text \<open>A sender that has just opened a round.\<close>

definition starting :: "connection \<Rightarrow> bool" where
  "starting a \<longleftrightarrow> sb_acked (send_buffer a) = {} \<and> \<not> stop_flag a \<and> \<not> stop_ack a \<and> sent_number a = 0 \<and> in_round (send_buffer a)"

lemma starting_queue: "starting a \<Longrightarrow> unacked (send_buffer a) = sb_view (send_buffer a)"
  by (simp add: starting_def unacked_def)

lemma starting_length:
  assumes "pausing d a b" and "starting a"
  shows "0 < length (sb_view (send_buffer a))" "length (sb_view (send_buffer a)) \<le> length d"
proof -
  have sb: "sb_inv (send_buffer a)" "sb_off (send_buffer a) \<le> length d" using assms(1) by (auto simp: pausing_def snd_inv_def)
  show "0 < length (sb_view (send_buffer a))" using assms(2) by (auto simp: starting_def in_round_def)
  have "length (sb_view (send_buffer a)) \<le> queued (sb_view (send_buffer a))"
    using sb_view_entry(1) [OF sb(1)] by (intro length_le_queued) force
  also have "\<dots> \<le> length d" using queued_le [OF sb(1)] sb(2) by simp
  finally show "length (sb_view (send_buffer a)) \<le> length d" .
qed

lemma starting_ready:
  assumes p: "pausing d a b" and o: "starting a" and rm: "lossy_room a b"
  shows "round_ready a"
proof -
  have a: "snd_inv a" "data_to_send a = d" "rtt a \<noteq> 0" "is_server a" "\<not> recv_flag a" "sent_count a = 0" "sb_pos (send_buffer a) = 0"
    "length d \<le> 1024 * length (norm2_vec a)" using p by (simp_all add: pausing_def)
  have rest: "rest_of a = sb_view (send_buffer a)" using a(7) by simp
  note len = starting_length [OF p o]
  have el: "elicts a \<le> length d" unfolding elicts_def rest a(6) using len by linarith
  have sb: "sb_inv (send_buffer a)" "sb_off (send_buffer a) \<le> length d" using a(1,2) by (auto simp: snd_inv_def)
  have "budget_left a k \<and> k div 1024 < length (norm2_vec a)" if "(k, ch) \<in> set (sb_view (send_buffer a))" for k ch
  proof -
    have "k < length d" using sb_view_entry(4) [OF sb(1) that] sb(2) by simp
    then have "k div 1024 < length (norm2_vec a)" using a(8) by (simp add: less_mult_imp_div_less)
    moreover have "budget_left a k" using p that starting_queue [OF o] by (force simp: pausing_def)
    ultimately show ?thesis by simp
  qed
  moreover have "length d < lim64" using a(1,2) by (simp add: snd_inv_def)
  moreover have "next_pkt_num (fst (pkt_num_spaces a)) + length d < lim64" "next_pkt_num (snd (pkt_num_spaces a)) + length d < lim64"
    using rm a(2) by (simp_all add: lossy_room_def room_def)
  ultimately show ?thesis
    unfolding round_ready_def rest using a el len o by (auto simp: starting_def)
qed

text \<open>What a round sends is paid for by the budgets.\<close>

lemma sends_paid:
  assumes "distinct ks" and "distinct (map fst v)" and "set ks \<subseteq> fst ` set v"
    and "\<forall>k. f k \<le> g k" and "\<forall>k \<in> set ks. f k < (g k :: nat)"
  shows "(\<Sum>x \<leftarrow> v. f (fst x)) + length ks \<le> (\<Sum>x \<leftarrow> v. g (fst x))"
proof -
  define h where "h k = (if k \<in> set ks then 1 else 0 :: nat)" for k
  have "(\<Sum>x \<leftarrow> v. h (fst x)) = (\<Sum>k \<leftarrow> map fst v. h k)" by (simp add: o_def)
  also have "\<dots> = (\<Sum>k \<in> fst ` set v. h k)" using sum_list_distinct_conv_sum_set [OF assms(2), of h] by simp
  also have "\<dots> = card (set ks)"
    unfolding h_def using assms(3) by (simp add: sum.If_cases Int_absorb1)
  also have "\<dots> = length ks" using assms(1) by (rule distinct_card)
  finally have "(\<Sum>x \<leftarrow> v. f (fst x)) + length ks = (\<Sum>x \<leftarrow> v. f (fst x) + h (fst x))" by (simp add: sum_list_addf)
  also have "\<dots> \<le> (\<Sum>x \<leftarrow> v. g (fst x))"
    using assms(4,5) by (intro sum_list_mono) (auto simp: h_def Suc_le_eq)
  finally show ?thesis .
qed

lemma sum_filter_le: "(\<Sum>x \<leftarrow> filter P v. (f x :: nat)) \<le> (\<Sum>x \<leftarrow> v. f x)"
  by (induction v) auto

lemma settled_mono: "progressed L a b os a' b' \<Longrightarrow> settled a b k \<Longrightarrow> settled a' b' k"
  using progressedD(4,5,10) [of L a b os a' b'] unfolding settled_def sends_left_def by (cases "k \<in> os") force+

lemma accounted_round:
  assumes ac: "accounted d a b cs" and v: "unacked (send_buffer a) = sb_view (send_buffer a)"
    and p: "progressed L a b os a' b'" and os: "os \<subseteq> fst ` set (sb_view (send_buffer a))"
    and u: "unacked (send_buffer a') = filter (\<lambda>(k, _). \<not> (k \<in> os \<and> settled a' b' k)) (sb_view (send_buffer a))"
  shows "accounted d a' b' cs"
proof -
  let ?v = "sb_view (send_buffer a)" and ?all = "set (at_offsets 0 cs)"
  have w: "written_data a' = written_data a" using progressedD(2) [OF p] by (simp add: kept_def)
  have cs: "\<forall>c \<in> set cs. c \<noteq> []" "set ?v \<subseteq> ?all" using ac v by (simp_all add: accounted_def)
  have "x \<in> set (unacked (send_buffer a')) \<or> settled a' b' (fst x)" if "x \<in> ?all" for x
    using that ac v settled_mono [OF p, of "fst x"] unfolding accounted_def u by auto
  moreover have "holds b' x" if x: "x \<in> ?all" "fst x \<in> dom (hm_get (recv_dic b'))" for x
  proof (cases "fst x \<in> dom (hm_get (recv_dic b))")
    case True
    then have "holds b x" using ac x(1) by (simp add: accounted_def)
    moreover have "apart ?v x" unfolding apart_def using at_offsets_apart [OF cs(1) _ x(1)] cs(2) by blast
    ultimately show ?thesis using progressedD(7) [OF p] by blast
  next
    case False
    then have k: "fst x \<in> os - L" using x(2) progressedD(5) [OF p] by blast
    then obtain y where y: "y \<in> set ?v" "fst y = fst x" using os by force
    then have "y = x" using at_offsets_apart [OF cs(1) _ x(1)] cs(2) by blast
    then show ?thesis using progressedD(6) [OF p] y(1) k by blast
  qed
  moreover have "set (unacked (send_buffer a')) \<subseteq> ?all" using cs(2) unfolding u by auto
  ultimately show ?thesis using ac unfolding accounted_def w by blast
qed

text \<open>What is sent in a round, and the room it takes.\<close>

lemma starting_offsets:
  assumes "pausing d a b" and "starting a"
  shows "set (round_offsets a) \<subseteq> fst ` set (sb_view (send_buffer a))" "set (round_offsets a) \<subseteq> {..<written_data a}"
proof -
  have a: "sb_pos (send_buffer a) = 0" "sb_inv (send_buffer a)" "sb_off (send_buffer a) = written_data a"
    using assms(1) by (simp_all add: pausing_def snd_inv_def)
  have "rest_of a = sb_view (send_buffer a)" using a(1) by simp
  then show os: "set (round_offsets a) \<subseteq> fst ` set (sb_view (send_buffer a))"
    using set_window_prefix unfolding round_offsets_def set_map by fastforce
  then show "set (round_offsets a) \<subseteq> {..<written_data a}" using sb_view_entry(4) [OF a(2)] a(3) by force
qed

lemma starting_room:
  assumes p: "pausing d a b" and st: "starting a" and rm: "lossy_room a b"
  defines "N \<equiv> potential a - length (round_offsets a)"
  shows "1 \<le> length (round_offsets a)" "room a b (length (round_offsets a) + (N + length d)) (reports_of a + (2 * N + length d))"
proof -
  let ?v = "sb_view (send_buffer a)"
  have a: "data_to_send a = d" "sent_count a = 0" "sb_pos (send_buffer a) = 0" using p by (simp_all add: pausing_def)
  have q: "unacked (send_buffer a) = ?v" by (rule starting_queue [OF st])
  have budget: "1 \<le> sends_left a (fst x)" if "x \<in> set ?v" for x
    using that p q by (force simp: pausing_def budget_left_def sends_left_def split: option.split)
  have "length (round_offsets a) \<le> length ?v" using reports_le(1) [of a] a(3) by simp
  also have "\<dots> = (\<Sum>x \<leftarrow> ?v. 1)" by (simp add: sum_list_triv)
  also have "\<dots> \<le> sends_of a ?v" unfolding sends_of_def using budget by (intro sum_list_mono) simp
  finally have le: "length (round_offsets a) \<le> potential a" by (simp add: potential_def q)
  show ne: "1 \<le> length (round_offsets a)" using round_offsets_nonempty [OF starting_ready [OF p st rm]] by (simp add: Suc_le_eq)
  have "reports_of a \<le> 2 * length (round_offsets a)" unfolding reports_of_def a(2) using ne by linarith
  then show "room a b (length (round_offsets a) + (N + length d)) (reports_of a + (2 * N + length d))"
    using le by (intro room_mono [OF rm [unfolded lossy_room_def]]) (simp_all add: N_def a(1))
qed

text \<open>The queue afterwards, and the budgets.\<close>

lemma queue_after_round:
  assumes p: "pausing d a b" and st: "starting a" and pr: "progressed L a b os a' b'" and u: "unreported a' = []"
  shows "unacked (send_buffer a') = filter (\<lambda>(k, _). \<not> (k \<in> os \<and> settled a' b' k)) (sb_view (send_buffer a))"
proof -
  have "unreported a = []" using p by (simp add: pausing_def snd_inv_def unreported_def)
  then have "marks a b = {}" using st by (simp add: marks_def starting_def)
  moreover have "sb_view (send_buffer a') = sb_view (send_buffer a)" using progressedD(2) [OF pr] by (simp add: kept_def)
  ultimately show ?thesis unfolding marks_unacked [OF u, of b'] progressedD(8) [OF pr] by simp
qed

lemma potential_after_round:
  assumes p: "pausing d a b" and st: "starting a" and rm: "lossy_room a b"
    and pr: "progressed L a b (set (round_offsets a)) a' b'" and u: "unreported a' = []"
  shows "potential a' + length (round_offsets a) \<le> potential a"
proof -
  have sb: "sb_inv (send_buffer a)" using p by (simp add: pausing_def snd_inv_def)
  have dv: "distinct (map fst (sb_view (send_buffer a)))" using sb_inv_distinct [OF sb] by (simp add: sb_view_def o_def)
  note pd = progressedD [OF pr]
  have le: "\<forall>k. sends_left a' k \<le> sends_left a k" using pd(4,10) by (metis less_imp_le order_refl sends_left_def)
  have "sends_of a' (unacked (send_buffer a')) + length (round_offsets a) \<le> sends_of a (sb_view (send_buffer a))"
    unfolding sends_of_def queue_after_round [OF p st pr u]
    by (rule order_trans [OF add_right_mono [OF sum_filter_le] sends_paid [OF round_offsets_distinct [OF starting_ready [OF p st rm]] dv starting_offsets(1) [OF p st] le pd(10)]])
  then show ?thesis using pd(2) unfolding potential_def starting_queue [OF st] by (simp add: kept_def)
qed

lemma pausing_after_round:
  assumes p: "pausing d a b" and st: "starting a" and pr: "progressed L a b (set (round_offsets a)) a' b'"
    and e: "unreported a' = []" "sb_pos (send_buffer a') = 0" "snd_inv a'"
  shows "pausing d a' b'"
proof -
  let ?v = "sb_view (send_buffer a)" and ?os = "set (round_offsets a)"
  note pd = progressedD [OF pr] and q = starting_queue [OF st] and u = queue_after_round [OF p st pr e(1)] and os = starting_offsets [OF p st]
  have k: "data_to_send a' = d" "written_data a' = written_data a" "rtt a' = rtt a" "is_server a' = is_server a"
    "recv_flag a' = recv_flag a" "norm2_vec a' = norm2_vec a" using pd(2) p by (simp_all add: kept_def pausing_def)
  obtain cs where "accounted d a b cs" using p unfolding pausing_def by blast
  from accounted_round [OF this q pr os(1) u] have "\<exists>cs. accounted d a' b' cs" by blast
  moreover have "dom (hm_get (sent_dic a')) \<subseteq> {..<written_data a}" "dom (hm_get (recv_dic b')) \<subseteq> {..<written_data a}"
    using p os(2) unfolding pd(3,5) pausing_def by blast+
  moreover have "budget_left a' (fst x)" if x: "x \<in> set (unacked (send_buffer a'))" for x
  proof (cases "fst x \<in> ?os")
    case True
    then show ?thesis using x unfolding u by (auto simp: settled_def budget_left_def)
  next
    case False
    then have "hm_get (sent_dic a') (fst x) = hm_get (sent_dic a) (fst x)" using pd(4) by blast
    moreover have "x \<in> set ?v" using x unfolding u by simp
    ultimately show ?thesis using p q by (simp add: pausing_def budget_left_def)
  qed
  moreover have "sent_count a' = 0" using e(1,3) by (simp add: unreported_def snd_inv_def)
  ultimately show ?thesis using p e pd(1) unfolding pausing_def k by blast
qed

lemma pausing_round:
  assumes oc: "octets_spec oc" and it: "iterates iter" and out: "1350 \<le> length out"
    and p: "pausing d a b" and st: "starting a" and rm: "lossy_room a b"
  shows "\<exists>n a' b'. relay n L oc iter now out (a, b) = Some (a', b') \<and> is_stopped a' \<and> pausing d a' b' \<and> lossy_room a' b' \<and> potential a' < potential a"
proof -
  let ?N = "potential a - length (round_offsets a)"
  have a: "sent_count a = 0" "waiting b" using p by (simp_all add: pausing_def)
  note r = starting_ready [OF p st rm] and ne = starting_room(1) [OF p st rm]
  from round_completes [OF oc it out r a starting_room(2) [OF p st rm], of L now]
  obtain n a' b' where n: "relay n L oc iter now out (a, b) = Some (a', b')"
    and pr: "progressed L a b (set (round_offsets a)) a' b'" and rm': "room a' b' (?N + length d) (2 * ?N + length d)"
    and e: "is_stopped a'" "unreported a' = []" "sb_pos (send_buffer a') = 0" "snd_inv a'"
    unfolding completes_def fst_conv snd_conv by (elim exE conjE) (rule that)
  have pa: "pausing d a' b'" by (rule pausing_after_round [OF p st pr e(2-4)])
  have pot: "potential a' + length (round_offsets a) \<le> potential a" by (rule potential_after_round [OF p st rm pr e(2)])
  have "data_to_send a' = d" using pa by (simp add: pausing_def)
  then have "lossy_room a' b'" unfolding lossy_room_def using pot by (intro room_mono [OF rm']) simp_all
  moreover have "potential a' < potential a" using pot ne by linarith
  ultimately show ?thesis using n e(1) pa by blast
qed

section \<open>All rounds\<close>

text \<open>
  A round at time \<open>now\<close>, in which the application packets for the offsets in \<open>L\<close> are lost.  It ends when the sender is
  stopped, or at once when the window left nothing to send.
\<close>

definition lossy_round ::
  "instant \<Rightarrow> nat set \<Rightarrow> 'b octets \<Rightarrow> ((nat, nat) hash_map \<Rightarrow> (nat \<times> nat) list) \<Rightarrow> bytes \<Rightarrow> connection \<times> connection \<Rightarrow> connection \<times> connection \<Rightarrow> bool" where
  "lossy_round now L oc iter out s s' \<longleftrightarrow> (\<exists>a1 n. send_all now (fst s) = Some (Ok True, a1) \<and> relay n L oc iter now out (a1, snd s) = Some s' \<and>
     (is_stopped (fst s') \<or> n = 0 \<and> sb_data (send_buffer a1) = []))"

fun lossy_rounds ::
  "nat \<Rightarrow> (nat \<Rightarrow> instant) \<Rightarrow> (nat \<Rightarrow> nat set) \<Rightarrow> 'b octets \<Rightarrow> ((nat, nat) hash_map \<Rightarrow> (nat \<times> nat) list) \<Rightarrow> bytes \<Rightarrow>
   connection \<times> connection \<Rightarrow> connection \<times> connection \<Rightarrow> bool" where
  "lossy_rounds 0 now L oc iter out s s' \<longleftrightarrow> s' = s"
| "lossy_rounds (Suc m) now L oc iter out s s' \<longleftrightarrow>
     (\<exists>s1. lossy_round (now 0) (L 0) oc iter out s s1 \<and> lossy_rounds m (\<lambda>i. now (Suc i)) (\<lambda>i. L (Suc i)) oc iter out s1 s')"

text \<open>How many rounds can be left: a round sends something, or lifts a rollback.\<close>

definition rounds_left :: "connection \<Rightarrow> nat" where
  "rounds_left a = 2 * potential a + (if high_priority a = 0 then 0 else 1)"

lemma next_lossy_round:
  assumes oc: "octets_spec oc" and it: "iterates iter" and out: "1350 \<le> length out"
    and p: "pausing d a b" and rm: "lossy_room a b" and more: "written_data a < length d \<or> unacked (send_buffer a) \<noteq> []"
  shows "\<exists>a' b'. lossy_round now L oc iter out (a, b) (a', b') \<and> pausing d a' b' \<and> lossy_room a' b' \<and> rounds_left a' < rounds_left a"
proof -
  obtain a1 where sa: "send_all now a = Some (Ok True, a1)" and p1: "pausing d a1 b" "lossy_room a1 b" and pot: "potential a1 \<le> potential a" "high_priority a1 = 0"
    and st: "sb_acked (send_buffer a1) = {}" "\<not> stop_flag a1" "\<not> stop_ack a1" "sent_number a1 = 0" "sb_view (send_buffer a1) \<noteq> [] \<longrightarrow> in_round (send_buffer a1)"
    and ne: "high_priority a = 0 \<longrightarrow> sb_view (send_buffer a1) \<noteq> []"
    using open_lossy_round [OF p rm more, of now] by (elim exE conjE) (rule that)
  show ?thesis
  proof (cases "sb_view (send_buffer a1) = []")
    case True
    then have e: "sb_data (send_buffer a1) = []" "high_priority a \<noteq> 0" using ne by (simp_all add: sb_view_def)
    have "relay 0 L oc iter now out (a1, b) = Some (a1, b)" by simp
    then have "lossy_round now L oc iter out (a, b) (a1, b)" unfolding lossy_round_def fst_conv snd_conv using sa e(1) by (intro exI [of _ a1] exI [of _ 0]) simp
    moreover have "rounds_left a1 < rounds_left a" using pot e(2) by (simp add: rounds_left_def)
    ultimately show ?thesis using p1 by blast
  next
    case False
    then have "starting a1" using st by (simp add: starting_def)
    from pausing_round [OF oc it out p1(1) this p1(2), of L now] obtain n a' b' where n: "relay n L oc iter now out (a1, b) = Some (a', b')" "is_stopped a'"
      and p': "pausing d a' b'" "lossy_room a' b'" "potential a' < potential a1" by blast
    have "lossy_round now L oc iter out (a, b) (a', b')" unfolding lossy_round_def fst_conv snd_conv using sa n by (intro exI [of _ a1] exI [of _ n]) simp
    moreover have "rounds_left a' < rounds_left a" using p'(3) pot(1) by (simp add: rounds_left_def)
    ultimately show ?thesis using p'(1,2) by blast
  qed
qed

lemma all_lossy_rounds:
  assumes oc: "octets_spec oc" and it: "iterates iter" and out: "1350 \<le> length out" and "pausing d a b" and "lossy_room a b"
  shows "\<exists>m a' b'. m \<le> rounds_left a \<and> lossy_rounds m now L oc iter out (a, b) (a', b') \<and> pausing d a' b' \<and> lossy_room a' b' \<and>
     written_data a' = length d \<and> unacked (send_buffer a') = []"
  using assms(4,5)
proof (induction "rounds_left a" arbitrary: a b now L rule: less_induct)
  case less
  have le: "written_data a \<le> length d" using less.prems(1) by (auto simp: pausing_def snd_inv_def)
  show ?case
  proof (cases "written_data a < length d \<or> unacked (send_buffer a) \<noteq> []")
    case True
    from next_lossy_round [OF oc it out less.prems this, of "now 0" "L 0"] obtain a1 b1
      where r: "lossy_round (now 0) (L 0) oc iter out (a, b) (a1, b1)" and p: "pausing d a1 b1" "lossy_room a1 b1" and lt: "rounds_left a1 < rounds_left a"
      by blast
    from less.hyps [OF lt p, of "\<lambda>i. now (Suc i)" "\<lambda>i. L (Suc i)"] obtain m a' b' where m: "m \<le> rounds_left a1"
      and rs: "lossy_rounds m (\<lambda>i. now (Suc i)) (\<lambda>i. L (Suc i)) oc iter out (a1, b1) (a', b')"
      and e: "pausing d a' b'" "lossy_room a' b'" "written_data a' = length d" "unacked (send_buffer a') = []" by blast
    have "lossy_rounds (Suc m) now L oc iter out (a, b) (a', b')" using r rs by auto
    moreover have "Suc m \<le> rounds_left a" using m lt by simp
    ultimately show ?thesis using e by blast
  next
    case False
    have "lossy_rounds 0 now L oc iter out (a, b) (a, b)" by simp
    with False le less.prems show ?thesis by (metis le0 le_neq_implies_less)
  qed
qed

section \<open>From opening to the end of the data\<close>

lemma pausing_opened:
  assumes "t1 < t4" and "length d \<le> 1024 * length ns" and "200000 * length d < lim64"
    and a_def: "a = opened_sender t1 t4 (loaded (fresh_connection la pa True t0) d ns lo hi)"
    and b_def: "b = opened_receiver t3 (fresh_connection lb pb False t0')"
  shows "pausing d a b" "lossy_room a b" "rounds_left a = 8 * length d"
proof -
  have s: "snd_inv (loaded (fresh_connection la pa True t0) d ns lo hi)" using snd_inv_loaded assms(3) by simp
  have u: "unacked (SendBuf_new 10800) = []" "sb_pos (SendBuf_new 10800) = 0" by (simp_all add: unacked_def SendBuf_new_def sb_view_def)
  have "accounted d a b []"
    using u by (simp add: accounted_def a_def opened_sender_def loaded_def)
  then show "pausing d a b"
    using s u assms(1,2) unfolding pausing_def
    by (auto simp: a_def b_def opened_sender_def opened_receiver_def loaded_def snd_inv_def waiting_def RecvBuf_new_def bt_wf_def)
  have pot: "potential a = 4 * length d" using u by (simp add: potential_def sends_of_def a_def opened_sender_def loaded_def)
  then show "rounds_left a = 8 * length d" by (simp add: rounds_left_def a_def opened_sender_def loaded_def)
  show "lossy_room a b"
    using assms(3) unfolding lossy_room_def pot
    by (simp add: a_def b_def opened_sender_def opened_receiver_def loaded_def room_def fresh_recovery_def PktNumSpace_new_def)
qed

text \<open>What the end of the rounds means for a byte.\<close>

lemma byte_settled:
  assumes p: "pausing d a b" and w: "written_data a = length d" "unacked (send_buffer a) = []" and i: "i < length d"
  shows "\<exists>k ch. k \<le> i \<and> i < k + length ch \<and> ch = take (length ch) (drop k d) \<and>
     (bt_get (rv_data (rec_buffer b)) (k + length ch) = Some (RangeBuf_from ch k) \<or>
      k \<notin> dom (hm_get (recv_dic b)) \<and> count_list (sent_pkt a) k = prio_at a k + 1)"
proof -
  obtain cs where ac: "accounted d a b cs" using p unfolding pausing_def by blast
  then have "concat cs = d" using w(1) by (simp add: accounted_def)
  then obtain x where x: "x \<in> set (at_offsets 0 cs)" "holds_byte i x" using at_offsets_cover [of 0 i cs] i by auto
  have "concat cs = take (length d) (drop 0 d)" using \<open>concat cs = d\<close> by simp
  then have "cut_from d x" by (rule at_offsets_cut [OF x(1)])
  then have c: "fst x \<le> i" "i < fst x + length (snd x)" "snd x = take (length (snd x)) (drop (fst x) d)"
    using x(2) by (simp_all add: holds_byte_def cut_from_def)
  have "settled a b (fst x)" and h: "fst x \<in> dom (hm_get (recv_dic b)) \<longrightarrow> holds b x"
    using ac x(1) w(2) unfolding accounted_def by auto
  moreover have "count_list (sent_pkt a) (fst x) = prio_at a (fst x) + 1" if "hm_get (sent_dic a) (fst x) = Some 0"
    using used_up [OF _ that] p by (simp add: pausing_def)
  ultimately show ?thesis
    using c unfolding settled_def holds_def by (intro exI [of _ "fst x"] exI [of _ "snd x"]) blast
qed

text \<open>
  (C3) A whole transfer over a network that loses application packets, any of them and as often as it likes.  Let a set of offsets
  be given for each round: the packets for these are lost in this round.  For data of any length (up to the width of the
  counters) with a norm for every block, the handshake succeeds, and if the clock advances during it, then a bounded
  number of rounds ends the transfer: no call panics, and every byte of the data is in a chunk that the receiver
  holds at its offset with the bytes of the data, or that was lost every time it was sent and was sent once more than its
  priority says.  Then \<open>send_all\<close> empties the sender's queue, and from then on reports that nothing is left.
\<close>

theorem lossy_transfer_completes:
  assumes "octets_spec oc" and "iterates iter" and "1350 \<le> length out" and "t1 < t4"
    and "length d \<le> 1024 * length ns" and "200000 * length d < lim64"
  shows "\<exists>p q a1 b1 a2 b2 m a' b' r a''.
     Connection_send_data oc iter t1 out (loaded (fresh_connection la pa True t0) d ns lo hi) = Some (Ok (26, \<lparr>send_from = la, send_to = pa\<rparr>), p, a1) \<and>
     recv_slice oc t2 (take 26 p) (fresh_connection lb pb False t0') = Some (Ok 0, b1) \<and> send_ack b1 \<and>
     Connection_send_data oc iter t3 out b1 = Some (Ok (26, \<lparr>send_from = lb, send_to = pb\<rparr>), q, b2) \<and>
     recv_slice oc t4 (take 26 q) a1 = Some (Ok 0, a2) \<and>
     m \<le> 8 * length d \<and> lossy_rounds m now L oc iter out (a2, b2) (a', b') \<and>
     (\<forall>i < length d. \<exists>k ch. k \<le> i \<and> i < k + length ch \<and> ch = take (length ch) (drop k d) \<and>
        (bt_get (rv_data (rec_buffer b')) (k + length ch) = Some (RangeBuf_from ch k) \<or>
         k \<notin> dom (hm_get (recv_dic b')) \<and> count_list (sent_pkt a') k = prio_at a' k + 1)) \<and>
     send_all t5 a' = Some (Ok r, a'') \<and> sb_data (send_buffer a'') = [] \<and> (\<forall>t. \<exists>a3. send_all t a'' = Some (Ok False, a3))"
proof -
  let ?a = "opened_sender t1 t4 (loaded (fresh_connection la pa True t0) d ns lo hi)" and ?b = "opened_receiver t3 (fresh_connection lb pb False t0')"
  have "26 \<le> length out" using assms(3) by simp
  from fresh_handshake [OF assms(1) this, of iter t1 la pa t0 d ns lo hi t2 lb pb t0' t3 t4] obtain p q a1 b1
    where h: "Connection_send_data oc iter t1 out (loaded (fresh_connection la pa True t0) d ns lo hi) = Some (Ok (26, \<lparr>send_from = la, send_to = pa\<rparr>), p, a1)"
      "recv_slice oc t2 (take 26 p) (fresh_connection lb pb False t0') = Some (Ok 0, b1)" "send_ack b1"
      "Connection_send_data oc iter t3 out b1 = Some (Ok (26, \<lparr>send_from = lb, send_to = pb\<rparr>), q, ?b)"
      "recv_slice oc t4 (take 26 q) a1 = Some (Ok 0, ?a)"
    by blast
  have o: "pausing d ?a ?b" "lossy_room ?a ?b" "rounds_left ?a = 8 * length d" by (rule pausing_opened [OF assms(4-6) refl refl])+
  from all_lossy_rounds [OF assms(1-3) o(1,2), of now L] obtain m a' b' where m: "m \<le> 8 * length d" "lossy_rounds m now L oc iter out (?a, ?b) (a', b')"
    and e: "pausing d a' b'" "lossy_room a' b'" "written_data a' = length d" "unacked (send_buffer a') = []"
    unfolding o(3) by (elim exE conjE) (rule that)
  have "2 * incre_win (recovery_of a') < lim64" "snd_inv a'" "data_to_send a' = d"
    using e(1,2) by (simp_all add: lossy_room_def room_def pausing_def)
  then obtain r a'' where z: "send_all t5 a' = Some (Ok r, a'')" "sb_data (send_buffer a'') = []" "\<forall>t. \<exists>a3. send_all t a'' = Some (Ok False, a3)"
    using send_all_ends [of a' d t5] e(3,4) by blast
  have bytes: "\<forall>i < length d. \<exists>k ch. k \<le> i \<and> i < k + length ch \<and> ch = take (length ch) (drop k d) \<and>
        (bt_get (rv_data (rec_buffer b')) (k + length ch) = Some (RangeBuf_from ch k) \<or>
         k \<notin> dom (hm_get (recv_dic b')) \<and> count_list (sent_pkt a') k = prio_at a' k + 1)"
    using byte_settled [OF e(1,3,4)] by blast
  show ?thesis
    by (rule exI [of _ p], rule exI [of _ q], rule exI [of _ a1], rule exI [of _ b1], rule exI [of _ ?a], rule exI [of _ ?b],
      rule exI [of _ m], rule exI [of _ a'], rule exI [of _ b'], rule exI [of _ r], rule exI [of _ a'']) (intro conjI h m bytes z)
qed

theorem lossy_transfer_completes_witness:
  "\<exists>a2 b2 m a' b' r a''. m \<le> 24 \<and>
     lossy_rounds m (\<lambda>i. 7 + i) (\<lambda>i. if i < 2 then {0} else {}) list_octets id (replicate 1350 0) (a2, b2) (a', b') \<and>
     (\<forall>i < 3. \<exists>k ch. k \<le> i \<and> i < k + length ch \<and> ch = take (length ch) (drop k [1, 2, 3]) \<and>
        (bt_get (rv_data (rec_buffer b')) (k + length ch) = Some (RangeBuf_from ch k) \<or>
         k \<notin> dom (hm_get (recv_dic b')) \<and> count_list (sent_pkt a') k = prio_at a' k + 1)) \<and>
     send_all 90 a' = Some (Ok r, a'') \<and> sb_data (send_buffer a'') = []"
proof -
  have h: "length (replicate 1350 0 :: bytes) \<ge> 1350" "(3 :: instant) < 8" "length [1, 2, 3 :: u8] \<le> 1024 * length [Fin 1]"
    "200000 * length [1, 2, 3 :: u8] < lim64" by simp_all
  have len: "length [1, 2, 3 :: u8] = 3" "8 * (3 :: nat) = 24" by simp_all
  from lossy_transfer_completes [OF list_oc.octets_spec_axioms id_iterates h, of "SocketAddrV4 0 1" "SocketAddrV4 0 2" 0 "Fin 0" "Fin 0" 5
      "SocketAddrV4 0 2" "SocketAddrV4 0 1" 0 6 "\<lambda>i. 7 + i" "\<lambda>i. if i < 2 then {0} else {}" 90]
  show ?thesis
  proof (elim exE conjE, goal_cases)
    case (1 p q a1 b1 a2 b2 m a' b' r a'')
    show ?case
      by (rule exI [of _ a2], rule exI [of _ b2], rule exI [of _ m], rule exI [of _ a'], rule exI [of _ b'], rule exI [of _ r], rule exI [of _ a''])
        (intro conjI 1(6,8) [unfolded len] 1(7,9,10))
  qed
qed

end
