(* ===== verification/Loading.thy ===== *)
theory Loading
  imports Sending "HOL-Library.Multiset"
begin

text \<open>
  \<open>Connection::data_send\<close> and \<open>Connection::process_string\<close> of \<open>src/lib.rs\<close>: the application hands over
  its parameters as text, arrays of decimal numbers in brackets, separated by \<open>>\<close>.  Each number becomes
  four bytes of the data to send, and the sums of squares of consecutive numbers become the norms that
  decide about priorities.

  A \<open>String\<close> is the list of its characters.  \<open>FromStr\<close> for \<open>f32\<close> follows the grammar of the standard library
  and rounds correctly.  The byte order of the host, which \<open>to_ne_bytes\<close> follows, is an argument.
\<close>

section \<open>Numbers\<close>

text \<open>A parsed number: its sign bit and its magnitude.\<close>

type_synonym f32 = "bool \<times> fl"

definition digit :: "char \<Rightarrow> nat option" where
  "digit c = (let n = of_char c in if 48 \<le> n \<and> n \<le> 57 then Some (n - 48) else None)"

abbreviation is_digit :: "char \<Rightarrow> bool" where
  "is_digit c \<equiv> digit c \<noteq> None"

definition digits_value :: "string \<Rightarrow> nat" where
  "digits_value ds = foldl (\<lambda>n c. 10 * n + the (digit c)) 0 ds"

definition to_lower :: "char \<Rightarrow> char" where
  "to_lower c = (let n = of_char c :: nat in if 65 \<le> n \<and> n \<le> 90 then char_of (n + 32) else c)"

fun take_sign :: "string \<Rightarrow> bool \<times> string" where
  "take_sign [] = (False, [])"
| "take_sign (c # cs) = (if c = CHR ''-'' then (True, cs) else if c = CHR ''+'' then (False, cs) else (False, c # cs))"

definition parse_exp :: "string \<Rightarrow> int option" where
  "parse_exp s =
     (case s of
        [] \<Rightarrow> Some 0
      | c # cs \<Rightarrow>
          if to_lower c = CHR ''e'' then
            (let (neg, ds) = take_sign cs
             in if ds = [] \<or> (\<exists>d \<in> set ds. \<not> is_digit d) then None
                else Some (if neg then - int (digits_value ds) else int (digits_value ds)))
          else None)"

definition parse_number :: "string \<Rightarrow> fl option" where
  "parse_number s =
     (let ip = takeWhile is_digit s;
          r = dropWhile is_digit s;
          (fp, r) = (case r of
                       c # cs \<Rightarrow> if c = CHR ''.'' then (takeWhile is_digit cs, dropWhile is_digit cs) else ([], r)
                     | [] \<Rightarrow> ([], r))
      in if ip = [] \<and> fp = [] then None
         else do {
           e \<leftarrow> parse_exp r;
           let e = e - int (length fp);
           let m = rat_of_nat (digits_value (ip @ fp));
           Some (rnd32 (if 0 \<le> e then m * 10 ^ nat e else m / 10 ^ nat (- e)))
         })"

definition parse_f32 :: "string \<Rightarrow> f32 option" where
  "parse_f32 s =
     (let (neg, r) = take_sign s
      in case parse_number r of
           Some x \<Rightarrow> Some (neg, x)
         | None \<Rightarrow>
             (let l = map to_lower r
              in if l = ''inf'' \<or> l = ''infinity'' then Some (neg, PInf)
                 else if l = ''nan'' then Some (neg, NaN) else None))"

text \<open>The bits of a number: sign, biased exponent, fraction.\<close>

definition mag_bits :: "fl \<Rightarrow> 32 word" where
  "mag_bits m =
     (case m of
        NaN \<Rightarrow> 0x7FC00000
      | Fin x \<Rightarrow> (if x = 0 then 0
                  else let e = max (ilog2 \<bar>x\<bar>) (-126)
                       in of_int (\<lfloor>\<bar>x\<bar> / pw2 (e - 23)\<rfloor> + (e + 126) * 2 ^ 23))
      | _ \<Rightarrow> 0x7F800000)"

definition f32_bits :: "f32 \<Rightarrow> 32 word" where
  "f32_bits v = (if fst v then 0x80000000 else 0) + mag_bits (snd v)"

definition f32_to_ne_bytes :: "bool \<Rightarrow> f32 \<Rightarrow> bytes" where
  "f32_to_ne_bytes little_endian v =
     (let w = f32_bits v; bs = map (\<lambda>i. ucast (drop_bit (8 * i) w)) [0, 1, 2, 3]
      in if little_endian then bs else rev bs)"

section \<open>Loading\<close>

fun split_on :: "char \<Rightarrow> string \<Rightarrow> string list" where
  "split_on sep [] = [[]]"
| "split_on sep (c # cs) =
     (if c = sep then [] # split_on sep cs
      else case split_on sep cs of [] \<Rightarrow> [[c]] | p # ps \<Rightarrow> (c # p) # ps)"

text \<open>The loop of \<open>process_string\<close>; the counter \<open>it\<close> is an \<open>i32\<close>.\<close>

fun process_items :: "bool \<Rightarrow> nat \<Rightarrow> fl \<Rightarrow> string list \<Rightarrow> fl list \<times> connection \<Rightarrow> (fl list \<times> connection) option" where
  "process_items le it norm2 [] st = Some st"
| "process_items le it norm2 (item # items) (norm2_tmp, c) =
     (if it + 1 < 2 ^ 31 then
        (case parse_f32 item of
           None \<Rightarrow> None
         | Some my_float \<Rightarrow>
             let it = it + 1;
                 norm2 = fl_add rnd32 norm2 (fl_mul rnd32 (snd my_float) (snd my_float));
                 c = c\<lparr>data_to_send := data_to_send c @ f32_to_ne_bytes le my_float\<rparr>
             in if it mod 256 = 255
                then process_items le it (Fin 0) items (norm2_tmp @ [norm2], c\<lparr>norm2_vec := norm2_vec c @ [norm2]\<rparr>)
                else process_items le it norm2 items (norm2_tmp, c))
      else None)"

definition array_items :: "string \<Rightarrow> string list option" where
  "array_items test_data = do {
     dat \<leftarrow> index (split_on CHR ''['' test_data) 1;
     array_string \<leftarrow> index (split_on CHR '']'' dat) 0;
     Some (filter (\<lambda>x. x \<noteq> []) (split_on CHR '' '' array_string))
   }"

definition process_string :: "bool \<Rightarrow> string \<Rightarrow> fl list \<times> connection \<Rightarrow> (fl list \<times> connection) option" where
  "process_string le test_data st = do {
     single_data \<leftarrow> array_items test_data;
     process_items le 0 (Fin 0) single_data st
   }"

fun process_parts :: "bool \<Rightarrow> string list \<Rightarrow> fl list \<times> connection \<Rightarrow> (fl list \<times> connection) option" where
  "process_parts le [] st = Some st"
| "process_parts le (part # parts) st =
     (if part = [] then Some st
      else do { st \<leftarrow> process_string le part st; process_parts le parts st })"

text \<open>
  \<open>sort_by(|a, b| a.partial_cmp(b).unwrap())\<close> compares every element of a list of two or more, and a
  \<open>NaN\<close> has no order.
\<close>

fun fl_insort :: "fl \<Rightarrow> fl list \<Rightarrow> fl list" where
  "fl_insort x [] = [x]"
| "fl_insort x (y # ys) = (if fl_lt y x then y # fl_insort x ys else x # y # ys)"

definition sort_norms :: "fl list \<Rightarrow> fl list option" where
  "sort_norms xs = (if 2 \<le> length xs \<and> NaN \<in> set xs then None else Some (foldr fl_insort xs []))"

definition data_send :: "bool \<Rightarrow> string \<Rightarrow> connection \<Rightarrow> connection option" where
  "data_send le str_buf c = do {
     let output = filter (\<lambda>x. x \<noteq> CHR 0x0A) str_buf;
     let output = filter (\<lambda>x. x \<noteq> CHR 0x22) output;
     let output = filter (\<lambda>x. x \<noteq> CHR 0x0D) output;
     let c = c\<lparr>norm2_vec := [], data_to_send := [], low_split_point := Fin 0, high_split_point := Fin 0\<rparr>;
     (norm2_tmp, c) \<leftarrow> process_parts le (split_on CHR ''>'' output) ([], c);
     norm2_tmp \<leftarrow> sort_norms norm2_tmp;
     lo \<leftarrow> index norm2_tmp (length norm2_tmp * 3 div 10);
     hi \<leftarrow> index norm2_tmp (length norm2_tmp * 7 div 10);
     Some (c\<lparr>low_split_point := lo, high_split_point := hi\<rparr>)
   }"

section \<open>What is loaded\<close>

text \<open>The numbers of a text, by part, and their norms.\<close>

fun norms_from :: "nat \<Rightarrow> fl \<Rightarrow> f32 list \<Rightarrow> fl list" where
  "norms_from it acc [] = []"
| "norms_from it acc (v # vs) =
     (let acc = fl_add rnd32 acc (fl_mul rnd32 (snd v) (snd v))
      in if (it + 1) mod 256 = 255 then acc # norms_from (it + 1) (Fin 0) vs else norms_from (it + 1) acc vs)"

lemma process_items_eq:
  "process_items le it acc items (tmp, c) =
     (if it + length items < 2 ^ 31 \<or> items = [] then
        (case those (map parse_f32 items) of
           None \<Rightarrow> None
         | Some vs \<Rightarrow> Some (tmp @ norms_from it acc vs,
             c\<lparr>data_to_send := data_to_send c @ concat (map (f32_to_ne_bytes le) vs),
               norm2_vec := norm2_vec c @ norms_from it acc vs\<rparr>))
      else None)"
proof (induction items arbitrary: it acc tmp c)
  case (Cons item items)
  show ?case
  proof (cases "it + 1 < 2 ^ 31")
    case True
    show ?thesis
    proof (cases "parse_f32 item")
      case None
      with True show ?thesis by simp
    next
      case (Some v)
      with True show ?thesis by (simp add: Cons.IH Let_def split: option.split)
    qed
  qed simp
qed simp


definition array_numbers :: "string \<Rightarrow> f32 list option" where
  "array_numbers part = do { items \<leftarrow> array_items part; those (map parse_f32 items) }"

definition text_parts :: "string \<Rightarrow> string list" where
  "text_parts text = takeWhile (\<lambda>p. p \<noteq> [])
     (split_on CHR ''>'' (filter (\<lambda>x. x \<notin> {CHR 0x0A, CHR 0x22, CHR 0x0D}) text))"

definition numbers :: "string \<Rightarrow> f32 list list option" where
  "numbers text = those (map array_numbers (text_parts text))"

abbreviation norms_of :: "f32 list list \<Rightarrow> fl list" where
  "norms_of vss \<equiv> concat (map (norms_from 0 (Fin 0)) vss)"

lemma those_Some_length: "those xs = Some ys \<Longrightarrow> length ys = length xs"
  by (induction xs arbitrary: ys) (auto split: option.splits)

lemma process_parts_eq:
  assumes "those (map array_numbers (takeWhile (\<lambda>p. p \<noteq> []) parts)) = Some vss" and "\<forall>vs \<in> set vss. length vs < 2 ^ 31"
  shows "process_parts le parts (tmp, c) = Some (tmp @ norms_of vss,
     c\<lparr>data_to_send := data_to_send c @ concat (map (f32_to_ne_bytes le) (concat vss)), norm2_vec := norm2_vec c @ norms_of vss\<rparr>)"
  using assms
proof (induction parts arbitrary: vss tmp c)
  case (Cons part parts)
  show ?case
  proof (cases "part = []")
    case True
    with Cons.prems show ?thesis by simp
  next
    case False
    then obtain vs vss' where v: "array_numbers part = Some vs" "vss = vs # vss'"
      "those (map array_numbers (takeWhile (\<lambda>p. p \<noteq> []) parts)) = Some vss'"
      using Cons.prems(1) by (auto split: option.splits)
    obtain items where i: "array_items part = Some items" "those (map parse_f32 items) = Some vs"
      using v(1) by (auto simp: array_numbers_def Option.bind_eq_Some_conv)
    have "length items < 2 ^ 31" using those_Some_length [OF i(2)] Cons.prems(2) v(2) by simp
    then have p: "process_string le part (tmp, c) = Some (tmp @ norms_from 0 (Fin 0) vs,
       c\<lparr>data_to_send := data_to_send c @ concat (map (f32_to_ne_bytes le) vs), norm2_vec := norm2_vec c @ norms_from 0 (Fin 0) vs\<rparr>)"
      using i by (simp add: process_string_def process_items_eq)
    show ?thesis
      using Cons.IH [OF v(3)] Cons.prems(2) False p by (simp add: v(2))
  qed
qed simp

lemma process_parts_Some:
  "process_parts le parts st = Some st' \<Longrightarrow>
   \<exists>vss. those (map array_numbers (takeWhile (\<lambda>p. p \<noteq> []) parts)) = Some vss \<and> (\<forall>vs \<in> set vss. length vs < 2 ^ 31)"
proof (induction parts arbitrary: st)
  case (Cons part parts)
  obtain tmp c where st: "st = (tmp, c)" by (metis surj_pair)
  show ?case
  proof (cases "part = []")
    case False
    then obtain st1 where 1: "process_string le part (tmp, c) = Some st1" "process_parts le parts st1 = Some st'"
      using Cons.prems by (auto simp: st Option.bind_eq_Some_conv)
    obtain items vs where i: "array_items part = Some items" "those (map parse_f32 items) = Some vs" "length items < 2 ^ 31"
      using 1(1) by (auto simp: process_string_def process_items_eq Option.bind_eq_Some_conv split: if_splits option.splits)
    from Cons.IH [OF 1(2)] i those_Some_length [OF i(2)] False show ?thesis
      by (auto simp: array_numbers_def)
  qed simp
qed simp

lemma stripped: "filter (\<lambda>x. x \<noteq> CHR 0x0D) (filter (\<lambda>x. x \<noteq> CHR 0x22) (filter (\<lambda>x. x \<noteq> CHR 0x0A) text)) =
    filter (\<lambda>x. x \<notin> {CHR 0x0A, CHR 0x22, CHR 0x0D}) text"
  by simp

lemma data_send_eq:
  assumes "numbers text = Some vss" and "\<forall>vs \<in> set vss. length vs < 2 ^ 31"
  shows "data_send le text c = do {
     ns \<leftarrow> sort_norms (norms_of vss);
     lo \<leftarrow> index ns (length ns * 3 div 10);
     hi \<leftarrow> index ns (length ns * 7 div 10);
     Some (c\<lparr>data_to_send := concat (map (f32_to_ne_bytes le) (concat vss)), norm2_vec := norms_of vss,
             low_split_point := lo, high_split_point := hi\<rparr>)
   }"
proof -
  let ?c = "c\<lparr>norm2_vec := [], data_to_send := [], low_split_point := Fin 0, high_split_point := Fin 0\<rparr>"
  have "process_parts le (split_on CHR ''>'' (filter (\<lambda>x. x \<notin> {CHR 0x0A, CHR 0x22, CHR 0x0D}) text)) ([], ?c) =
     Some (norms_of vss, ?c\<lparr>data_to_send := concat (map (f32_to_ne_bytes le) (concat vss)), norm2_vec := norms_of vss\<rparr>)"
    using process_parts_eq [OF _ assms(2)] assms(1) by (simp add: numbers_def text_parts_def)
  then show ?thesis unfolding data_send_def Let_def stripped by simp
qed

lemma data_send_numbers:
  assumes "data_send le text c = Some c'"
  shows "\<exists>vss. numbers text = Some vss \<and> (\<forall>vs \<in> set vss. length vs < 2 ^ 31)"
proof -
  let ?c = "c\<lparr>norm2_vec := [], data_to_send := [], low_split_point := Fin 0, high_split_point := Fin 0\<rparr>"
  have "process_parts le (split_on CHR ''>'' (filter (\<lambda>x. x \<notin> {CHR 0x0A, CHR 0x22, CHR 0x0D}) text)) ([], ?c) \<noteq> None"
    by (rule notI) (use assms in \<open>simp add: data_send_def stripped\<close>)
  then show ?thesis using process_parts_Some by (auto simp: numbers_def text_parts_def)
qed


subsection \<open>Which numbers a norm is about\<close>

definition sq_sum :: "fl \<Rightarrow> f32 list \<Rightarrow> fl" where
  "sq_sum acc vs = foldl (\<lambda>a v. fl_add rnd32 a (fl_mul rnd32 (snd v) (snd v))) acc vs"

lemma Suc_div_256: "(n + 1) div 256 = (if n mod 256 = 255 then n div 256 + 1 else n div 256)" for n :: nat
  by (auto simp: div_Suc dvd_eq_mod_eq_0 mod_Suc)

lemma after_255: "it mod 256 = 255 \<Longrightarrow> 0 < j \<Longrightarrow> (it + j) mod 256 = (j - 1) mod 256" for it j :: nat
proof -
  assume "it mod 256 = 255" "0 < j"
  then obtain q k where "it = 256 * q + 255" "j = Suc k" by (metis mult_div_mod_eq gr0_implies_Suc)
  then have "it + j = k + 256 * (q + 1)" "j - 1 = k" by simp_all
  then show ?thesis by (simp only: mod_mult_self2)
qed

lemma length_norms_from: "length (norms_from it acc vs) + (it + 1) div 256 = (it + length vs + 1) div 256"
proof (induction it acc vs rule: norms_from.induct)
  case (2 it acc v vs)
  show ?case
  proof (cases "(it + 1) mod 256 = 255")
    case True
    then have "(it + 1 + 1) div 256 = (it + 1) div 256 + 1" by (subst Suc_div_256) simp
    with True 2(1) show ?thesis by (simp add: Let_def)
  next
    case False
    then have "(it + 1 + 1) div 256 = (it + 1) div 256" by (subst Suc_div_256) simp
    with False 2(2) show ?thesis by (simp add: Let_def)
  qed
qed simp

text \<open>The next norm is complete after the numbers that bring the counter to 255 modulo 256.\<close>

lemma norms_from_step:
  assumes "0 < m" and "m \<le> length vs" and "(it + m) mod 256 = 255" and "\<forall>j. 0 < j \<and> j < m \<longrightarrow> (it + j) mod 256 \<noteq> 255"
  shows "norms_from it acc vs = sq_sum acc (take m vs) # norms_from (it + m) (Fin 0) (drop m vs)"
  using assms
proof (induction m arbitrary: it acc vs)
  case (Suc m)
  obtain v ws where vs: "vs = v # ws" using Suc.prems(2) by (cases vs) auto
  show ?case
  proof (cases "m = 0")
    case True
    with Suc.prems(3) show ?thesis by (simp add: vs Let_def sq_sum_def)
  next
    case False
    have "(it + 1) mod 256 \<noteq> 255" using Suc.prems(4) [rule_format, of 1] False by simp
    moreover have "\<forall>j. 0 < j \<and> j < m \<longrightarrow> (it + 1 + j) mod 256 \<noteq> 255"
    proof (intro allI impI)
      fix j assume "0 < j \<and> j < m"
      then show "(it + 1 + j) mod 256 \<noteq> 255" using Suc.prems(4) [rule_format, of "Suc j"] by simp
    qed
    ultimately show ?thesis
      using Suc.IH [of ws "it + 1" "fl_add rnd32 acc (fl_mul rnd32 (snd v) (snd v))"] Suc.prems(2,3) False
      by (simp add: vs Let_def sq_sum_def)
  qed
qed simp

lemma norms_from_block:
  assumes "it mod 256 = 255" and "norms_from it (Fin 0) vs \<noteq> []"
  shows "norms_from it (Fin 0) vs = sq_sum (Fin 0) (take 256 vs) # norms_from (it + 256) (Fin 0) (drop 256 vs)"
proof (rule norms_from_step)
  obtain q where q: "it = 256 * q + 255" using assms(1) by (metis mult_div_mod_eq)
  show "256 \<le> length vs"
  proof (rule ccontr)
    assume "\<not> 256 \<le> length vs"
    moreover have "(it + length vs + 1) div 256 = q + 1 + length vs div 256"
      by (simp add: q add.commute div_mult_self3 flip: add_Suc_right)
    ultimately show False using length_norms_from [of it "Fin 0" vs] assms(2) by (simp add: q)
  qed
  show "\<forall>j. 0 < j \<and> j < 256 \<longrightarrow> (it + j) mod 256 \<noteq> 255" 
  proof (intro allI impI)
    fix j :: nat assume "0 < j \<and> j < 256"
    then have "(it + j) mod 256 = j - 1" using after_255 [OF assms(1), of j] by auto
    then show "(it + j) mod 256 \<noteq> 255" using \<open>0 < j \<and> j < 256\<close> by linarith
  qed
qed (use assms(1) in simp_all)

lemma norms_from_blocks:
  assumes "it mod 256 = 255" and "i < length (norms_from it (Fin 0) vs)"
  shows "norms_from it (Fin 0) vs ! i = sq_sum (Fin 0) (take 256 (drop (256 * i) vs))"
  using assms
proof (induction i arbitrary: it vs)
  case 0
  then show ?case by (subst norms_from_block) auto
next
  case (Suc i)
  have "norms_from it (Fin 0) vs = sq_sum (Fin 0) (take 256 vs) # norms_from (it + 256) (Fin 0) (drop 256 vs)"
    using Suc.prems(2) by (intro norms_from_block [OF Suc.prems(1)]) auto
  with Suc.IH [of "it + 256" "drop 256 vs"] Suc.prems show ?case by (simp add: ac_simps)
qed

lemma norms_from_zero:
  assumes "i < length (norms_from 0 (Fin 0) vs)"
  shows "norms_from 0 (Fin 0) vs ! i =
     sq_sum (Fin 0) (if i = 0 then take 255 vs else take 256 (drop (256 * i - 1) vs))"
proof -
  have len: "255 \<le> length vs"
    using length_norms_from [of 0 "Fin 0" vs] assms by (intro ccontr [of "255 \<le> length vs"]) (simp add: div_less)
  have e: "norms_from 0 (Fin 0) vs = sq_sum (Fin 0) (take 255 vs) # norms_from (0 + 255) (Fin 0) (drop 255 vs)"
    using len by (intro norms_from_step) simp_all
  show ?thesis
  proof (cases i)
    case 0
    with e show ?thesis by simp
  next
    case (Suc j)
    with e assms norms_from_blocks [of 255 j "drop 255 vs"] show ?thesis by (simp add: ac_simps)
  qed
qed


lemma f32_to_ne_bytes_length [simp]: "length (f32_to_ne_bytes le v) = 4"
  by (simp add: f32_to_ne_bytes_def Let_def)

lemma data_bytes_length [simp]: "length (concat (map (f32_to_ne_bytes le) vs)) = 4 * length vs"
  by (induction vs) simp_all

lemma data_send_loads:
  assumes "numbers text = Some vss" and "data_send le text c = Some c'"
  shows "norm2_vec c' = norms_of vss" and "data_to_send c' = concat (map (f32_to_ne_bytes le) (concat vss))"
    and "norms_of vss \<noteq> []" and "written_data c' = written_data c" and "send_buffer c' = send_buffer c"
    and "\<exists>ns. sort_norms (norm2_vec c') = Some ns \<and> low_split_point c' = ns ! (length ns * 3 div 10) \<and>
           high_split_point c' = ns ! (length ns * 7 div 10)"
proof -
  have l: "\<forall>vs \<in> set vss. length vs < 2 ^ 31" using data_send_numbers [OF assms(2)] assms(1) by auto
  note eq = assms(2) [unfolded data_send_eq [OF assms(1) l]]
  obtain ns where ns: "sort_norms (norms_of vss) = Some ns"
    using eq by (cases "sort_norms (norms_of vss)") simp_all
  obtain lo where lo: "index ns (length ns * 3 div 10) = Some lo"
    using eq ns by (cases "index ns (length ns * 3 div 10)") simp_all
  obtain hi where hi: "index ns (length ns * 7 div 10) = Some hi"
    using eq ns lo by (cases "index ns (length ns * 7 div 10)") simp_all
  have c': "c' = c\<lparr>data_to_send := concat (map (f32_to_ne_bytes le) (concat vss)), norm2_vec := norms_of vss,
             low_split_point := lo, high_split_point := hi\<rparr>"
    using eq ns lo hi by simp
  show "norm2_vec c' = norms_of vss" "data_to_send c' = concat (map (f32_to_ne_bytes le) (concat vss))"
    "written_data c' = written_data c" "send_buffer c' = send_buffer c" by (simp_all add: c')
  show "\<exists>ns. sort_norms (norm2_vec c') = Some ns \<and> low_split_point c' = ns ! (length ns * 3 div 10) \<and>
      high_split_point c' = ns ! (length ns * 7 div 10)"
    using ns lo hi by (auto simp: c' index_def split: if_splits)
  show "norms_of vss \<noteq> []"
  proof
    assume "norms_of vss = []"
    with ns have "ns = []" by (simp add: sort_norms_def)
    with lo show False by (simp add: index_def)
  qed
qed

text \<open>
  (C29) What loading one array does: the data are the four bytes of each number, in order; there is one
  norm for every 256 numbers, rounded up from 255 on; and the norms are shifted by one number against the
  1024-byte blocks they are looked up for: the first is about the numbers 0 to 254, norm \<open>i\<close> about
  \<open>256 i - 1\<close> to \<open>256 i + 254\<close>, while block \<open>i\<close> holds the numbers \<open>256 i\<close> to \<open>256 i + 255\<close>.
\<close>

theorem norms_are_shifted:
  assumes "numbers text = Some [vs]" and "data_send le text c = Some c'"
  shows "data_to_send c' = concat (map (f32_to_ne_bytes le) vs) \<and> length (data_to_send c') = 4 * length vs \<and>
     length (norm2_vec c') = (length vs + 1) div 256 \<and>
     (\<forall>i < length (norm2_vec c'). norm2_vec c' ! i =
        sq_sum (Fin 0) (if i = 0 then take 255 vs else take 256 (drop (256 * i - 1) vs)))"
  using data_send_loads [OF assms] norms_from_zero [of _ vs] length_norms_from [of 0 "Fin 0" vs] by simp

text \<open>
  Data of fewer than 255 numbers in every array cannot be loaded: there is no norm to take the split
  points from, and \<open>data_send\<close> panics on the index.
\<close>

lemma few_numbers_panic:
  assumes "numbers text = Some vss" and "\<forall>vs \<in> set vss. length vs < 255"
  shows "data_send le text c = None"
proof (rule ccontr)
  assume "data_send le text c \<noteq> None"
  then obtain c' where c': "data_send le text c = Some c'" by auto
  have "norms_from 0 (Fin 0) vs = []" if "vs \<in> set vss" for vs
    using length_norms_from [of 0 "Fin 0" vs] assms(2) that by (simp add: div_less)
  with data_send_loads(3) [OF assms(1) c'] show False by simp
qed

text \<open>
  (C37) After one array is loaded, every offset of the data has a priority exactly when the number of
  numbers is 0 or 255 modulo 256.  Otherwise the last block has no norm, and \<open>priority_calculation\<close>, which
  sending a packet of that block calls, panics.
\<close>

theorem last_block_without_norm:
  assumes "numbers text = Some [vs]" and "data_send le text c = Some c'"
  shows "(\<forall>off < length (data_to_send c'). priority_calculation off c' \<noteq> None) \<longleftrightarrow> length vs mod 256 \<in> {0, 255}"
proof -
  define q r where "q = length vs div 256" and "r = length vs mod 256"
  then have n: "length vs = 256 * q + r" "r < 256" by simp_all
  have d: "length (data_to_send c') = 4 * length vs" "length (norm2_vec c') = (length vs + 1) div 256"
    using data_send_loads [OF assms] length_norms_from [of 0 "Fin 0" vs] by simp_all
  have p: "priority_calculation off c' \<noteq> None \<longleftrightarrow> off div 1024 < (length vs + 1) div 256" for off
    by (simp add: priority_calculation_eq d(2))
  have m: "(length vs + 1) div 256 = (if r = 255 then q + 1 else q)" by (simp only: Suc_div_256 q_def r_def)
  show ?thesis
  proof
    assume all: "\<forall>off < length (data_to_send c'). priority_calculation off c' \<noteq> None"
    show "length vs mod 256 \<in> {0, 255}"
    proof (rule ccontr)
      assume "\<not> ?thesis"
      then have "r \<noteq> 0" "r \<noteq> 255" by (simp_all add: r_def)
      then have "1024 * q < length (data_to_send c')" by (simp add: d(1) n(1))
      with all p m \<open>r \<noteq> 255\<close> show False by force
    qed
  next
    assume r: "length vs mod 256 \<in> {0, 255}"
    show "\<forall>off < length (data_to_send c'). priority_calculation off c' \<noteq> None"
    proof (intro allI impI)
      fix off assume "off < length (data_to_send c')"
      then have "off < (length vs + 1) div 256 * 1024"
        unfolding m unfolding d(1) n(1) using r [folded r_def] by (auto split: if_splits)
      then show "priority_calculation off c' \<noteq> None" unfolding p by (rule less_mult_imp_div_less)
    qed
  qed
qed


subsection \<open>The split points\<close>

lemma mset_fl_insort: "mset (fl_insort x ys) = add_mset x (mset ys)"
  by (induction ys) auto

lemma mset_fl_sort: "mset (foldr fl_insort xs []) = mset xs"
  by (induction xs) (auto simp: mset_fl_insort)

lemma fl_lt_asym: "fl_lt a b \<Longrightarrow> \<not> fl_lt b a"
  by (cases a; cases b) auto

lemma fl_not_lt_trans: "a \<noteq> NaN \<Longrightarrow> b \<noteq> NaN \<Longrightarrow> c \<noteq> NaN \<Longrightarrow> \<not> fl_lt b a \<Longrightarrow> \<not> fl_lt c b \<Longrightarrow> \<not> fl_lt c a"
  by (cases a; cases b; cases c) auto

lemma set_fl_insort [simp]: "set (fl_insort x ys) = insert x (set ys)"
  by (induction ys) auto

lemma fl_insort_sorted:
  assumes "sorted_wrt (\<lambda>a b. \<not> fl_lt b a) ys" and "x \<noteq> NaN" and "NaN \<notin> set ys"
  shows "sorted_wrt (\<lambda>a b. \<not> fl_lt b a) (fl_insort x ys)"
  using assms
proof (induction ys)
  case (Cons y ys)
  show ?case
  proof (cases "fl_lt y x")
    case True
    with Cons show ?thesis by (auto dest: fl_lt_asym)
  next
    case False
    have "\<not> fl_lt z x" if "z \<in> set ys" for z
      using fl_not_lt_trans [of x y z] False Cons.prems that by auto
    with False Cons.prems show ?thesis by auto
  qed
qed simp

lemma sort_norms_sorted:
  assumes "sort_norms xs = Some ns"
  shows "mset ns = mset xs" and "length ns = length xs"
    and "\<And>i j. i \<le> j \<Longrightarrow> j < length ns \<Longrightarrow> \<not> fl_lt (ns ! j) (ns ! i)"
proof -
  have ns: "ns = foldr fl_insort xs []" using assms by (simp add: sort_norms_def split: if_splits)
  then show m: "mset ns = mset xs" by (simp add: mset_fl_sort)
  then show len: "length ns = length xs" by (metis size_mset)
  have irr: "\<not> fl_lt a a" for a using fl_lt_asym by blast
  fix i j assume ij: "i \<le> j" "j < length ns"
  show "\<not> fl_lt (ns ! j) (ns ! i)"
  proof (cases "i = j")
    case False
    then have "NaN \<notin> set xs" using assms ij len by (auto simp: sort_norms_def split: if_splits)
    then have "sorted_wrt (\<lambda>a b. \<not> fl_lt b a) ns \<and> NaN \<notin> set ns"
      unfolding ns by (induction xs) (auto intro: fl_insort_sorted)
    then show ?thesis using False ij by (auto simp: sorted_wrt_iff_nth_less)
  qed (simp add: irr)
qed

text \<open>In a sorted list at most \<open>k\<close> elements come before the one at position \<open>k\<close>, and the others do not.\<close>

lemma sorted_below:
  assumes "sort_norms xs = Some ns" and "k < length ns"
  shows "length (filter (\<lambda>x. fl_lt x (ns ! k)) xs) \<le> k"
proof -
  have "filter (\<lambda>x. fl_lt x (ns ! k)) (drop k ns) = []"
    using sort_norms_sorted(3) [OF assms(1)] by (auto simp: filter_empty_conv in_set_conv_nth)
  then have "length (filter (\<lambda>x. fl_lt x (ns ! k)) ns) = length (filter (\<lambda>x. fl_lt x (ns ! k)) (take k ns))"
    by (metis append_Nil2 append_take_drop_id filter_append)
  also have "\<dots> \<le> k" using length_filter_le [of _ "take k ns"] assms(2) by (metis length_take min.absorb4)
  finally have "size (filter_mset (\<lambda>x. fl_lt x (ns ! k)) (mset ns)) \<le> k" by (simp flip: mset_filter)
  then show ?thesis unfolding sort_norms_sorted(1) [OF assms(1)] by (simp flip: mset_filter)
qed

lemma sorted_above:
  assumes "sort_norms xs = Some ns" and "k1 \<le> k2"
  shows "length ns - k2 \<le> length (filter (\<lambda>x. \<not> fl_lt x (ns ! k1) \<and> \<not> fl_lt x (ns ! k2)) xs)"
proof -
  let ?Q = "\<lambda>x. \<not> fl_lt x (ns ! k1) \<and> \<not> fl_lt x (ns ! k2)"
  have "?Q x" if x: "x \<in> set (drop k2 ns)" for x
  proof -
    obtain i where "i < length (drop k2 ns)" "x = drop k2 ns ! i" using x unfolding in_set_conv_nth by blast
    then have "x = ns ! (k2 + i)" "k2 + i < length ns" by auto
    then show ?thesis
      using sort_norms_sorted(3) [OF assms(1), of k1 "k2 + i"] sort_norms_sorted(3) [OF assms(1), of k2 "k2 + i"] assms(2) by simp
  qed
  then have "filter ?Q (drop k2 ns) = drop k2 ns" by (simp add: filter_id_conv)
  then have "length (drop k2 ns) \<le> length (filter ?Q ns)"
    by (metis append_take_drop_id filter_append le_add2 length_append)
  then have "length ns - k2 \<le> size (filter_mset ?Q (mset ns))" by (simp flip: mset_filter)
  then show ?thesis unfolding sort_norms_sorted(1) [OF assms(1)] by (simp flip: mset_filter)
qed

lemma card_nth_filter: "card {i. i < length xs \<and> Q (xs ! i)} = length (filter Q xs)"
  by (simp add: length_filter_conv_card)

text \<open>
  (C28) The split points are quantiles of the norms: after any successful loading of \<open>n\<close> norms, at most three
  tenths of the blocks with a norm have the lowest priority, at least three tenths the highest, and
  every block with a norm has a priority from 1 to 3.
\<close>

theorem split_points_are_quantiles:
  assumes "data_send le text c = Some c'" and "n = length (norm2_vec c')"
  shows "card {i. i < n \<and> priority_calculation (1024 * i) c' = Some 1} \<le> n * 3 div 10 \<and>
     n - n * 7 div 10 \<le> card {i. i < n \<and> priority_calculation (1024 * i) c' = Some 3} \<and>
     (\<forall>i < n. priority_calculation (1024 * i) c' \<in> {Some 1, Some 2, Some 3})"
proof -
  obtain vss where v: "numbers text = Some vss" using data_send_numbers [OF assms(1)] by blast
  let ?xs = "norm2_vec c'"
  obtain ns where ns: "sort_norms ?xs = Some ns" and lo: "low_split_point c' = ns ! (length ns * 3 div 10)"
    and hi: "high_split_point c' = ns ! (length ns * 7 div 10)" using data_send_loads(6) [OF v assms(1)] by blast
  have len: "length ns = n" using sort_norms_sorted(2) [OF ns] assms(2) by simp
  have n: "0 < n" using data_send_loads(1,3) [OF v assms(1)] assms(2) by simp
  have p: "priority_calculation (1024 * i) c' = Some (if fl_lt (?xs ! i) (ns ! (n * 3 div 10)) then 1
      else if fl_lt (?xs ! i) (ns ! (n * 7 div 10)) then 2 else 3)" if "i < n" for i
    using that assms(2) by (simp add: priority_calculation_def index_def Let_def lo hi len)
  have "{i. i < n \<and> priority_calculation (1024 * i) c' = Some 1} = {i. i < length ?xs \<and> fl_lt (?xs ! i) (ns ! (n * 3 div 10))}"
    using p assms(2) by (auto split: if_splits)
  moreover have "n * 3 div 10 < n" using n by linarith
  ultimately have "card {i. i < n \<and> priority_calculation (1024 * i) c' = Some 1} \<le> n * 3 div 10"
    using sorted_below [OF ns, of "n * 3 div 10"] card_nth_filter [of ?xs "\<lambda>x. fl_lt x (ns ! (n * 3 div 10))"]
    by (simp only: len)
  moreover have "{i. i < n \<and> priority_calculation (1024 * i) c' = Some 3} = {i. i < length ?xs \<and>
      (\<not> fl_lt (?xs ! i) (ns ! (n * 3 div 10)) \<and> \<not> fl_lt (?xs ! i) (ns ! (n * 7 div 10)))}"
    using p assms(2) by (auto split: if_splits)
  then have "n - n * 7 div 10 \<le> card {i. i < n \<and> priority_calculation (1024 * i) c' = Some 3}"
    using sorted_above [OF ns, of "n * 3 div 10" "n * 7 div 10"]
      card_nth_filter [of ?xs "\<lambda>x. \<not> fl_lt x (ns ! (n * 3 div 10)) \<and> \<not> fl_lt x (ns ! (n * 7 div 10))"]
      div_le_mono [of "n * 3" "n * 7" 10]
    by (simp only: len)
  ultimately show ?thesis using p by simp
qed


section \<open>A loaded connection\<close>

text \<open>
  \<open>data_send\<close> on a new connection gives one of the connections that the reachable senders start from: it sets
  the data, the norms and the split points, and nothing else.
\<close>

lemma data_send_loaded:
  assumes "data_send le text c = Some c'"
  shows "c' = loaded c (data_to_send c') (norm2_vec c') (low_split_point c') (high_split_point c')"
proof -
  obtain vss where v: "numbers text = Some vss" "\<forall>vs \<in> set vss. length vs < 2 ^ 31" using data_send_numbers [OF assms] by blast
  from assms [unfolded data_send_eq [OF v]] show ?thesis by (auto simp: loaded_def Option.bind_eq_Some_conv)
qed

lemma data_send_reachable:
  assumes "data_send le text (fresh_connection loc peer True now) = Some c" and "length (data_to_send c) < lim64"
  shows "snd_reachable oc iter c"
  using sr_open [OF assms(2)] data_send_loaded [OF assms(1)] by metis

section \<open>Loading again\<close>

text \<open>
  (C27) After \<open>reset\<close> and \<open>data_send\<close>, offsets and data no longer agree.  \<open>reset\<close> sets the offset of the send buffer
  back to 0, but \<open>written_data\<close> stays.  So when a sender whose queue is empty is reset and loaded with data longer than
  what it had written, \<open>send_all\<close> queues chunks whose offsets count from 0 and whose bytes are those
  of the new data from \<open>written_data\<close> on: the receiver will place them too low, and never gets the bytes before.
\<close>

theorem reload_shifts_offsets:
  assumes "octets_spec oc" and "snd_reachable oc iter c" and "sb_data (send_buffer c) = []"
    and "data_send le text (Connection_reset c) = Some c'" and "length (data_to_send c') < lim64"
    and "written_data c < length (data_to_send c')" and "round_window c = Some (w, r)" and "0 < w"
  shows "\<exists>c'' cs. send_all now c' = Some (Ok True, c'') \<and> cs \<noteq> [] \<and> sb_view (send_buffer c'') = at_offsets 0 cs \<and>
     concat cs = take w (drop (written_data c) (data_to_send c'))"
proof -
  have inv: "snd_inv c" using assms(1,2) by (rule snd_reachable_inv)
  let ?c = "set_handshake now (c'\<lparr>stop_flag := False, stop_ack := False\<rparr>)"
  define sb where "sb = SendBuf_clear (send_buffer c)"
  note l = data_send_loaded [OF assms(4)]
  define dat where "dat = drop (written_data c) (data_to_send c')"
  have e: "send_buffer c' = sb" "written_data c' = written_data c" "total_offset c' = total_offset c" "recovery_of c' = recovery_of c"
    "high_priority c' = high_priority c" "sent_number c' = sent_number c"
    by (subst l, simp add: loaded_def Connection_reset_def sb_def)+
  have "round_window ?c = round_window c" by (simp add: set_handshake_def round_window_def e)
  then have f: "send_buffer ?c = sb" "written_data ?c = written_data c" "data_to_send ?c = data_to_send c'" "total_offset ?c = written_data c"
    "round_window ?c = Some (w, r)"
    using assms(7) inv by (simp_all add: set_handshake_def e snd_inv_def)
  have "sb_inv (send_buffer c)" using inv by (simp add: snd_inv_def)
  then have sb: "sb_inv sb" "sb_off sb = 0" "unacked sb = []"
    using assms(3) by (auto simp: sb_def sb_inv_def SendBuf_clear_def unacked_def sb_view_def)
  have w: "w < lim64" using round_window_bounds [OF _ assms(7)] inv by (simp add: snd_inv_def)
  have n: "accepted dat w sb = min (length dat) w" "dat \<noteq> []" "length dat + written_data c = length (data_to_send c')"
    using assms(6) by (simp_all add: accepted_def sb(3) dat_def)
  define cs where "cs = pieces (block_rest ?c) (take (accepted dat w sb) dat)"
  have tk: "take (accepted dat w sb) dat = take w dat" unfolding n(1) by (cases "length dat \<le> w") (simp_all add: min_def)
  have br: "block_rest ?c \<le> 1024" and rm: "sb_off sb + length dat < lim64" and nz: "accepted dat w sb \<noteq> 0"
    using n assms(5,8) sb(2) by (simp_all add: block_rest_def)
  obtain sb' where wr: "SendBuf_write dat w (block_rest ?c) (max_off ?c) sb = Some (Ok (accepted dat w sb), sb')"
    and v: "sb_view sb' = at_offsets 0 cs"
    using SendBuf_write_spec [OF sb(1) br w rm, of "max_off ?c"] nz unfolding sb(2,3) cs_def by auto
  have "written_data c + accepted dat w sb < lim64" using n assms(5) by simp
  then have "send_all_write ?c = Some (Ok True, ?c\<lparr>high_priority := 0, sent_number := 0, recovery_of := r, send_buffer := sb',
      written_data := written_data c + accepted dat w sb, total_offset := written_data c + accepted dat w sb\<rparr>)"
    using Connection_write_eq [OF f(5), of "Ok (accepted dat w sb)" sb'] wr assms(6) f(1-4) unfolding dat_def
    by (simp add: send_all_write_def)
  moreover have "send_all now c' = send_all_write ?c" using assms(6) by (simp add: send_all_def Let_def set_handshake_def e)
  moreover have "concat cs = take w dat" using tk by (simp add: cs_def concat_pieces)
  moreover from this have "cs \<noteq> []" using n(2) assms(8) by auto
  ultimately show ?thesis using v unfolding dat_def by (intro exI [of _ "?c\<lparr>high_priority := 0, sent_number := 0, recovery_of := r, send_buffer := sb',
      written_data := written_data c + accepted dat w sb, total_offset := written_data c + accepted dat w sb\<rparr>"] exI [of _ cs]) (simp add: dat_def)
qed

text \<open>
  (C38) Neither \<open>reset\<close> nor \<open>data_send\<close> takes back how much of the data was written.  When the application
  resets the connection and loads new data no longer than what was written before, \<open>send_all\<close> finds nothing to
  send: it reports \<open>false\<close> and the send buffer stays empty.
\<close>

theorem reloaded_data_not_sent:
  assumes "data_send le text (Connection_reset c) = Some c'" and "length (data_to_send c') \<le> written_data c"
  shows "send_all now c' = Some (Ok False, set_handshake now (c'\<lparr>stop_flag := False, stop_ack := False\<rparr>)) \<and>
     sb_data (send_buffer c') = []"
proof -
  obtain vss where v: "numbers text = Some vss" using data_send_numbers [OF assms(1)] by blast
  have "written_data c' = written_data c" "sb_data (send_buffer c') = []"
    using data_send_loads(4,5) [OF v assms(1)] by (simp_all add: Connection_reset_def SendBuf_clear_def)
  with assms(2) show ?thesis by (simp add: send_all_def set_handshake_def Let_def)
qed

text \<open>
  (C39) \<open>clear\<close>, with which \<open>reset\<close> empties the send buffer, leaves the acknowledgement flags of the old chunks.  Take
  a buffer of two chunks, at 0 and at some \<open>k\<close> below 1024, that is cleared and filled with two blocks: the
  flag of the old chunk at \<open>k\<close> now stands between those of the new ones, so that a late acknowledgement of it
  drops the new chunk at 1024, which nobody has received.
\<close>

theorem stale_flag_drops_chunk:
  assumes "offset_recv s = [(0, True), (k, True)]" and "0 < k" and "k < 1024" and "sb_error s = None"
    and "length dat = 2048" and "2048 \<le> window"
  shows "\<exists>s1 s2. SendBuf_write dat window 0 m (SendBuf_clear s) = Some (Ok 2048, s1) \<and>
     sb_view s1 = [(0, take 1024 dat), (1024, drop 1024 dat)] \<and>
     recv_and_drop m (ack_and_drop k s1) = Some s2 \<and> sb_view s2 = [(0, take 1024 dat)]"
proof -
  let ?s = "SendBuf_clear s\<lparr>max_data := window, removed := 0, sb_sent := 0, sb_len := 0, used_length := 0\<rparr>"
  let ?s1 = "?s\<lparr>offset_recv := [(0, True), (k, True), (1024, True)],
    sb_data := [RangeBuf_from (take 1024 dat) 0, RangeBuf_from (drop 1024 dat) 1024],
    sb_off := 2048, sb_len := 2048, used_length := 2048\<rparr>"
  have ne: "dat \<noteq> []" "drop 1024 dat \<noteq> []" using assms(5) by auto
  have ch: "chunks SEND_BUFFER_SIZE dat = [take 1024 dat, drop 1024 dat]"
    using ne assms(5) chunks_step [of 1024 dat] chunks_step [of 1024 "drop 1024 dat"] by (simp add: SEND_BUFFER_SIZE_def)
  have w: "SendBuf_write dat window 0 m (SendBuf_clear s) = Some (Ok 2048, ?s1)"
    using assms ne ch
    by (simp add: SendBuf_write_def recv_and_drop_def SendBuf_clear_def SendBuf_len_def SendBuf_cap_def SendBuf_push_def)
  have v: "sb_view ?s1 = [(0, take 1024 dat), (1024, drop 1024 dat)]" by (simp add: sb_view_def RangeBuf_from_def)
  let ?s2 = "?s1\<lparr>sb_data := [RangeBuf_from (take 1024 dat) 0], offset_recv := [(0, True), (1024, True)]\<rparr>"
  have "recv_and_drop m (ack_and_drop k ?s1) = Some ?s2"
    using assms(2,3) by (simp add: recv_and_drop_def ack_and_drop_def bt_set_def)
  moreover have "sb_view ?s2 = [(0, take 1024 dat)]" by (simp add: sb_view_def RangeBuf_from_def)
  ultimately show ?thesis using w v by blast
qed

theorem stale_flag_drops_chunk_witness:
  "\<exists>s s1 s2. SendBuf_write [1, 2, 3] 2 0 0 (SendBuf_new 10800) = Some (Ok 2, s) \<and>
     SendBuf_write (replicate 2048 7) 9600 0 0 (SendBuf_clear (the (SendBuf_push [3] s))) = Some (Ok 2048, s1) \<and>
     recv_and_drop 0 (ack_and_drop 2 s1) = Some s2 \<and> sb_view s2 = [(0, take 1024 (replicate 2048 7))]"
proof -
  let ?s = "\<lparr>sb_data = [RangeBuf_from [1, 2] 0], sb_pos = 0, sb_off = 2, sb_len = 2, max_data = 2, sb_error = None,
      used_length = 2, offset_recv = [(0, True)], removed = 0, sb_sent = 0\<rparr>"
  have w: "SendBuf_write [1, 2, 3] 2 0 0 (SendBuf_new 10800) = Some (Ok 2, ?s)"
    by (simp add: SendBuf_write_def recv_and_drop_def SendBuf_new_def SendBuf_len_def SendBuf_cap_def chunks_step
        SEND_BUFFER_SIZE_def SendBuf_push_def)
  have "offset_recv (the (SendBuf_push [3] ?s)) = [(0, True), (2, True)]" "sb_error (the (SendBuf_push [3] ?s)) = None"
    by (simp_all add: SendBuf_push_def)
  from stale_flag_drops_chunk [OF this(1) _ _ this(2), of "replicate 2048 7" 9600 0] w show ?thesis by simp blast
qed

section \<open>A text of 255 numbers\<close>

lemma split_on_none: "sep \<notin> set xs \<Longrightarrow> split_on sep xs = [xs]"
  by (induction xs) auto

lemma split_on_append: "sep \<notin> set xs \<Longrightarrow> split_on sep (xs @ sep # ys) = xs # split_on sep ys"
  by (induction xs) auto

definition demo_array :: "nat \<Rightarrow> string" where
  "demo_array n = CHR ''['' # concat (replicate n ''1 '') @ '']''"

lemma demo_chars: "set (concat (replicate n ''1 '')) \<subseteq> {CHR ''1'', CHR '' ''}"
  by (induction n) auto

lemma demo_items: "array_items (demo_array n) = Some (replicate n ''1'')"
proof -
  have c: "CHR ''['' \<notin> set (concat (replicate n ''1 ''))" "CHR '']'' \<notin> set (concat (replicate n ''1 ''))"
    using demo_chars [of n] by auto
  have "split_on CHR ''['' (demo_array n) = [[], concat (replicate n ''1 '') @ '']'']"
    using split_on_append [of "CHR ''[''" "[]"] c(1) by (simp add: demo_array_def split_on_none)
  moreover have "split_on CHR '']'' (concat (replicate n ''1 '') @ '']'') = [concat (replicate n ''1 ''), []]"
    using split_on_append [OF c(2), of "[]"] by simp
  moreover have "split_on CHR '' '' (concat (replicate n ''1 '')) = replicate n ''1'' @ [[]]"
    by (induction n) simp_all
  ultimately show ?thesis by (simp add: array_items_def index_def)
qed

lemma parse_one: "parse_f32 ''1'' = Some (False, rnd32 1)"
  by (simp add: parse_f32_def parse_number_def parse_exp_def digit_def digits_value_def Let_def)

lemma demo_numbers: "numbers (demo_array n) = Some [replicate n (False, rnd32 1)]"
proof -
  have "set (demo_array n) \<subseteq> {CHR ''1'', CHR '' '', CHR ''['', CHR '']''}"
    using demo_chars [of n] by (auto simp: demo_array_def)
  then have "filter (\<lambda>x. x \<notin> {CHR 0x0A, CHR 0x22, CHR 0x0D}) (demo_array n) = demo_array n" "CHR ''>'' \<notin> set (demo_array n)"
    by (auto simp: filter_id_conv)
  then have "text_parts (demo_array n) = [demo_array n]"
    by (simp add: text_parts_def split_on_none) (simp add: demo_array_def)
  moreover have "those (replicate n (Some v)) = Some (replicate n v)" for v :: f32 by (induction n) simp_all
  ultimately show ?thesis by (simp add: numbers_def array_numbers_def demo_items parse_one)
qed


lemma demo_norms:
  obtains x where "norms_from 0 (Fin 0) (replicate 255 (False, rnd32 1)) = [x]"
proof -
  have "length (norms_from 0 (Fin 0) (replicate 255 (False, rnd32 1))) = 1"
    using length_norms_from [of 0 "Fin 0" "replicate 255 (False, rnd32 1)"] by simp
  then show thesis using that by (metis length_Suc_conv length_0_conv One_nat_def)
qed

lemma demo_load: "\<exists>c'. data_send le (demo_array 255) c = Some c' \<and> length (data_to_send c') = 1020"
proof -
  obtain x where x: "norms_from 0 (Fin 0) (replicate 255 (False, rnd32 1)) = [x]" by (rule demo_norms)
  have "data_send le (demo_array 255) c \<noteq> None"
    using data_send_eq [OF demo_numbers, of 255 le c] by (simp add: x sort_norms_def index_def)
  then obtain c' where c': "data_send le (demo_array 255) c = Some c'" by auto
  have "length (data_to_send c') = 1020"
    using data_send_loads(2) [OF demo_numbers c'] by (simp only: data_bytes_length) simp
  with c' show ?thesis by blast
qed

theorem norms_are_shifted_witness:
  "\<exists>c'. data_send True (demo_array 255) (fresh_connection (SocketAddrV4 0 1) (SocketAddrV4 0 2) True 0) = Some c' \<and>
     length (data_to_send c') = 1020 \<and> length (norm2_vec c') = 1"
proof -
  let ?c = "fresh_connection (SocketAddrV4 0 1) (SocketAddrV4 0 2) True 0"
  obtain c' where c': "data_send True (demo_array 255) ?c = Some c'" using demo_load by blast
  let ?vs = "replicate 255 (False, rnd32 1)"
  from norms_are_shifted [OF demo_numbers c']
  have "length (data_to_send c') = 4 * length ?vs \<and> length (norm2_vec c') = (length ?vs + 1) div 256" by blast
  with c' show ?thesis by simp
qed

theorem last_block_without_norm_witness:
  "\<exists>c'. data_send True (demo_array 255) (fresh_connection (SocketAddrV4 0 1) (SocketAddrV4 0 2) True 0) = Some c' \<and>
     (\<forall>off < length (data_to_send c'). priority_calculation off c' \<noteq> None)"
proof -
  let ?c = "fresh_connection (SocketAddrV4 0 1) (SocketAddrV4 0 2) True 0"
  obtain c' where c': "data_send True (demo_array 255) ?c = Some c'" using demo_load by blast
  have "\<forall>off < length (data_to_send c'). priority_calculation off c' \<noteq> None"
    by (subst last_block_without_norm [OF demo_numbers c']) simp
  with c' show ?thesis by blast
qed

theorem split_points_are_quantiles_witness:
  "\<exists>c'. data_send True (demo_array 255) (fresh_connection (SocketAddrV4 0 1) (SocketAddrV4 0 2) True 0) = Some c' \<and>
     1 \<le> card {i. i < 1 \<and> priority_calculation (1024 * i) c' = Some 3}"
proof -
  let ?c = "fresh_connection (SocketAddrV4 0 1) (SocketAddrV4 0 2) True 0"
  obtain c' where c': "data_send True (demo_array 255) ?c = Some c'" using demo_load by blast
  obtain x where "norms_from 0 (Fin 0) (replicate 255 (False, rnd32 1)) = [x]" by (rule demo_norms)
  then have "1 = length (norm2_vec c')" using data_send_loads(1) [OF demo_numbers c'] by simp
  from split_points_are_quantiles [OF c' this] c' show ?thesis by auto
qed

theorem reloaded_data_not_sent_witness:
  "\<exists>c c'. data_send True (demo_array 255) (Connection_reset c) = Some c' \<and>
     send_all 0 c' = Some (Ok False, set_handshake 0 (c'\<lparr>stop_flag := False, stop_ack := False\<rparr>))"
proof -
  let ?c = "(fresh_connection (SocketAddrV4 0 1) (SocketAddrV4 0 2) True 0)\<lparr>written_data := 1020\<rparr>"
  obtain c' where c': "data_send True (demo_array 255) (Connection_reset ?c) = Some c'" "length (data_to_send c') = 1020"
    using demo_load by blast
  then have "length (data_to_send c') \<le> written_data ?c" by simp
  from reloaded_data_not_sent [OF c'(1) this] c'(1) show ?thesis by blast
qed

end
