(* ===== verification/Typing.thy ===== *)
theory Typing
  imports Loading
begin

text \<open>
  The model counts in natural numbers where the code has \<open>usize\<close> and \<open>u64\<close>, and writes out the panic of
  every sum, difference and product.  This theory shows that nothing is lost: in every state a
  connection reaches through its interface, with any arguments and any packets, each of its counters, offsets, sizes and
  map entries fits the type its field has in the code, and \<open>ack_point\<close> lies within the list of sent packets.  The
  position \<open>pos\<close> of the send buffer is not an index into its queue in every state: dropping chunks does not move
  it.  Times and floating-point numbers are not counted.

  The proofs follow the code: \<open>unless_panic m Q\<close> says that \<open>Q\<close> holds of what \<open>m\<close> returns, and the rules of
  \<open>panic_flow\<close> walk through \<open>m\<close>, keeping what each call returned as a fact.
\<close>

section \<open>What holds unless the code panics\<close>

definition unless_panic :: "'a option \<Rightarrow> ('a \<Rightarrow> bool) \<Rightarrow> bool" where
  "unless_panic m Q \<longleftrightarrow> (\<forall>x. m = Some x \<longrightarrow> Q x)"

named_theorems panic_flow

lemma unless_panic_flow [panic_flow]:
  "unless_panic None Q"
  "Q x \<Longrightarrow> unless_panic (Some x) Q"
  "(\<And>y. m = Some y \<Longrightarrow> unless_panic (f y) Q) \<Longrightarrow> unless_panic (Option.bind m f) Q"
  by (auto simp: unless_panic_def Option.bind_eq_Some_conv)

lemma unless_panic_cases [panic_flow]:
  "(b \<Longrightarrow> unless_panic m Q) \<Longrightarrow> (\<not> b \<Longrightarrow> unless_panic m' Q) \<Longrightarrow> unless_panic (if b then m else m') Q"
  "(\<And>y z. p = (y, z) \<Longrightarrow> unless_panic (g y z) Q) \<Longrightarrow> unless_panic (case p of (y, z) \<Rightarrow> g y z) Q"
  "(\<And>y. r = Ok y \<Longrightarrow> unless_panic (h y) Q) \<Longrightarrow> (\<And>e. r = Err e \<Longrightarrow> unless_panic (k e) Q) \<Longrightarrow>
     unless_panic (case r of Ok y \<Rightarrow> h y | Err e \<Rightarrow> k e) Q"
  by (auto split: prod.split result.split)

text \<open>For a step with a known postcondition.\<close>

lemma unless_panic_seq:
  "unless_panic m P \<Longrightarrow> (\<And>y. P y \<Longrightarrow> unless_panic (f y) Q) \<Longrightarrow> unless_panic (Option.bind m f) Q"
  by (auto simp: unless_panic_def Option.bind_eq_Some_conv)

lemma unless_panicI: "(\<And>x. m = Some x \<Longrightarrow> Q x) \<Longrightarrow> unless_panic m Q"
  by (simp add: unless_panic_def)

lemma unless_panicD: "unless_panic m Q \<Longrightarrow> m = Some x \<Longrightarrow> Q x"
  by (simp add: unless_panic_def)

text \<open>What a checked operation returns fits its type.\<close>

lemma checked_fits:
  "add64 a b = Some c \<Longrightarrow> c < lim64" "mul64 a b = Some c \<Longrightarrow> c < lim64" "sub64 a b = Some c \<Longrightarrow> a < lim64 \<Longrightarrow> c < lim64"
  by (auto simp: panic_simps)

section \<open>The congestion controller\<close>

definition rec_typed :: "recovery \<Rightarrow> bool" where
  "rec_typed r \<longleftrightarrow> congestion_window r < lim64 \<and> incre_win r < lim64 \<and> decre_win r < lim64 \<and>
     lost_count r < lim64 \<and> bytes_in_flight r < lim64 \<and> max_datagram_size r < lim64 \<and>
     length (loss_probes r) = 3 \<and> (\<forall>n \<in> set (loss_probes r). n < lim64) \<and>
     length (in_flight_count r) = 3 \<and> (\<forall>n \<in> set (in_flight_count r). n < lim64) \<and>
     prior_congestion_window (cub_prior (cubic_state_of r)) < lim64 \<and> prior_lost_count (cub_prior (cubic_state_of r)) < lim64 \<and>
     (\<forall>w \<in> set (former_win_vecter r). w < lim64)"

lemma Recovery_new_typed: "unless_panic (Recovery_new cfg) rec_typed"
  unfolding Recovery_new_def new_with_config_def
  by (intro panic_flow) (auto simp: rec_typed_def PACKET_SIZE_def State_default_def intro: checked_fits)

lemma update_win_typed: "rec_typed r \<Longrightarrow> unless_panic (update_win w n r) rec_typed"
  unfolding update_win_def Let_def by (intro panic_flow) (auto simp: rec_typed_def intro: checked_fits)

lemma Recovery_rollback_typed: "rec_typed r \<Longrightarrow> Recovery_rollback r = (w, r') \<Longrightarrow> w < lim64 \<and> rec_typed r'"
  unfolding Recovery_rollback_def bs_pop_last_def rec_typed_def
  by (cases "former_win_vecter r = []") (force simp: INI_WIN_def dest: in_set_butlastD)+

lemma cwnd_typed: "rec_typed r \<Longrightarrow> unless_panic (cwnd r) (\<lambda>(w, r'). w < lim64 \<and> rec_typed r')"
  by (auto simp: unless_panic_def cwnd_eq_Some rec_typed_def)

section \<open>The receive buffer\<close>

definition rcv_typed :: "recv_buf \<Rightarrow> bool" where
  "rcv_typed s \<longleftrightarrow> (\<forall>(k, b) \<in> set (rv_data s). k < lim64 \<and> rb_wf b) \<and>
     rv_off s < lim64 \<and> rv_len s < lim64 \<and> last_maxoff s < lim64 \<and> max_recv_off s < lim64"

lemma RecvBuf_write_typed: "rcv_typed s \<Longrightarrow> unless_panic (RecvBuf_write xs off s) (\<lambda>(r, s'). rcv_typed s')"
proof (cases "off + length xs < lim64")
  case True
  assume s: "rcv_typed s"
  have "k < lim64 \<and> rb_wf b"
    if "(k, b) \<in> set (bt_insert (off + length xs) (RangeBuf_from xs off) (rv_data s))" for k b
    using that set_bt_insert [of "off + length xs" "RangeBuf_from xs off" "rv_data s"] s True rb_wf_from [OF True]
    by (auto simp: rcv_typed_def)
  with s True show ?thesis
    by (auto simp: unless_panic_def rcv_typed_def RecvBuf_write_def rb_wf_ops [OF rb_wf_from] split: if_splits)
next
  case False
  then show ?thesis by (simp add: RecvBuf_write_panics panic_flow)
qed

lemma rcv_typed_rest:
  "rcv_typed s \<Longrightarrow> rv_data s = (k, b) # rest \<Longrightarrow> lm < lim64 \<Longrightarrow> rcv_typed (s\<lparr>last_maxoff := lm, rv_data := rest\<rparr>)"
  by (simp add: rcv_typed_def)

lemma recv_emit_loop_typed:
  "rcv_typed s \<Longrightarrow> unless_panic (recv_emit_loop len cap out s) (\<lambda>(n, out', s'). rcv_typed s')"
proof (induction "length (rv_data s)" arbitrary: len cap out s)
  case 0
  then show ?case by (subst recv_emit_loop.simps) (simp add: panic_flow RecvBuf_ready_def)
next
  case (Suc j)
  then obtain k b rest where d: "rv_data s = (k, b) # rest" by (cases "rv_data s") auto
  have b: "rb_wf b" using Suc.prems d by (simp add: rcv_typed_def)
  have IH: "unless_panic (recv_emit_loop len1 cap1 out1 (s\<lparr>last_maxoff := lm, rv_data := rest\<rparr>)) (\<lambda>(n, out', s'). rcv_typed s')"
    if "lm < lim64" for len1 cap1 out1 lm
    using Suc.hyps(1) [of "s\<lparr>last_maxoff := lm, rv_data := rest\<rparr>"] Suc.hyps(2) Suc.prems d that
    by (simp add: rcv_typed_rest)
  have upd: "rcv_typed (s\<lparr>last_maxoff := lm\<rparr>)" if "lm < lim64" for lm
    using Suc.prems that by (simp add: rcv_typed_def)
  have part: "rcv_typed (s\<lparr>last_maxoff := lm, rv_data := (k, b') # rest\<rparr>)" if "lm < lim64" "rb_wf b'" for lm b'
    using Suc.prems d that by (simp add: rcv_typed_def)
  have cut: "rb_wf b'" if "RangeBuf_len b = Some l" "n < l" "RangeBuf_consume n b = Some b'" for l n b'
    using that rb_wf_consume [OF b, of n] rb_wf_ops(2) [OF b] by auto
  show ?case
    by (subst recv_emit_loop.simps, unfold Let_def d list.case prod.case, intro panic_flow, simp_all only: prod.case Suc.prems)
      (blast intro: part IH upd checked_fits cut)+
qed

lemma RecvBuf_emit_typed: "rcv_typed s \<Longrightarrow> unless_panic (RecvBuf_emit out s) (\<lambda>(r, out', s'). rcv_typed s')"
  unfolding RecvBuf_emit_def
  by (intro panic_flow) (use unless_panicD [OF recv_emit_loop_typed] in fastforce)+

section \<open>The send buffer\<close>

definition snd_typed :: "send_buf \<Rightarrow> bool" where
  "snd_typed s \<longleftrightarrow> sorted_wrt before (sb_data s) \<and> (\<forall>b \<in> set (sb_data s). chunk_ok (sb_off s) b) \<and>
     (\<forall>k \<in> fst ` set (offset_recv s). k < lim64) \<and>
     sb_pos s < lim64 \<and> sb_off s < lim64 \<and> sb_len s < lim64 \<and> max_data s < lim64 \<and>
     used_length s < lim64 \<and> removed s < lim64 \<and> sb_sent s < lim64 \<and> sb_error s = None"

lemma chunks_fit:
  "sorted_wrt before bs \<Longrightarrow> \<forall>b \<in> set bs. chunk_ok e b \<Longrightarrow>
     sum_list (map (length \<circ> rb_data) bs) \<le> e \<and> length bs \<le> e"
proof (induction bs arbitrary: e rule: rev_induct)
  case (snoc b bs)
  have "\<forall>a \<in> set bs. chunk_ok (rb_off b) a"
    using snoc.prems by (auto simp: sorted_wrt_append before_def chunk_ok_def)
  moreover have "sorted_wrt before bs" using snoc.prems by (simp add: sorted_wrt_append)
  ultimately have "sum_list (map (length \<circ> rb_data) bs) \<le> rb_off b \<and> length bs \<le> rb_off b"
    by (rule snoc.IH [rotated])
  moreover have "chunk_ok e b" using snoc.prems by simp
  ultimately show ?case by (auto simp: chunk_ok_def o_def Suc_le_eq)
qed simp

lemma snd_typed_fit: "snd_typed s \<Longrightarrow> SendBuf_len s < lim64 \<and> length (sb_data s) < lim64"
  using chunks_fit [of "sb_data s" "sb_off s"] by (auto simp: snd_typed_def SendBuf_len_def)

lemma SendBuf_new_typed: "md < lim64 \<Longrightarrow> snd_typed (SendBuf_new md)"
  by (simp add: snd_typed_def SendBuf_new_def)

lemma SendBuf_clear_typed: "snd_typed s \<Longrightarrow> snd_typed (SendBuf_clear s)"
  by (simp add: snd_typed_def SendBuf_clear_def)

lemma ack_and_drop_typed: "snd_typed s \<Longrightarrow> snd_typed (ack_and_drop k s)"
  by (auto simp: snd_typed_def ack_and_drop_def simp flip: set_map)

lemma fold_ack_typed: "snd_typed s \<Longrightarrow> snd_typed (fold ack_and_drop ks s)"
  by (induction ks arbitrary: s) (simp_all add: ack_and_drop_typed)

lemma zip_filter_sub: "set (map fst (filter snd (zip xs bs))) \<subseteq> set xs"
  by (auto dest: set_zip_leftD)

lemma sorted_zip_filter: "sorted_wrt P xs \<Longrightarrow> sorted_wrt P (map fst (filter snd (zip xs bs)))"
proof (induction xs arbitrary: bs)
  case (Cons x xs)
  then show ?case using zip_filter_sub [of xs] by (cases bs) (auto dest: set_zip_leftD)
qed simp

lemma recv_and_drop_typed:
  assumes "snd_typed s"
  shows "unless_panic (recv_and_drop k s) snd_typed"
proof -
  have "snd_typed (s\<lparr>sb_data := map fst (filter snd (zip (sb_data s) bs)), offset_recv := filter snd (offset_recv s)\<rparr>)" for bs
    using assms zip_filter_sub [of "sb_data s" bs] sorted_zip_filter [of before "sb_data s" bs]
    by (auto simp: snd_typed_def dest: set_zip_leftD)
  with assms show ?thesis unfolding recv_and_drop_def Let_def by (intro panic_flow)
qed

lemma SendBuf_push_typed:
  assumes s: "snd_typed s" and c: "c \<noteq> []" "length c \<le> 1024"
  shows "unless_panic (SendBuf_push c s) snd_typed"
proof -
  have "sorted_wrt before (sb_data s @ [RangeBuf_from c (sb_off s)])"
    using s by (auto simp: snd_typed_def sorted_wrt_append before_def chunk_ok_def)
  moreover have "\<forall>b \<in> set (sb_data s @ [RangeBuf_from c (sb_off s)]). chunk_ok (sb_off s + length c) b"
    using s c by (auto simp: snd_typed_def chunk_ok_def SEND_BUFFER_SIZE_def)
  moreover have "\<forall>k \<in> fst ` set (bt_insert (sb_off s) True (offset_recv s)). k < lim64"
    using s by (simp add: snd_typed_def)
  ultimately show ?thesis
    using s unfolding SendBuf_push_def by (intro panic_flow) (auto simp: snd_typed_def panic_simps simp del: keys_bt_insert)
qed

lemma push_chunks_typed:
  "snd_typed s \<Longrightarrow> \<forall>c \<in> set cs. c \<noteq> [] \<and> length c \<le> 1024 \<Longrightarrow> unless_panic (push_chunks cs n s) (\<lambda>(n, s'). snd_typed s')"
proof (induction cs arbitrary: n s)
  case (Cons c cs)
  then have "snd_typed s1" if "SendBuf_push c s = Some s1" for s1
    using that by (auto intro: unless_panicD [OF SendBuf_push_typed])
  with Cons show ?case by (auto intro!: panic_flow)
qed (simp add: panic_flow)

lemma SendBuf_cap_typed: "snd_typed s \<Longrightarrow> unless_panic (SendBuf_cap s) (\<lambda>(r, s'). snd_typed s')"
  using snd_typed_fit [of s]
  by (auto simp: SendBuf_cap_def snd_typed_def Let_def SendBuf_len_def intro!: panic_flow split: option.split)

lemma round_start_typed:
  assumes "snd_typed s" and "w < lim64" and "s1 = s\<lparr>max_data := w, removed := 0, sb_sent := 0\<rparr>"
  shows "snd_typed (s1\<lparr>sb_len := SendBuf_len s1, used_length := SendBuf_len s1\<rparr>)"
proof -
  have "snd_typed s1" using assms by (simp add: snd_typed_def)
  with snd_typed_fit [OF this] show ?thesis by (simp add: snd_typed_def)
qed

lemma write_tail_typed:
  assumes s: "snd_typed s" and d: "d \<noteq> []" and o: "off_len \<le> 1024"
  shows "unless_panic
    (if off_len > 0 \<and> \<not> length d > off_len then do {
       s \<leftarrow> SendBuf_push d s;
       Some (Ok (length d), s)
     }
     else do {
       s \<leftarrow> (if off_len > 0 then SendBuf_push (take off_len d) s else Some s);
       rest \<leftarrow> slice_from d off_len;
       (n, s) \<leftarrow> push_chunks (chunks SEND_BUFFER_SIZE rest) off_len s;
       Some (Ok n, s)
     }) (\<lambda>(r, s'). snd_typed s')"
proof -
  have whole: "snd_typed s1" if "SendBuf_push d s = Some s1" "\<not> length d > off_len" for s1
    using unless_panicD [OF SendBuf_push_typed [OF s d]] o that by simp
  have head: "snd_typed s1" if "(if off_len > 0 then SendBuf_push (take off_len d) s else Some s) = Some s1" for s1
    using that s unless_panicD [OF SendBuf_push_typed [OF s, of "take off_len d"]] o d by (auto split: if_splits)
  have rest: "snd_typed s2" if "push_chunks (chunks SEND_BUFFER_SIZE xs) n s1 = Some (m, s2)" "snd_typed s1" for xs n s1 m s2
    using unless_panicD [OF push_chunks_typed [OF that(2)] that(1)] chunks_sizes [of 1024 _ xs] by (auto simp: SEND_BUFFER_SIZE_def)
  show ?thesis
    by (intro panic_flow) (auto simp only: prod.case intro: whole head rest)
qed

lemma SendBuf_write_typed:
  assumes "snd_typed s" and "w < lim64" and "off_len \<le> 1024"
  shows "unless_panic (SendBuf_write dat w off_len k s) (\<lambda>(r, s'). snd_typed s')"
proof -
  let ?start = "\<lambda>s. s\<lparr>max_data := w, removed := 0, sb_sent := 0\<rparr>"
  let ?s = "\<lambda>s. (?start s)\<lparr>sb_len := SendBuf_len (?start s), used_length := SendBuf_len (?start s)\<rparr>"
  have start: "snd_typed (?s s1)" if "recv_and_drop k s = Some s1" for s1
    using unless_panicD [OF recv_and_drop_typed [OF assms(1)] that] assms(2) by (rule round_start_typed) simp
  have cap: "snd_typed s2" if "recv_and_drop k s = Some s1" "SendBuf_cap (?s s1) = Some (r, s2)" for s1 r s2
    using unless_panicD [OF SendBuf_cap_typed [OF start [OF that(1)]] that(2)] by simp
  show ?thesis
    unfolding SendBuf_write_def Let_def
    by (intro write_tail_typed [OF _ _ assms(3)] panic_flow) (auto simp only: prod.case intro: start cap)
qed

text \<open>\<open>emit\<close> moves the position within the queue and counts down.\<close>

lemma emit_loop_typed: "snd_typed s \<Longrightarrow> unless_panic (emit_loop n out s) (\<lambda>(m, out', s'). snd_typed s')"
proof (induction n out s rule: emit_loop.induct)
  case (1 out_len out s)
  let ?b = "sb_data s ! sb_pos s"
  have next_pos: "sb_pos s + 1 < lim64" if "sb_pos s < length (sb_data s)"
    using that snd_typed_fit [OF "1.prems"] by simp
  have sub: "snd_typed (s\<lparr>sb_len := l, used_length := u, sb_pos := sb_pos s + 1\<rparr>)"
    if "sub64 (sb_len s) n = Some l" "sub64 (used_length s) n = Some u" "sb_pos s < length (sb_data s)" for l u n
    using "1.prems" that next_pos by (auto simp: snd_typed_def panic_simps)
  have full: "RangeBuf_is_empty ?b \<noteq> Some True" if "sb_pos s < length (sb_data s)"
  proof -
    have "chunk_ok (sb_off s) ?b" "sb_off s < lim64" using "1.prems" that by (simp_all add: snd_typed_def)
    then show ?thesis using rb_wf_ops(4) [OF chunk_ok_wf] by (auto simp: chunk_ok_def)
  qed
  show ?case
    by (subst emit_loop.simps, unfold Let_def, intro panic_flow) (auto simp only: prod.case "1.prems" min.cobounded1 intro: sub dest: full)
qed

lemma SendBuf_emit_typed:
  assumes "snd_typed s"
  shows "unless_panic (SendBuf_emit out s) (\<lambda>(r, out', s'). snd_typed s')"
proof -
  have upd: "snd_typed (s1\<lparr>sb_sent := k\<rparr>)" "snd_typed (s1\<lparr>sb_sent := k, sb_pos := 0\<rparr>)"
    if "emit_loop (length out) out s = Some (n, out1, s1)" "add64 (sb_sent s1) n = Some k" for n out1 s1 k
    using unless_panicD [OF emit_loop_typed [OF assms] that(1)] checked_fits(1) [OF that(2)] by (simp_all add: snd_typed_def)
  then show ?thesis
    unfolding SendBuf_emit_def Let_def by (intro panic_flow) (auto split: if_splits)
qed

lemma SendBuf_off_front_fits:
  assumes "snd_typed s" and "SendBuf_off_front s = Some k"
  shows "k < lim64"
proof -
  have "off_front_from bs d = Some k \<Longrightarrow> d < lim64 \<Longrightarrow> k < lim64" for bs d
    by (induction bs) (auto simp: RangeBuf_off_def Option.bind_eq_Some_conv panic_simps split: if_splits)
  with assms show ?thesis by (simp add: SendBuf_off_front_def snd_typed_def)
qed

lemma SendBuf_emit_off: "snd_typed s \<Longrightarrow> SendBuf_emit out s = Some (Ok (n, off, stop), out', s') \<Longrightarrow> off < lim64"
  by (auto simp: SendBuf_emit_def Let_def Option.bind_eq_Some_conv split: if_splits intro: SendBuf_off_front_fits)

section \<open>The connection\<close>

text \<open>
  The counters and offsets, and the entries of the lists and maps, are 64-bit numbers; the records of received packet
  numbers, which no call of a connection uses, are empty; budgets are priorities;
  \<open>ack_point\<close> is at most the length of \<open>sent_pkt\<close>, so that slicing from it does not panic.
\<close>

definition counters_typed :: "connection \<Rightarrow> bool" where
  "counters_typed c \<longleftrightarrow> recv_count c < lim64 \<and> sent_count c < lim64 \<and> written_data c < lim64 \<and> total_offset c < lim64 \<and>
     max_off c < lim64 \<and> send_num c < lim64 \<and> high_priority c < lim64 \<and> sent_number c < lim64 \<and>
     next_pkt_num (fst (pkt_num_spaces c)) < lim64 \<and> next_pkt_num (snd (pkt_num_spaces c)) < lim64 \<and>
     recv_pkt_num (fst (pkt_num_spaces c)) = PktNumWindow_default \<and> recv_pkt_num (snd (pkt_num_spaces c)) = PktNumWindow_default"

definition records_typed :: "connection \<Rightarrow> bool" where
  "records_typed c \<longleftrightarrow> ack_point c \<le> length (sent_pkt c) \<and> (\<forall>off \<in> set (sent_pkt c). off < lim64) \<and>
     (\<forall>(k, p) \<in> set (prioritydic c). k < lim64) \<and> (\<forall>n \<in> set (recv_pkt_sent_num c). n < lim64) \<and>
     (\<forall>(k, p) \<in> set (recv_dic c). k < lim64) \<and> (\<forall>(k, v) \<in> set (recv_hashmap c). k < lim64 \<and> v < lim64) \<and>
     (\<forall>(k, v) \<in> set (sent_dic c). k < lim64 \<and> v \<le> 3)"

definition conn_typed :: "connection \<Rightarrow> bool" where
  "conn_typed c \<longleftrightarrow> counters_typed c \<and> records_typed c \<and> rec_typed (recovery_of c) \<and>
     rcv_typed (rec_buffer c) \<and> snd_typed (send_buffer c)"

lemmas typed_defs = conn_typed_def counters_typed_def records_typed_def

text \<open>Fields without numbers do not matter.\<close>

lemma conn_typed_flags [simp]:
  "conn_typed (c\<lparr>rtt := x\<rparr>) = conn_typed c" "conn_typed (c\<lparr>handshake := x\<rparr>) = conn_typed c"
  "conn_typed (c\<lparr>handshake_completed := b\<rparr>) = conn_typed c" "conn_typed (c\<lparr>handshake_confirmed := b\<rparr>) = conn_typed c"
  "conn_typed (c\<lparr>feed_back := b\<rparr>) = conn_typed c" "conn_typed (c\<lparr>recv_flag := b\<rparr>) = conn_typed c"
  "conn_typed (c\<lparr>stop_flag := b\<rparr>) = conn_typed c" "conn_typed (c\<lparr>stop_ack := b\<rparr>) = conn_typed c"
  "conn_typed (c\<lparr>norm2_vec := ns\<rparr>) = conn_typed c" "conn_typed (c\<lparr>data_to_send := d\<rparr>) = conn_typed c"
  "conn_typed (c\<lparr>low_split_point := lo\<rparr>) = conn_typed c" "conn_typed (c\<lparr>high_split_point := hi\<rparr>) = conn_typed c"
  by (simp_all add: typed_defs)

lemma conn_typed_fields:
  "conn_typed c \<Longrightarrow> n < lim64 \<Longrightarrow> conn_typed (c\<lparr>recv_count := n\<rparr>)"
  "conn_typed c \<Longrightarrow> conn_typed (c\<lparr>sent_count := 0\<rparr>)"
  "conn_typed c \<Longrightarrow> n < lim64 \<Longrightarrow> conn_typed (c\<lparr>max_off := n\<rparr>)"
  "conn_typed c \<Longrightarrow> n < lim64 \<Longrightarrow> conn_typed (c\<lparr>send_num := n\<rparr>)"
  "conn_typed c \<Longrightarrow> n < lim64 \<Longrightarrow> conn_typed (c\<lparr>high_priority := n\<rparr>)"
  "conn_typed c \<Longrightarrow> rec_typed r \<Longrightarrow> conn_typed (c\<lparr>recovery_of := r\<rparr>)"
  "conn_typed c \<Longrightarrow> rcv_typed rb \<Longrightarrow> conn_typed (c\<lparr>rec_buffer := rb\<rparr>)"
  "conn_typed c \<Longrightarrow> snd_typed sb \<Longrightarrow> conn_typed (c\<lparr>send_buffer := sb\<rparr>)"
  "conn_typed c \<Longrightarrow> \<forall>(k, v) \<in> set m. k < lim64 \<and> v < lim64 \<Longrightarrow> conn_typed (c\<lparr>recv_hashmap := m\<rparr>)"
  by (simp_all add: typed_defs)

lemma conn_typed_parts:
  assumes "conn_typed c"
  shows "rec_typed (recovery_of c)" "rcv_typed (rec_buffer c)" "snd_typed (send_buffer c)" "recv_count c < lim64"
    "max_off c < lim64" "high_priority c < lim64"
  using assms by (simp_all add: typed_defs)

subsection \<open>Receiving\<close>

lemma process_ack_item_typed:
  assumes "conn_typed c"
  shows "unless_panic (process_ack_item k p (w, c)) (\<lambda>(w', c'). conn_typed c')"
proof -
  have "conn_typed (c\<lparr>send_buffer := fold ack_and_drop ks (send_buffer c), high_priority := h\<rparr>)" if "h < lim64" for ks h
    using assms that by (intro conn_typed_fields fold_ack_typed) (simp_all add: conn_typed_parts)
  then show ?thesis
    unfolding process_ack_item_cases using conn_typed_parts(6) [OF assms]
    by (intro panic_flow) (auto simp only: prod.case panic_simps option.inject split: if_splits)
qed

lemma process_ack_loop_typed:
  "conn_typed (snd st) \<Longrightarrow> unless_panic (process_ack_loop xs i st) (\<lambda>(w', c'). conn_typed c')"
proof (induction xs i st rule: process_ack_loop.induct)
  case (1 xs i st)
  have step: "conn_typed (snd st')" if "process_ack_item k p st = Some st'" for k p st'
    using unless_panicD [OF process_ack_item_typed [OF "1.prems", of k p "fst st"]] that by (cases st') simp
  show ?case
    by (subst process_ack_loop.simps, intro panic_flow) (use "1.IH" step "1.prems" in auto)
qed

lemma process_ack_typed:
  assumes "conn_typed c"
  shows "unless_panic (process_ack buf c) conn_typed"
proof -
  let ?c = "\<lambda>m. if unat m > max_off c then c\<lparr>max_off := unat m\<rparr> else c"
  have "conn_typed (?c m)" for m :: u64
    using assms by (simp add: conn_typed_fields)
  then have loop: "conn_typed c1" if "process_ack_loop xs 8 (w, ?c m) = Some (w1, c1)" for xs w w1 c1 and m :: u64
    using unless_panicD [OF process_ack_loop_typed [of "(w, ?c m)"] that] by simp
  have upd: "conn_typed (c1\<lparr>recovery_of := r\<rparr>)"
    if "process_ack_loop xs 8 (w, ?c m) = Some (w1, c1)" "update_win w1 n (recovery_of c1) = Some r" for xs w w1 c1 n r and m :: u64
    using loop [OF that(1)] unless_panicD [OF update_win_typed that(2)] by (simp add: conn_typed_fields conn_typed_parts)
  show ?thesis
    unfolding process_ack_def Let_def by (intro panic_flow) (auto simp only: intro: upd)
qed

lemma check_loss_typed:
  assumes "octets_spec oc" and "conn_typed c"
  shows "unless_panic (check_loss oc xs c) conn_typed"
proof -
  have "k < lim64 \<and> v < lim64" if "(k, v) \<in> set (fold (note_offset (recv_dic c)) ws (recv_hashmap c))" for k v ws
    using noted_entries [OF that] assms(2) by (auto simp: typed_defs)
  then show ?thesis
    unfolding octets_spec.check_loss_eq [OF assms(1)]
    using assms(2) by (intro panic_flow conn_typed_fields) auto
qed

lemma recv_handshake_typed: "conn_typed c \<Longrightarrow> unless_panic (recv_handshake now h c) conn_typed"
  unfolding recv_handshake_def update_rtt_def
  by (intro panic_flow) (auto simp: Option.bind_eq_Some_conv split: if_splits)

lemma recv_elict_ack_typed:
  assumes "octets_spec oc" and "conn_typed c"
  shows "unless_panic (recv_elict_ack oc buf c) conn_typed"
proof -
  have "conn_typed (c\<lparr>recv_flag := True, send_num := unat n\<rparr>)" for n :: u64
    using assms(2) by (simp add: conn_typed_fields)
  then show ?thesis
    unfolding recv_elict_ack_def
    by (intro panic_flow) (auto dest: unless_panicD [OF check_loss_typed [OF assms(1)]])
qed

lemma recv_application_typed:
  assumes "conn_typed c"
  shows "unless_panic (recv_application h buf c) (\<lambda>(n, c'). conn_typed c')"
proof -
  let ?off = "unat (hdr_offset h)"
  have dic: "\<forall>(k, p) \<in> set (hm_insert ?off (hdr_priority h) (recv_dic c)). k < lim64"
    using assms by (intro hm_insert_all) (simp_all add: typed_defs)
  have upd: "conn_typed (c\<lparr>recv_count := n, rec_buffer := rb, recv_dic := hm_insert ?off (hdr_priority h) (recv_dic c)\<rparr>)"
    if "add64 (recv_count c) 1 = Some n" "RecvBuf_write xs ?off (rec_buffer c) = Some (r, rb)" for n xs r rb
    using unless_panicD [OF RecvBuf_write_typed that(2)] checked_fits(1) [OF that(1)] assms dic by (simp add: typed_defs)
  show ?thesis
    unfolding recv_application_def by (intro panic_flow) (auto simp only: prod.case intro: upd)
qed

lemma recv_slice_typed:
  assumes oc: "octets_spec oc" and c: "conn_typed c"
  shows "unless_panic (recv_slice oc now buf c) (\<lambda>(r, c'). conn_typed c')"
proof -
  have "unless_panic (recv_dispatch oc now h buf c1) (\<lambda>(r, c'). conn_typed c')" if c1: "conn_typed c1" for h c1
    unfolding recv_dispatch_def
  proof (intro unless_panic_seq [where P = conn_typed] unless_panic_seq [where P = "\<lambda>(n, c'). conn_typed c'"])
    show "unless_panic (recv_handshake now h c1) conn_typed" using c1 by (rule recv_handshake_typed)
  next
    fix c2
    assume c2: "conn_typed c2"
    show "unless_panic (if hdr_ty h = ACK \<and> is_server c2 then process_ack buf c2 else Some c2) conn_typed"
      "unless_panic (if hdr_ty h = ElictAck then recv_elict_ack oc buf c2 else Some c2) conn_typed"
      by (intro panic_flow process_ack_typed recv_elict_ack_typed oc c2)+
    show "unless_panic (if hdr_ty h = Application then recv_application h buf c2 else Some (0, c2)) (\<lambda>(n, c'). conn_typed c')"
      using c2 by (intro panic_flow recv_application_typed) simp_all
  next
    fix x :: "usize \<times> connection"
    assume "case x of (n, c') \<Rightarrow> conn_typed c'"
    then show "unless_panic (case x of (read, c) \<Rightarrow> if hdr_ty h = Stop then Some (Err Stopped, c) else Some (Ok read, c))
        (\<lambda>(r, c'). conn_typed c')"
      by (intro panic_flow) simp_all
  qed
  moreover have "conn_typed (c\<lparr>recv_count := n\<rparr>)" if "add64 (recv_count c) 1 = Some n" for n
    using c checked_fits(1) [OF that] by (rule conn_typed_fields)
  ultimately show ?thesis
    unfolding recv_slice_def Let_def by (intro panic_flow; simp only: prod.case) (blast intro: c)+
qed

subsection \<open>Sending\<close>

lemma Connection_write_typed:
  assumes "conn_typed c"
  shows "unless_panic (Connection_write c) (\<lambda>(r, c'). conn_typed c')"
proof -
  let ?c = "c\<lparr>high_priority := 0, sent_number := 0\<rparr>"
  have c: "conn_typed ?c" using assms by (simp add: typed_defs)
  have win: "w < lim64 \<and> rec_typed r"
    if "(if b then Some (Recovery_rollback (recovery_of ?c)) else cwnd (recovery_of ?c)) = Some (w, r)" for b w r
    using that unless_panicD [OF cwnd_typed, of "recovery_of c" "(w, r)"] Recovery_rollback_typed [of "recovery_of c" w r]
      conn_typed_parts(1) [OF assms] by (simp split: if_splits)
  have "conn_typed (?c\<lparr>recovery_of := r, send_buffer := sb\<rparr>)"
    if "w < lim64 \<and> rec_typed r" "SendBuf_write dat w off_len k (send_buffer ?c) = Some (res, sb)" "off_len \<le> 1024"
    for w r dat off_len k res sb
    using unless_panicD [OF SendBuf_write_typed [OF conn_typed_parts(3) [OF c] _ that(3)] that(2)] that(1) c
    by (simp add: conn_typed_fields)
  note upd = this [OF win]
  show ?thesis
    unfolding Connection_write_def Let_def by (intro panic_flow) (auto simp only: prod.case intro!: upd split: if_split)
qed

lemma send_all_typed:
  assumes "conn_typed c"
  shows "unless_panic (send_all now c) (\<lambda>(r, c'). conn_typed c')"
proof -
  have upd: "conn_typed (c1\<lparr>written_data := w, total_offset := t\<rparr>)"
    if "conn_typed c0" "Connection_write c0 = Some (r, c1)" "add64 (written_data c1) n = Some w" "add64 (total_offset c1) n = Some t" for c0 r c1 n w t
    using unless_panicD [OF Connection_write_typed [OF that(1)] that(2)] checked_fits(1) [OF that(3)] checked_fits(1) [OF that(4)]
    by (simp add: typed_defs)
  have "unless_panic (send_all_write c0) (\<lambda>(r, c'). conn_typed c')" if "conn_typed c0" for c0
    unfolding send_all_write_def by (intro panic_flow) (auto simp only: prod.case intro: upd that)
  with assms show ?thesis
    unfolding send_all_def Let_def set_handshake_def by (intro panic_flow) simp_all
qed

lemma count_down_typed:
  assumes "\<forall>(k, v) \<in> set m. k < lim64 \<and> v \<le> 3" and "off < lim64" and "prio \<le> 3" and "count_down off prio m = Some m'"
  shows "\<forall>(k, v) \<in> set m'. k < lim64 \<and> v \<le> 3"
proof -
  have ins: "\<forall>(k, v) \<in> set (hm_insert off y m). k < lim64 \<and> v \<le> 3" if "y \<le> 3" for y
    using assms(1,2) that by (intro hm_insert_all) simp_all
  have "m' = hm_insert off prio m \<or> (\<exists>x. hm_get m off = Some x \<and> m' = hm_insert off (x - 1) m)"
    using assms(4) by (auto simp: count_down_def Option.bind_eq_Some_conv panic_simps split: option.splits)
  then show ?thesis
  proof (elim disjE exE conjE)
    fix x
    assume "hm_get m off = Some x" "m' = hm_insert off (x - 1) m"
    moreover from this(1) have "x \<le> 3" using assms(1) map_of_SomeD by fastforce
    ultimately show ?thesis using ins [of "x - 1"] by simp
  qed (use ins assms(3) in simp)
qed

lemma send_Application_typed:
  assumes "conn_typed c"
  shows "unless_panic (send_Application oc out c) (\<lambda>(r, out', c'). conn_typed c')"
proof -
  have sb: "snd_typed sb" if "SendBuf_emit xs (send_buffer c) = Some (r, body, sb)" for xs r body sb
    using unless_panicD [OF SendBuf_emit_typed [OF conn_typed_parts(3) [OF assms]] that] by simp
  have sd: "\<forall>(k, v) \<in> set m. k < lim64 \<and> v \<le> 3"
    if "SendBuf_emit xs (send_buffer c) = Some (Ok (n, off, stop), body, sb)" "priority_calculation off c1 = Some prio"
      "count_down off prio (sent_dic c) = Some m" for xs n off stop body sb c1 prio m
    using SendBuf_emit_off [OF conn_typed_parts(3) [OF assms] that(1)] prio_at_range [of c1 off] assms that(2)
    by (intro count_down_typed [OF _ _ _ that(3)]) (auto simp: typed_defs priority_calculation_eq split: if_splits)
  have out: "conn_typed (c\<lparr>send_buffer := sb, sent_count := sc, sent_number := sn,
      pkt_num_spaces := ((fst (pkt_num_spaces c))\<lparr>next_pkt_num := pn\<rparr>, snd (pkt_num_spaces c)), sent_dic := m\<rparr>)"
    "conn_typed (c\<lparr>send_buffer := sb, sent_count := sc, sent_number := sn,
      pkt_num_spaces := ((fst (pkt_num_spaces c))\<lparr>next_pkt_num := pn\<rparr>, snd (pkt_num_spaces c)), sent_dic := m,
      stop_flag := b, sent_pkt := sent_pkt c @ [unat w]\<rparr>)"
    if "SendBuf_emit xs (send_buffer c) = Some (Ok (n, off, stop), body, sb)" "add64 (sent_count c) 1 = Some sc"
      "add64 (sent_number c) 1 = Some sn" "priority_calculation off c1 = Some prio"
      "add64 (next_pkt_num (fst (pkt_num_spaces c))) 1 = Some pn" "count_down off prio (sent_dic c) = Some m"
    for xs n off stop body sb sc sn c1 prio pn m b and w :: u64
    using assms sb [OF that(1)] sd [OF that(1,4,6)] checked_fits(1) [OF that(2)] checked_fits(1) [OF that(3)]
      checked_fits(1) [OF that(5)]
    by (simp_all add: typed_defs)
  show ?thesis
    unfolding send_Application_def Let_def
    by (intro panic_flow) (auto simp del: One_nat_def intro: out conn_typed_fields(8) [OF assms] sb)
qed

lemma send_ElictAck_typed:
  assumes "conn_typed c"
  shows "unless_panic (send_ElictAck oc out c) (\<lambda>(r, out', c'). conn_typed c')"
    unfolding send_ElictAck_def Let_def
    using assms
  by (intro panic_flow) (auto simp: typed_defs dest: checked_fits(1))

lemma send_data_typed:
  assumes "conn_typed c"
  shows "unless_panic (Connection_send_data oc iter now out c) (\<lambda>(r, out', c'). conn_typed c')"
proof (cases "out = []")
  case True
  with assms show ?thesis unfolding Connection_send_data_def by (intro panic_flow) simp_all
next
  case False
  have "conn_typed c'" if "Connection_send_data oc iter now out c = Some (r, out', c')" for r out' c'
    using that False
  proof (cases rule: send_data_cases)
    case (hs c1 r0 c0)
    have "conn_typed c1" using hs(1) assms by auto
    then have "conn_typed c0" using send_handshake_frame [OF hs(2)] by auto
    with hs(3) show ?thesis by auto
  next
    case (el r0)
    then show ?thesis using unless_panicD [OF send_ElictAck_typed [OF conn_typed_fields(2) [OF assms]]] by blast
  next
    case (ack r0 c0)
    have "conn_typed c0" using send_ACK_frame [OF ack(1)] assms by (auto intro!: conn_typed_fields)
    with ack(2) show ?thesis by auto
  next
    case (app r0 c0)
    then show ?thesis using unless_panicD [OF send_Application_typed [OF assms] app(2)] by auto
  next
    case (stop r0)
    then show ?thesis using assms by (simp add: send_Stop_def Let_def split: prod.splits result.splits)
  qed (use assms in simp)
  then show ?thesis by (intro unless_panicI) auto
qed

section \<open>The interface of a connection\<close>

text \<open>
  Every public function of \<open>Connection\<close> that changes it, with any arguments, in any order: there is no
  assumption about the role, the peer or the packets.
\<close>

inductive api_step ::
  "'b octets \<Rightarrow> ((nat, nat) hash_map \<Rightarrow> (nat \<times> nat) list) \<Rightarrow> connection \<Rightarrow> connection \<Rightarrow> bool" for oc iter where
  api_recv: "recv_slice oc now buf c = Some (r, c') \<Longrightarrow> api_step oc iter c c'"
| api_send_all: "send_all now c = Some (r, c') \<Longrightarrow> api_step oc iter c c'"
| api_send_data: "Connection_send_data oc iter now out c = Some (r, out', c') \<Longrightarrow> api_step oc iter c c'"
| api_read: "Connection_read out c = Some (r, out', c') \<Longrightarrow> api_step oc iter c c'"
| api_write: "Connection_write c = Some (r, c') \<Longrightarrow> api_step oc iter c c'"
| api_check_loss: "check_loss oc buf c = Some c' \<Longrightarrow> api_step oc iter c c'"
| api_new_rtt: "new_rtt lst c = Some c' \<Longrightarrow> api_step oc iter c c'"
| api_set_handshake: "api_step oc iter c (set_handshake now c)"
| api_reset: "api_step oc iter c (Connection_reset c)"
| api_data_send: "data_send le str c = Some c' \<Longrightarrow> api_step oc iter c c'"
| api_process_string: "process_string le str (tmp, c) = Some (tmp', c') \<Longrightarrow> api_step oc iter c c'"

lemma process_string_typed: "process_string le str (tmp, c) = Some (tmp', c') \<Longrightarrow> conn_typed c' = conn_typed c"
  by (auto simp: process_string_def process_items_eq Option.bind_eq_Some_conv split: if_splits option.splits)

lemma data_send_typed:
  assumes "data_send le str c = Some c'"
  shows "conn_typed c' = conn_typed c"
proof -
  obtain vss where "numbers str = Some vss" "\<forall>vs \<in> set vss. length vs < 2 ^ 31" using data_send_numbers [OF assms] by blast
  from assms [unfolded data_send_eq [OF this]] show ?thesis by (auto simp: Option.bind_eq_Some_conv)
qed

lemma api_step_typed:
  assumes "octets_spec oc" and "api_step oc iter c c'" and "conn_typed c"
  shows "conn_typed c'"
  using assms(2,3)
proof (cases rule: api_step.cases)
  case (api_recv now buf r)
  then show ?thesis using unless_panicD [OF recv_slice_typed [OF assms(1,3)]] by fastforce
next
  case (api_send_all now r)
  then show ?thesis using unless_panicD [OF send_all_typed [OF assms(3)]] by fastforce
next
  case (api_send_data now out r out')
  then show ?thesis using unless_panicD [OF send_data_typed [OF assms(3)]] by fastforce
next
  case (api_read out r out')
  then obtain rb where rb: "RecvBuf_emit out (rec_buffer c) = Some (r, out', rb)" and c': "c' = c\<lparr>rec_buffer := rb\<rparr>"
    by (auto simp: Connection_read_def Option.bind_eq_Some_conv)
  show ?thesis
    unfolding c' using unless_panicD [OF RecvBuf_emit_typed [OF conn_typed_parts(2) [OF assms(3)]] rb] assms(3)
    by (simp add: conn_typed_fields)
next
  case (api_write r)
  then show ?thesis using unless_panicD [OF Connection_write_typed [OF assms(3)]] by fastforce
next
  case (api_check_loss buf)
  then show ?thesis using unless_panicD [OF check_loss_typed [OF assms(1,3)]] by blast
next
  case (api_new_rtt lst)
  then show ?thesis using assms(3) by (auto simp: new_rtt_def Option.bind_eq_Some_conv)
next
  case (api_set_handshake now)
  then show ?thesis using assms(3) by (simp add: set_handshake_def)
next
  case api_reset
  then show ?thesis
    using assms(3) by (auto simp: Connection_reset_def intro!: conn_typed_fields SendBuf_clear_typed conn_typed_parts)
next
  case (api_data_send le str)
  then show ?thesis using assms(3) by (simp add: data_send_typed)
next
  case (api_process_string le str tmp tmp')
  then show ?thesis using assms(3) by (simp add: process_string_typed)
qed

lemma Connection_new_typed:
  assumes "Connection_new loc peer cfg srv now = Some (Ok c)"
  shows "conn_typed c"
proof -
  obtain r where "Recovery_new cfg = Some r" and c: "c = (fresh_connection loc peer srv now)\<lparr>recovery_of := r\<rparr>"
    using assms by (auto simp: Connection_new_def fresh_connection_def Recovery_on_init_def NewCubic_on_init_def
        MIN_CLIENT_INITIAL_LEN_def Option.bind_eq_Some_conv)
  then have "rec_typed r" by (auto intro: unless_panicD [OF Recovery_new_typed])
  then show ?thesis
    unfolding c by (simp add: typed_defs SendBuf_new_typed rcv_typed_def RecvBuf_new_def PktNumSpace_new_def)
       (simp add: fresh_connection_def)
qed

text \<open>
  (C12) The numbers of a connection fit their types: whatever sequence of calls an application makes on a new connection,
  with whatever arguments and packets, as long as none of them panics every counter, offset, window, size
  and map entry of the connection, its buffers and its controller is below \<open>2^64\<close>, every budget is a priority, every
  buffered chunk ends within 64 bits, no chunk to send is longer than a block, and \<open>ack_point\<close>, from which the code slices
  the list of sent packets, is at most its length.  Nothing is said about \<open>pos\<close> of the send buffer but that it fits.
\<close>

theorem numbers_fit_their_types:
  assumes "octets_spec oc" and "Connection_new loc peer cfg srv now = Some (Ok c0)" and "(api_step oc iter)\<^sup>*\<^sup>* c0 c"
  shows "conn_typed c"
  using assms(3)
proof (induction rule: rtranclp_induct)
  case base
  show ?case using assms(2) by (rule Connection_new_typed)
next
  case (step c c')
  then show ?case using api_step_typed [OF assms(1)] by blast
qed

text \<open>A client that has received a chunk at the end of the range of offsets, and read.\<close>

theorem numbers_fit_their_types_witness:
  "\<exists>c. (api_step list_octets id)\<^sup>*\<^sup>* (fresh_connection (SocketAddrV4 0 2) (SocketAddrV4 0 1) False 0) c \<and>
     dom (hm_get (recv_dic c)) = {18446744073709551600} \<and> conn_typed c"
proof -
  let ?c = "fresh_connection (SocketAddrV4 0 2) (SocketAddrV4 0 1) False 0"
  define h where "h = \<lparr>hdr_ty = Application, hdr_pkt_num = 0, hdr_priority = 1, hdr_offset = 18446744073709551600, hdr_pkt_length = 3\<rparr>"
  define p where "p = encode_header h @ [1, 2, 3]"
  have p: "length p = 29" "decode_header p = h" "drop 26 p = [1, 2, 3]"
    by (simp_all add: p_def h_def decode_encode_header)
  have off: "unat (hdr_offset h) = 18446744073709551600" by (simp add: h_def)
  obtain rb where w: "RecvBuf_write [1, 2, 3] 18446744073709551600 (rec_buffer ?c) = Some (Ok (), rb)"
    using RecvBuf_write_spec [of 18446744073709551600 "[1, 2, 3]" "rec_buffer ?c"] by auto
  define c where "c = ?c\<lparr>recv_count := 2, rec_buffer := rb, recv_dic := hm_insert 18446744073709551600 1 []\<rparr>"
  have "recv_slice list_octets 0 p ?c = Some (Ok 3, c)"
    using p off w by (simp add: list_oc.recv_slice_eq dispatch_Application recv_application_eq h_def c_def)
  then have reach: "(api_step list_octets id)\<^sup>*\<^sup>* ?c c" by (intro r_into_rtranclp api_recv)
  define cfg where "cfg = \<lparr>cc_algorithm = NEWCUBIC, max_send_udp_payload_size = 1350, max_idle_timeout = 5000\<rparr>"
  have "Connection_new (SocketAddrV4 0 2) (SocketAddrV4 0 1) cfg False 0 = Some (Ok ?c)"
    by (simp add: Connection_new_eq cfg_def)
  from numbers_fit_their_types [OF list_oc.octets_spec_axioms this reach] reach
  have "(api_step list_octets id)\<^sup>*\<^sup>* ?c c \<and> dom (hm_get (recv_dic c)) = {18446744073709551600} \<and> conn_typed c"
    by (simp add: c_def hm_insert_def)
  then show ?thesis by (rule exI)
qed

end
