(* ===== verification/Ffi.thy ===== *)
theory Ffi
  imports Sending
begin

text \<open>
  \<open>src/ffi.rs\<close>: the C interface.  Raw pointers to a \<open>Config\<close> or a \<open>Connection\<close> are the values they point to; a
  null pointer that is returned is \<open>None\<close>.  A slice made of a pointer and a length is a list of bytes.  What
  \<open>CStr::to_str\<close> gives is an argument, \<open>None\<close> when the bytes are not UTF-8.
\<close>

section \<open>Addresses\<close>

text \<open>
  The socket address structures of the C library, without the padding; the family field says which of
  them a \<open>sockaddr\<close> is.  Their sizes and the byte order of the host are parameters.
\<close>

record sockaddr_in =
  s_addr :: "32 word"
  sin_port :: "16 word"

record sockaddr_in6 =
  sin6_addr :: bytes
  sin6_port :: "16 word"
  sin6_flowinfo :: "32 word"
  sin6_scope_id :: "32 word"

datatype sockaddr = AF_INET sockaddr_in | AF_INET6 sockaddr_in6 | AF_other nat

record abi =
  little_endian :: bool
  size_of_sockaddr_in :: nat
  size_of_sockaddr_in6 :: nat

text \<open>\<open>from_ne_bytes\<close>, and \<open>from_be\<close> and \<open>to_be\<close>, which swap the bytes on a little-endian host.\<close>

definition from_ne_bytes :: "abi \<Rightarrow> bytes \<Rightarrow> 'a::len word" where
  "from_ne_bytes m bs = word_rcat (if little_endian m then rev bs else bs)"

definition swap_bytes :: "nat \<Rightarrow> 'a::len word \<Rightarrow> 'a word" where
  "swap_bytes n w = word_rcat (rev (be_bytes n w))"

definition from_be :: "abi \<Rightarrow> nat \<Rightarrow> 'a::len word \<Rightarrow> 'a word" where
  "from_be m n w = (if little_endian m then swap_bytes n w else w)"

definition std_addr_from_c :: "abi \<Rightarrow> sockaddr \<Rightarrow> nat \<Rightarrow> socket_addr option" where
  "std_addr_from_c m addr addr_len =
     (case addr of
        AF_INET in4 \<Rightarrow>
          if addr_len = size_of_sockaddr_in m
          then Some (SocketAddrV4 (from_be m 4 (s_addr in4)) (from_be m 2 (sin_port in4)))
          else None
      | AF_INET6 in6 \<Rightarrow>
          if addr_len = size_of_sockaddr_in6 m
          then Some (SocketAddrV6 (word_rcat (sin6_addr in6)) (from_be m 2 (sin6_port in6))
                       (sin6_flowinfo in6) (sin6_scope_id in6))
          else None
      | AF_other _ \<Rightarrow> None)"

definition std_addr_to_c :: "abi \<Rightarrow> socket_addr \<Rightarrow> sockaddr \<times> nat" where
  "std_addr_to_c m addr =
     (case addr of
        SocketAddrV4 ip port \<Rightarrow>
          (AF_INET \<lparr>s_addr = from_ne_bytes m (be_bytes 4 ip), sin_port = from_be m 2 port\<rparr>,
           size_of_sockaddr_in m)
      | SocketAddrV6 ip port flowinfo scope_id \<Rightarrow>
          (AF_INET6 \<lparr>sin6_addr = be_bytes 16 ip, sin6_port = from_be m 2 port,
                     sin6_flowinfo = flowinfo, sin6_scope_id = scope_id\<rparr>,
           size_of_sockaddr_in6 m))"

section \<open>Configurations and connections\<close>

definition quiche_config_new :: "config option" where
  "quiche_config_new = (case Config_new of Ok c \<Rightarrow> Some c | Err _ \<Rightarrow> None)"

definition quiche_config_set_cc_algorithm_name :: "string option \<Rightarrow> config \<Rightarrow> (int \<times> config) option" where
  "quiche_config_set_cc_algorithm_name to_str c = do {
     name \<leftarrow> to_str;
     Some (case set_cc_algorithm_name name c of
             (Ok _, c) \<Rightarrow> (0, c)
           | (Err e, c) \<Rightarrow> (to_c e, c))
   }"

definition quiche_config_set_cc_algorithm :: "cc_algorithm \<Rightarrow> config \<Rightarrow> config" where
  "quiche_config_set_cc_algorithm algo c = set_cc_algorithm algo c"

definition quiche_accept ::
  "abi \<Rightarrow> sockaddr \<Rightarrow> nat \<Rightarrow> sockaddr \<Rightarrow> nat \<Rightarrow> config \<Rightarrow> instant \<Rightarrow> connection option option" where
  "quiche_accept m loc local_len peer peer_len cfg now = do {
     l \<leftarrow> std_addr_from_c m loc local_len;
     p \<leftarrow> std_addr_from_c m peer peer_len;
     r \<leftarrow> accept l p cfg now;
     Some (case r of Ok c \<Rightarrow> Some c | Err _ \<Rightarrow> None)
   }"

definition quiche_connect ::
  "abi \<Rightarrow> sockaddr \<Rightarrow> nat \<Rightarrow> sockaddr \<Rightarrow> nat \<Rightarrow> config \<Rightarrow> instant \<Rightarrow> connection option option" where
  "quiche_connect m loc local_len peer peer_len cfg now = do {
     l \<leftarrow> std_addr_from_c m loc local_len;
     p \<leftarrow> std_addr_from_c m peer peer_len;
     r \<leftarrow> connect l p cfg now;
     Some (case r of Ok c \<Rightarrow> Some c | Err _ \<Rightarrow> None)
   }"

text \<open>\<open>v as ssize_t\<close> reinterprets the 64 bits as a signed number.\<close>

definition as_ssize :: "nat \<Rightarrow> int" where
  "as_ssize n = sint (of_nat n :: 64 word)"

definition quiche_conn_send_all :: "instant \<Rightarrow> connection \<Rightarrow> (int \<times> connection) option" where
  "quiche_conn_send_all now conn = do {
     (r, conn) \<leftarrow> send_all now conn;
     Some (case r of Ok v \<Rightarrow> (if v then 1 else 0) | Err e \<Rightarrow> to_c e, conn)
   }"

definition recv_info_from :: "abi \<Rightarrow> sockaddr \<Rightarrow> nat \<Rightarrow> sockaddr \<Rightarrow> nat \<Rightarrow> recv_info option" where
  "recv_info_from m info_from from_len info_to to_len = do {
     f \<leftarrow> std_addr_from_c m info_from from_len;
     t \<leftarrow> std_addr_from_c m info_to to_len;
     Some \<lparr>recv_from = f, recv_to = t\<rparr>
   }"

definition quiche_conn_recv :: "'b octets \<Rightarrow> instant \<Rightarrow> bytes \<Rightarrow> connection \<Rightarrow> (int \<times> connection) option" where
  "quiche_conn_recv oc now buf conn =
     (if length buf > 2 ^ 63 - 1 then None
      else do {
        (r, conn) \<leftarrow> recv_slice oc now buf conn;
        Some (case r of Ok v \<Rightarrow> as_ssize v | Err e \<Rightarrow> to_c e, conn)
      })"

definition quiche_conn_is_closed :: "connection \<Rightarrow> bool" where
  "quiche_conn_is_closed conn = is_closed conn"

definition quiche_conn_is_timed_out :: "connection \<Rightarrow> bool" where
  "quiche_conn_is_timed_out conn = is_timed_out conn"

section \<open>Addresses survive the interface\<close>

lemma from_be_involutive: "LENGTH('a) = 8 * n \<Longrightarrow> from_be m n (from_be m n w) = (w :: 'a::len word)"
  by (simp add: from_be_def swap_bytes_def be_bytes_rcat rcat_be_bytes)

lemma from_be_ne_bytes: "LENGTH('a) = 8 * n \<Longrightarrow> from_be m n (from_ne_bytes m (be_bytes n w)) = (w :: 'a::len word)"
  by (simp add: from_be_def from_ne_bytes_def swap_bytes_def be_bytes_rcat rcat_be_bytes)

text \<open>
  (C33) An address handed to C and taken back is the same address, with its port, flow information and scope,
  on little-endian and big-endian hosts.
\<close>

theorem addr_roundtrip: "std_addr_from_c m (fst (std_addr_to_c m a)) (snd (std_addr_to_c m a)) = Some a"
  by (cases a) (simp_all add: std_addr_to_c_def std_addr_from_c_def from_be_involutive from_be_ne_bytes rcat_be_bytes)


section \<open>What C sees of a received packet\<close>

lemma as_ssize_u64: "as_ssize (unat (w :: u64)) = sint w"
  by (simp add: as_ssize_def)

lemma sint_negative: "sint (w :: u64) < 0 \<longleftrightarrow> 2 ^ 63 \<le> unat w"
proof -
  have "sint w < 0 \<longleftrightarrow> bit w 63" using bit_last_iff [of w] by simp
  also have "\<dots> \<longleftrightarrow> bit (unat w) 63" by (simp add: bit_unsigned_iff)
  also have "\<dots> \<longleftrightarrow> odd (unat w div 2 ^ 63)" by (simp only: bit_iff_odd)
  also have "\<dots> \<longleftrightarrow> 2 ^ 63 \<le> unat w"
  proof (cases "2 ^ 63 \<le> unat w")
    case True
    have "unat w div 2 ^ 63 = 1"
      using True unat_u64_less [of w] by (intro div_nat_eqI) simp_all
    with True show ?thesis by simp
  next
    case False
    then have "unat w div 2 ^ 63 = 0" by (intro div_less) simp
    with False show ?thesis by simp
  qed
  finally show ?thesis .
qed

text \<open>
  (C40) \<open>quiche_conn_recv\<close> on an \<open>Application\<close> packet returns what the length field of the packet says, not what
  was received, and reads it as a signed number.  The payload is stored in any case; but when the field is
  \<open>2^63\<close> or more the caller gets a negative number, an error code, and for \<open>2^64 - 1\<close> that of \<open>Done\<close>.
\<close>

theorem recv_length_reads_as_error:
  assumes "octets_spec oc" and "recv_count c + 2 < lim64" and "26 \<le> length buf" and "length buf < 2 ^ 63"
    and "hdr_ty (decode_header buf) = Application"
    and "unat (hdr_offset (decode_header buf)) + (length buf - 26) < lim64"
    and "v = sint (hdr_pkt_length (decode_header buf))"
  shows "\<exists>c'. quiche_conn_recv oc now buf c = Some (v, c') \<and>
     unat (hdr_offset (decode_header buf)) \<in> dom (hm_get (recv_dic c')) \<and>
     (v < 0 \<longleftrightarrow> 2 ^ 63 \<le> unat (hdr_pkt_length (decode_header buf))) \<and>
     (hdr_pkt_length (decode_header buf) = - 1 \<longrightarrow> v = to_c Done)"
proof -
  let ?h = "decode_header buf"
  let ?off = "unat (hdr_offset ?h)"
  obtain m where w: "RecvBuf_write (drop 26 buf) ?off (rec_buffer c) = Some (Ok (), (rec_buffer c)\<lparr>max_recv_off := m,
      rv_data := bt_insert (?off + length (drop 26 buf)) (RangeBuf_from (drop 26 buf) ?off) (rv_data (rec_buffer c))\<rparr>)"
    using RecvBuf_write_spec [of ?off "drop 26 buf" "rec_buffer c"] assms(6) by auto
  let ?c' = "c\<lparr>recv_count := recv_count c + 2, rec_buffer := (rec_buffer c)\<lparr>max_recv_off := m,
      rv_data := bt_insert (?off + length (drop 26 buf)) (RangeBuf_from (drop 26 buf) ?off) (rv_data (rec_buffer c))\<rparr>,
      recv_dic := hm_insert ?off (hdr_priority ?h) (recv_dic c)\<rparr>"
  have "recv_slice oc now buf c = Some (Ok (unat (hdr_pkt_length ?h)), ?c')"
    using octets_spec.recv_slice_eq [OF assms(1,3), of c now] assms(2,3,5) w
    by (simp add: dispatch_Application recv_application_eq)
  then have "quiche_conn_recv oc now buf c = Some (v, ?c')"
    using assms(4,7) by (simp add: quiche_conn_recv_def as_ssize_u64)
  moreover have "?off \<in> dom (hm_get (recv_dic ?c'))" by (simp add: hm_insert_def update_conv')
  moreover have "v < 0 \<longleftrightarrow> 2 ^ 63 \<le> unat (hdr_pkt_length ?h)" using sint_negative assms(7) by simp
  moreover have "hdr_pkt_length ?h = - 1 \<longrightarrow> v = to_c Done" using assms(7) by simp
  ultimately show ?thesis by (intro exI [of _ ?c']) blast
qed

theorem recv_length_reads_as_error_witness:
  "\<exists>c'. quiche_conn_recv list_octets 0 (encode_header \<lparr>hdr_ty = Application, hdr_pkt_num = 0, hdr_priority = 1,
        hdr_offset = 0, hdr_pkt_length = - 1\<rparr> @ [7, 8])
       (fresh_connection (SocketAddrV4 0 1) (SocketAddrV4 0 2) False 0) = Some (- 1, c')"
proof -
  let ?h = "\<lparr>hdr_ty = Application, hdr_pkt_num = 0, hdr_priority = 1, hdr_offset = 0, hdr_pkt_length = - 1\<rparr>"
  let ?b = "encode_header ?h @ [7, 8]"
  let ?c = "fresh_connection (SocketAddrV4 0 1) (SocketAddrV4 0 2) False 0"
  have "decode_header ?b = ?h" by (simp add: decode_encode_header)
  then show ?thesis
    using recv_length_reads_as_error [OF list_oc.octets_spec_axioms, of ?c ?b "- 1" 0] by auto
qed

text \<open>
  The only errors C can get from \<open>quiche_conn_recv\<close> are \<open>-2\<close>, for a datagram that is too short for a header,
  and \<open>-19\<close>, for a \<open>Stop\<close> packet; every other datagram that does not make it panic is accepted, packets of
  unknown type included.
\<close>

lemma recv_error_codes:
  assumes "octets_spec oc" and "length buf < 2 ^ 63" and "recv_slice oc now buf c = Some (r, c')"
  shows "(length buf < 26 \<longrightarrow> r = Err BufferTooShort \<and> quiche_conn_recv oc now buf c = Some (- 2, c')) \<and>
     (26 \<le> length buf \<and> hdr_ty (decode_header buf) = Stop \<longrightarrow>
        r = Err Stopped \<and> quiche_conn_recv oc now buf c = Some (- 19, c')) \<and>
     (26 \<le> length buf \<and> hdr_ty (decode_header buf) \<noteq> Stop \<longrightarrow> (\<exists>v. r = Ok v))"
proof (cases "26 \<le> length buf")
  case False
  then have len: "length buf < 26" by simp
  have "buf = [] \<or> recv_count c + 1 < lim64"
    using assms(3) by (cases "recv_count c + 1 < lim64") (auto simp: recv_slice_def split: if_splits)
  then have "r = Err BufferTooShort"
    using octets_spec.recv_slice_short [OF assms(1) len] assms(3) by (auto simp: recv_slice_def)
  with len assms(2,3) show ?thesis by (simp add: quiche_conn_recv_def)
next
  case True
  let ?c = "c\<lparr>recv_count := recv_count c + 1\<rparr>" and ?h = "decode_header buf"
  have eq: "recv_dispatch oc now ?h buf ?c = Some (r, c')"
    using recv_slice_Some [OF assms(1,3)] True by simp
  consider "hdr_ty ?h = Application" | "hdr_ty ?h = ElictAck" | "hdr_ty ?h = ACK" | "hdr_ty ?h = Handshake"
    | "hdr_ty ?h \<notin> {Application, ElictAck, ACK, Handshake}" by blast
  then have "if hdr_ty ?h = Stop then r = Err Stopped else \<exists>v. r = Ok v"
    using eq by cases (auto simp: dispatch_Application dispatch_ElictAck dispatch_ACK dispatch_Handshake dispatch_other
        split: if_splits)
  with True assms(2,3) show ?thesis by (auto simp: quiche_conn_recv_def)
qed

end
