(* ===== verification/Recovery_V1.thy ===== *)
theory Recovery_V1
  imports Recovery
begin

text \<open>
  \<open>src/recovery/modv1.rs\<close>: the earlier version of the congestion controller, kept beside the one in
  use.  It has its own curve, which depends on the number of packets reported, and remembers one
  window to roll back to, that of the last round without loss.  The constants, \<open>RecoveryConfig\<close>,
  \<open>CongestionControlAlgorithm\<close> and the table of \<open>NewCubic.rs\<close> are the same text in both versions.
\<close>

section \<open>State\<close>

record recovery_v1 = recovery_core +
  former_win :: usize

definition new_with_config_v1 :: "recovery_config \<Rightarrow> recovery_v1 option" where
  "new_with_config_v1 rc = do {
     initial_congestion_window \<leftarrow> mul64 (rc_max_send_udp_payload_size rc) INITIAL_WINDOW_PACKETS;
     Some \<lparr>loss_detection_timer = None, cubic_state_of = State_default, latest_rtt = 0,
           smoothed_rtt = None, rttvar = INITIAL_RTT div 2, min_rtt = 0,
           loss_time = [None, None, None], lost_count = 0, loss_probes = [0, 0, 0],
           in_flight_count = [0, 0, 0], app_limited = False, cc_ops = rc_cc_ops rc,
           congestion_window = initial_congestion_window, bytes_in_flight = 0,
           max_datagram_size = PACKET_SIZE, rec_k = rnd64 (12 / 10), incre_win = 0, decre_win = 0,
           former_win = INI_WIN\<rparr>
   }"

definition RecoveryConfig_from_config_v1 :: "config \<Rightarrow> recovery_config" where
  "RecoveryConfig_from_config_v1 c =
     \<lparr>rc_max_send_udp_payload_size = max_send_udp_payload_size c,
      rc_max_ack_delay = 0, rc_cc_ops = cc_algorithm c\<rparr>"

definition Recovery_new_v1 :: "config \<Rightarrow> recovery_v1 option" where
  "Recovery_new_v1 c = new_with_config_v1 (RecoveryConfig_from_config_v1 c)"

section \<open>Operations\<close>

definition on_init_v1 :: "recovery_v1 \<Rightarrow> recovery_v1" where
  "on_init_v1 r = op_on_init (table_of (cc_ops r)) r"

definition reset_v1 :: "recovery_v1 \<Rightarrow> recovery_v1 option" where
  "reset_v1 r = do {
     w \<leftarrow> mul64 (max_datagram_size r) INITIAL_WINDOW_PACKETS;
     let r = r\<lparr>congestion_window := w, in_flight_count := [0, 0, 0]\<rparr>;
     Some (op_reset (table_of (cc_ops r)) r)
   }"

text \<open>
  The curve: \<open>-num * (weights - x)^3 / x^3\<close> packets, where \<open>x = k * num / 8\<close>.
\<close>

definition break_even :: "fl \<Rightarrow> fl \<Rightarrow> fl" where
  "break_even k num = fl_div rnd64 (fl_mul rnd64 k num) (Fin 8)"

definition winadd_v1 :: "fl \<Rightarrow> usize \<Rightarrow> fl \<Rightarrow> fl \<Rightarrow> fl" where
  "winadd_v1 k mds weights num =
     fl_mul rnd64
       (fl_div rnd64
          (fl_mul rnd64 (fl_neg num) (f64_powi (fl_sub rnd64 weights (break_even k num)) 3))
          (f64_powi (break_even k num) 3))
       (f64_of_nat mds)"

definition update_win_v1 :: "fl \<Rightarrow> fl \<Rightarrow> recovery_v1 \<Rightarrow> recovery_v1 option" where
  "update_win_v1 weights num r =
     (let winadd = winadd_v1 (rec_k r) (max_datagram_size r) weights num
      in if fl_lt (Fin 0) winadd
         then do { n \<leftarrow> add64 (incre_win r) (fl_to_usize winadd); Some (r\<lparr>incre_win := n\<rparr>) }
         else do { n \<leftarrow> add64 (decre_win r) (fl_to_usize (fl_neg winadd)); Some (r\<lparr>decre_win := n\<rparr>) })"

definition should_elicit_ack_v1 :: "usize \<Rightarrow> bool" where
  "should_elicit_ack_v1 pkt_num \<longleftrightarrow> pkt_num mod ELICT_ACK_CONSTANT = 0"

definition cwnd_v1 :: "recovery_v1 \<Rightarrow> (usize \<times> recovery_v1) option" where
  "cwnd_v1 r = do {
     d \<leftarrow> mul64 2 (incre_win r);
     let tmp_win = (if d > decre_win r then d - decre_win r else 0);
     let r = r\<lparr>congestion_window := tmp_win\<rparr>;
     let r = (if decre_win r = 0 then r\<lparr>former_win := tmp_win\<rparr> else r);
     let r = r\<lparr>incre_win := 0, decre_win := 0\<rparr>;
     if congestion_window r \<ge> PACKET_SIZE * INITIAL_WINDOW_PACKETS
     then Some (congestion_window r, r)
     else Some (PACKET_SIZE * INITIAL_WINDOW_PACKETS,
                r\<lparr>congestion_window := PACKET_SIZE * INITIAL_WINDOW_PACKETS\<rparr>)
   }"

definition cwnd_available_v1 :: "recovery_v1 \<Rightarrow> usize" where
  "cwnd_available_v1 r = congestion_window r - bytes_in_flight r"

definition collapse_cwnd_v1 :: "recovery_v1 \<Rightarrow> recovery_v1 option" where
  "collapse_cwnd_v1 r = op_collapse_cwnd (table_of (cc_ops r)) r"

definition update_app_limited_v1 :: "bool \<Rightarrow> recovery_v1 \<Rightarrow> recovery_v1" where
  "update_app_limited_v1 v r = r\<lparr>app_limited := v\<rparr>"

definition app_limited_v1 :: "recovery_v1 \<Rightarrow> bool" where
  "app_limited_v1 r = app_limited r"

definition loss_detection_timer_v1 :: "recovery_v1 \<Rightarrow> instant option" where
  "loss_detection_timer_v1 r = loss_detection_timer r"

definition rollback_v1 :: "recovery_v1 \<Rightarrow> usize \<times> recovery_v1" where
  "rollback_v1 r = (former_win r, r\<lparr>congestion_window := former_win r\<rparr>)"

definition cc_from_str_v1 :: "string \<Rightarrow> cc_algorithm result" where
  "cc_from_str_v1 name = (if name = ''newcubic'' then Ok NEWCUBIC else Err CongestionControl)"

section \<open>The contract\<close>

lemma update_win_v1_counters:
  "update_win_v1 w n r =
     (let x = winadd_v1 (rec_k r) (max_datagram_size r) w n
      in if fl_lt (Fin 0) x
         then map_option (\<lambda>k. r\<lparr>incre_win := k\<rparr>) (add64 (incre_win r) (gained x))
         else map_option (\<lambda>k. r\<lparr>decre_win := k\<rparr>) (add64 (decre_win r) (forfeited x)))"
  by (simp add: update_win_v1_def Let_def gained_def forfeited_def map_conv_bind_option o_def)

lemma cwnd_v1_eq_Some:
  "cwnd_v1 r = Some (w, r') \<longleftrightarrow>
   2 * incre_win r < lim64 \<and> w = max 9600 (2 * incre_win r - decre_win r) \<and>
   r' = r\<lparr>congestion_window := w, incre_win := 0, decre_win := 0,
          former_win := (if decre_win r = 0 then 2 * incre_win r else former_win r)\<rparr>"
proof (cases "2 * incre_win r < lim64")
  case True
  then show ?thesis by (cases r) (auto simp: cwnd_v1_def Let_def win_consts)
qed (auto simp: cwnd_v1_def)

lemma cwnd_v1_None: "cwnd_v1 r = None \<longleftrightarrow> lim64 \<le> 2 * incre_win r"
  by (cases "2 * incre_win r < lim64") (auto simp: cwnd_v1_def Let_def)

interpretation rw1: window_controller "\<lambda>r. winadd_v1 (rec_k r) (max_datagram_size r)" update_win_v1 cwnd_v1
  incre_win decre_win congestion_window
proof (unfold_locales, goal_cases)
  case (1 w n s s')
  then show ?case
    by (auto simp: update_win_v1_counters Let_def add64_eq_Some gained_def forfeited_def split: if_splits)
next
  case (2 s w n)
  then show ?case
    by (auto simp: update_win_v1_counters Let_def add64_eq_None gained_def forfeited_def)
next
  case (3 s x s')
  then show ?case by (auto simp: cwnd_v1_eq_Some)
qed (rule cwnd_v1_None)

section \<open>The curve\<close>

lemma winadd_v1_sign:
  assumes "notneg k" and "notneg n"
  shows "fl_lt w (break_even k n) \<Longrightarrow> notneg (winadd_v1 k m w n)"
    "\<not> fl_lt w (break_even k n) \<Longrightarrow> notpos (winadd_v1 k m w n)"
proof -
  let ?x = "break_even k n"
  have x: "notneg (f64_powi ?x 3)"
    using assms by (intro cube_sign) (simp add: break_even_def div_sign mul_sign)
  have n: "notpos (fl_neg n)" using assms(2) by (rule neg_sign)
  have m: "notneg (f64_of_nat m)" by (simp add: f64_of_nat_def rnd64_sign)
  show "notneg (winadd_v1 k m w n)" if "fl_lt w ?x"
    unfolding winadd_v1_def by (intro mul_sign(1) div_sign(1) mul_sign(2) n cube_sign sub_sign that x m)
  show "notpos (winadd_v1 k m w n)" if "\<not> fl_lt w ?x"
    unfolding winadd_v1_def by (intro mul_sign(4) div_sign(2) mul_sign(4) n cube_sign sub_sign that x m)
qed

section \<open>Rounds without loss\<close>

text \<open>The curve at weight 0, for the one to eight packets an \<open>ElictAck\<close> can list.\<close>

definition k_v1 :: fl where
  "k_v1 = Fin (5404319552844595 / 4503599627370496)"

lemma k_v1: "rnd64 (12 / 10) = k_v1" "rnd64 (6 / 5) = k_v1"
  unfolding k_v1_def by code_simp+

lemma winadd_v1_clean_1: "winadd_v1 k_v1 1200 (Fin 0) (Fin 1) = Fin 1200"
  unfolding winadd_v1_def f64_of_nat_1200 k_v1_def by code_simp

lemma winadd_v1_clean_2: "winadd_v1 k_v1 1200 (Fin 0) (Fin 2) = Fin 2400"
  unfolding winadd_v1_def f64_of_nat_1200 k_v1_def by code_simp

lemma winadd_v1_clean_3: "winadd_v1 k_v1 1200 (Fin 0) (Fin 3) = Fin 3600"
  unfolding winadd_v1_def f64_of_nat_1200 k_v1_def by code_simp

lemma winadd_v1_clean_4: "winadd_v1 k_v1 1200 (Fin 0) (Fin 4) = Fin 4800"
  unfolding winadd_v1_def f64_of_nat_1200 k_v1_def by code_simp

lemma winadd_v1_clean_5: "winadd_v1 k_v1 1200 (Fin 0) (Fin 5) = Fin 6000"
  unfolding winadd_v1_def f64_of_nat_1200 k_v1_def by code_simp

lemma winadd_v1_clean_6: "winadd_v1 k_v1 1200 (Fin 0) (Fin 6) = Fin 7200"
  unfolding winadd_v1_def f64_of_nat_1200 k_v1_def by code_simp

lemma winadd_v1_clean_7: "winadd_v1 k_v1 1200 (Fin 0) (Fin 7) = Fin (4617948836659201 / 549755813888)"
  unfolding winadd_v1_def f64_of_nat_1200 k_v1_def by code_simp

lemma winadd_v1_clean_8: "winadd_v1 k_v1 1200 (Fin 0) (Fin 8) = Fin 9600"
  unfolding winadd_v1_def f64_of_nat_1200 k_v1_def by code_simp

lemmas winadd_v1_clean = winadd_v1_clean_1 winadd_v1_clean_2 winadd_v1_clean_3 winadd_v1_clean_4
  winadd_v1_clean_5 winadd_v1_clean_6 winadd_v1_clean_7 winadd_v1_clean_8

lemma floor_8400: "\<lfloor>4617948836659201 / 549755813888 :: rat\<rfloor> = 8400"
  by (simp add: floor_eq_iff)

lemma clean_report_v1:
  assumes "1 \<le> n" and "n \<le> 8"
  shows "gained (winadd_v1 k_v1 1200 (Fin 0) (Fin (of_nat n))) = 1200 * n"
    "forfeited (winadd_v1 k_v1 1200 (Fin 0) (Fin (of_nat n))) = 0"
proof -
  have "n \<in> {1, 2, 3, 4, 5, 6, 7, 8}" using assms by auto
  then show "gained (winadd_v1 k_v1 1200 (Fin 0) (Fin (of_nat n))) = 1200 * n"
    "forfeited (winadd_v1 k_v1 1200 (Fin 0) (Fin (of_nat n))) = 0"
    by (auto simp: winadd_v1_clean gained_def forfeited_def floor_8400)
qed

text \<open>Both controllers after opening.\<close>

lemma fresh_v1:
  assumes "Recovery_new_v1 c = Some r"
  shows "rec_k r = k_v1" "max_datagram_size r = 1200" "incre_win r = 0" "decre_win r = 0" "former_win r = 9600"
  using assms
  by (auto simp: Recovery_new_v1_def new_with_config_v1_def k_v1 win_consts Option.bind_eq_Some_conv)

lemma fresh_mod:
  assumes "Recovery_new c = Some r"
  shows "max_datagram_size r = 1200" "incre_win r = 0" "decre_win r = 0"
  using assms by (auto simp: Recovery_new_def new_with_config_def win_consts Option.bind_eq_Some_conv)

definition clean_reports :: "nat list \<Rightarrow> (fl \<times> fl) list" where
  "clean_reports ns = map (\<lambda>n. (Fin 0, Fin (of_nat n))) ns"

lemma worth_clean_reports:
  "worth f v (clean_reports ns) = (\<Sum>n \<leftarrow> ns. f (v (Fin 0) (Fin (of_nat n))))"
  by (simp add: worth_def clean_reports_def o_def)

lemma sum_list_eights:
  assumes "\<forall>n \<in> set ns. n \<le> 8"
  shows "sum_list ns \<le> 8 * length ns \<and> (sum_list ns = 8 * length ns \<longleftrightarrow> (\<forall>n \<in> set ns. n = 8))"
  using assms by (induction ns) auto

lemma clean_window_v1:
  assumes "Recovery_new_v1 c = Some r" and "\<forall>n \<in> set ns. 1 \<le> n \<and> n \<le> 8" and "19200 * length ns < lim64"
  shows "map_option fst (Option.bind (reports update_win_v1 (clean_reports ns) r) cwnd_v1) = Some (max 9600 (2400 * sum_list ns))"
proof -
  note f = fresh_v1 [OF assms(1)]
  let ?v = "winadd_v1 (rec_k r) (max_datagram_size r)"
  have "worth gained ?v (clean_reports ns) = 1200 * sum_list ns" "worth forfeited ?v (clean_reports ns) = 0"
    using assms(2) unfolding f worth_clean_reports by (induction ns) (simp_all add: clean_report_v1)
  moreover have "2400 * sum_list ns < lim64"
    using sum_list_eights [of ns] assms(2,3) by simp
  ultimately show ?thesis
    using rw1.window_after_reports [of r "clean_reports ns"] f by simp
qed

lemma clean_window_mod:
  assumes "Recovery_new c = Some r" and "19200 * length ns < lim64"
  shows "map_option fst (Option.bind (reports update_win (clean_reports ns) r) cwnd) = Some (max 9600 (19200 * length ns))"
proof -
  note f = fresh_mod [OF assms(1)]
  let ?v = "\<lambda>w n. winadd_of w (max_datagram_size r)"
  have "worth gained ?v (clean_reports ns) = 9600 * length ns" "worth forfeited ?v (clean_reports ns) = 0"
    unfolding f worth_clean_reports by (simp_all add: winadd_no_loss gained_def forfeited_def sum_list_triv)
  then show ?thesis
    using rw.window_after_reports [of r "clean_reports ns"] f assms(2) by simp
qed

text \<open>
  (C30) The two versions of the controller on acknowledgements without loss, each for one to eight packets, from
  a new connection on: the earlier one opens two packets of window for each packet reported, the one
  in use sixteen for each report.  They agree exactly when every report covers eight packets.
\<close>

theorem controllers_without_loss:
  assumes "Recovery_new_v1 c = Some r1" and "Recovery_new c = Some r"
    and "\<forall>n \<in> set ns. 1 \<le> n \<and> n \<le> 8" and "19200 * length ns < lim64"
  shows "map_option fst (Option.bind (reports update_win_v1 (clean_reports ns) r1) cwnd_v1) = Some (max 9600 (2400 * sum_list ns)) \<and>
     map_option fst (Option.bind (reports update_win (clean_reports ns) r) cwnd) = Some (max 9600 (19200 * length ns)) \<and>
     (map_option fst (Option.bind (reports update_win_v1 (clean_reports ns) r1) cwnd_v1) =
        map_option fst (Option.bind (reports update_win (clean_reports ns) r) cwnd) \<longleftrightarrow> (\<forall>n \<in> set ns. n = 8))"
proof -
  have "max 9600 (2400 * sum_list ns) = max 9600 (19200 * length ns) \<longleftrightarrow> (\<forall>n \<in> set ns. n = 8)"
  proof (cases "ns = []")
    case False
    then have "1 \<le> length ns" by (cases ns) simp_all
    then have "max 9600 (2400 * sum_list ns) = max 9600 (19200 * length ns) \<longleftrightarrow> sum_list ns = 8 * length ns" by auto
    with sum_list_eights [of ns] assms(3) show ?thesis by simp
  qed simp
  then show ?thesis
    unfolding clean_window_v1 [OF assms(1,3,4)] clean_window_mod [OF assms(2,4)] by simp
qed

lemma both_open:
  obtains c r1 r where "Config_new = Ok c" "Recovery_new_v1 c = Some r1" "Recovery_new c = Some r"
proof -
  obtain c where c: "Config_new = Ok c" by (simp add: Config_new_def)
  then have m: "max_send_udp_payload_size c = 1350" by (auto simp: Config_new_def MAX_SEND_UDP_PAYLOAD_SIZE_def)
  then have "\<exists>r1. Recovery_new_v1 c = Some r1"
    by (simp add: Recovery_new_v1_def new_with_config_v1_def RecoveryConfig_from_config_v1_def win_consts)
  with c Recovery_new_eq [OF m] that show thesis by blast
qed

theorem controllers_without_loss_witness:
  "\<exists>c r1 r. Config_new = Ok c \<and> Recovery_new_v1 c = Some r1 \<and> Recovery_new c = Some r \<and>
     map_option fst (Option.bind (reports update_win_v1 (clean_reports [8, 3]) r1) cwnd_v1) = Some 26400 \<and>
     map_option fst (Option.bind (reports update_win (clean_reports [8, 3]) r) cwnd) = Some 38400"
proof -
  obtain c r1 r where o: "Config_new = Ok c" "Recovery_new_v1 c = Some r1" "Recovery_new c = Some r" by (rule both_open)
  with controllers_without_loss [OF o(2,3), of "[8, 3]"] show ?thesis by (intro exI [of _ c] exI [of _ r1] exI [of _ r]) simp
qed

section \<open>The break-even point\<close>

text \<open>
  (C31) The curve of the earlier controller has one break-even point, in spite of its rounded arithmetic: with
  \<open>k\<close> and the number of packets not negative, a report whose loss weight is below \<open>k * num / 8\<close> never adds
  to the decrements, and any other report never adds to the increments.  With \<open>k = 1.2\<close> the point is 0.15 per
  packet, the weight of a lost packet of the lowest priority.
\<close>

theorem break_even_v1:
  assumes "update_win_v1 w num r = Some r'" and "\<not> fl_lt (rec_k r) (Fin 0)" and "\<not> fl_lt num (Fin 0)"
  shows "(fl_lt w (break_even (rec_k r) num) \<longrightarrow> decre_win r' = decre_win r) \<and>
     (\<not> fl_lt w (break_even (rec_k r) num) \<longrightarrow> incre_win r' = incre_win r) \<and>
     congestion_window r' = congestion_window r \<and> former_win r' = former_win r"
proof -
  have s: "notneg (rec_k r)" "notneg num" using assms(2,3) by (simp_all add: notneg_def)
  have "former_win r' = former_win r"
    using assms(1) by (auto simp: update_win_v1_counters Let_def split: if_splits)
  with rw1.upd_Some [OF assms(1)] winadd_v1_sign [OF s] show ?thesis
    by (simp add: gained_notpos forfeited_notneg)
qed

theorem break_even_v1_witness:
  "\<exists>c r r'. Recovery_new_v1 c = Some r \<and> update_win_v1 (Fin 0) (Fin 8) r = Some r' \<and> decre_win r' = decre_win r"
proof -
  obtain c r1 r where o: "Config_new = Ok c" "Recovery_new_v1 c = Some r1" "Recovery_new c = Some r" by (rule both_open)
  note f = fresh_v1 [OF o(2)]
  obtain r' where u: "update_win_v1 (Fin 0) (Fin 8) r1 = Some r'"
    using f by (simp add: update_win_v1_counters Let_def winadd_v1_clean gained_def)
  have "break_even k_v1 (Fin 8) = k_v1" unfolding k_v1_def by code_simp
  then have "fl_lt (Fin 0) (break_even (rec_k r1) (Fin 8))" using f by (simp add: k_v1_def)
  with break_even_v1 [OF u] f have "decre_win r' = decre_win r1" by (simp add: k_v1_def)
  with o u show ?thesis by blast
qed

section \<open>Rolling back\<close>

text \<open>
  (C32) What the earlier controller rolls back to.  After a round with the reports \<open>xs\<close>, in which nothing was
  forfeited, \<open>rollback\<close> returns twice what they gained, the value before the floor of 9600 bytes is applied, and not
  the window of that round, which \<open>cwnd\<close> returned: it returns less than that window exactly when less than 4800 bytes were
  gained, and nothing at all after a round without reports, such as the first call of \<open>cwnd\<close> on a new controller.  When
  anything was forfeited in the round, \<open>rollback\<close> returns what it would have returned before the round.
\<close>

theorem rollback_to_clean_round:
  assumes "reports update_win_v1 xs r = Some r1" and "cwnd_v1 r1 = Some (w, r2)"
  shows "rollback_v1 r2 =
     (let f = (if decre_win r = 0 \<and> (\<forall>(v, n) \<in> set xs. forfeited (winadd_v1 (rec_k r) (max_datagram_size r) v n) = 0)
               then 2 * (incre_win r + (\<Sum>(v, n) \<leftarrow> xs. gained (winadd_v1 (rec_k r) (max_datagram_size r) v n)))
               else fst (rollback_v1 r))
      in (f, r2\<lparr>congestion_window := f\<rparr>)) \<and>
   (decre_win r = 0 \<and> (\<forall>(v, n) \<in> set xs. forfeited (winadd_v1 (rec_k r) (max_datagram_size r) v n) = 0) \<longrightarrow>
      w = max 9600 (fst (rollback_v1 r2)) \<and>
      (fst (rollback_v1 r2) < w \<longleftrightarrow> incre_win r + (\<Sum>(v, n) \<leftarrow> xs. gained (winadd_v1 (rec_k r) (max_datagram_size r) v n)) < 4800))"
proof -
  let ?v = "winadd_v1 (rec_k r) (max_datagram_size r)"
  define up down where "up = incre_win r + worth gained ?v xs" and "down = decre_win r + worth forfeited ?v xs"
  have old: "former_win r1 = former_win r"
    using assms(1)
  proof (induction xs arbitrary: r)
    case (Cons x xs)
    then obtain r' where "update_win_v1 (fst x) (snd x) r = Some r'" "reports update_win_v1 xs r' = Some r1"
      by (auto simp: bind_eq_Some_conv)
    moreover from this(1) have "former_win r' = former_win r"
      by (auto simp: update_win_v1_counters Let_def split: if_splits)
    ultimately show ?case using Cons.IH by simp
  qed simp
  have r1: "incre_win r1 = up" "decre_win r1 = down"
    using rw1.reports_Some [OF assms(1)] by (simp_all add: up_def down_def)
  have clean: "decre_win r = 0 \<and> (\<forall>(w, n) \<in> set xs. forfeited (?v w n) = 0) \<longleftrightarrow> down = 0"
    by (auto simp: down_def worth_def)
  have gain: "incre_win r + (\<Sum>(v, n) \<leftarrow> xs. gained (?v v n)) = up" by (simp add: up_def worth_def case_prod_beta')
  have w: "w = max 9600 (2 * up - down)" "former_win r2 = (if down = 0 then 2 * up else former_win r)"
    using assms(2) by (simp_all add: cwnd_v1_eq_Some r1 old)
  show ?thesis unfolding clean gain by (auto simp: rollback_v1_def w Let_def)
qed

theorem rollback_to_clean_round_witness:
  "\<exists>c r r1 w r2. Recovery_new_v1 c = Some r \<and> reports update_win_v1 (clean_reports [8]) r = Some r1 \<and>
     cwnd_v1 r1 = Some (w, r2) \<and> w = 19200 \<and> fst (rollback_v1 r2) = 19200 \<and>
     (\<exists>r3. cwnd_v1 r = Some (9600, r3) \<and> fst (rollback_v1 r3) = 0)"
proof -
  obtain c r0 r where o: "Config_new = Ok c" "Recovery_new_v1 c = Some r" "Recovery_new c = Some r0" by (rule both_open)
  note f = fresh_v1 [OF o(2)]
  have "reports update_win_v1 (clean_reports [8]) r = Some (r\<lparr>incre_win := 9600\<rparr>)"
    using f by (simp add: clean_reports_def update_win_v1_counters Let_def winadd_v1_clean gained_def)
  moreover obtain w r2 where "cwnd_v1 (r\<lparr>incre_win := 9600\<rparr>) = Some (w, r2)" by (simp add: cwnd_v1_eq_Some)
  moreover have "fst (rollback_v1 r2) = 19200 \<and> w = 19200"
    using rollback_to_clean_round [OF calculation] f
    by (simp add: clean_reports_def winadd_v1_clean gained_def forfeited_def)
  moreover obtain r3 where r3: "cwnd_v1 r = Some (9600, r3)" using f by (simp add: cwnd_v1_eq_Some)
  moreover have "fst (rollback_v1 r3) = 0"
    using rollback_to_clean_round [of "[]" r r, OF _ r3] f by simp
  ultimately show ?thesis using o(2) by blast
qed

end
