(* ===== verification/Spec2Isabelle.thy ===== *)
theory Spec2Isabelle
  imports Lossy Typing Ffi Recovery_V1
begin

text \<open>
  A verification library for \<^bold>\<open>dmludp\<close>, a Rust implementation of an unreliable-but-prioritised
  transport for machine-learning parameters over UDP (\<open>src/\<close>).

  \<^bold>\<open>The program.\<close>  One endpoint, opened with \<open>accept\<close>, holds parameters as bytes, cut into blocks of 1024 bytes
  with a priority each.  It sends them in rounds: \<open>send_all\<close> asks the congestion controller for a window and
  fills the send buffer up to it, \<open>send_data\<close> is called for one packet after the other, \<open>Application\<close> packets
  with an \<open>ElictAck\<close> after every eighth and at the end of the round, and \<open>recv_slice\<close> digests the \<open>ACK\<close> packets that
  come back: chunks reported as received, or whose retransmission budget is used up, leave the send
  buffer at the start of the next round, the losses shape the next window.  The other endpoint, opened with
  \<open>connect\<close>, stores payloads in the receive buffer, answers each \<open>ElictAck\<close> with an \<open>ACK\<close> and is read by the
  application.  A \<open>Handshake\<close> exchange measures the round-trip time first.

  \<^bold>\<open>Conventions.\<close>  A panic is \<open>None\<close> (arithmetic checks for overflow, as a debug build does; index, slice and
  \<open>unwrap\<close> failures; \<open>assert\<close>).  An operation that returns \<open>Result\<close> and changes \<open>self\<close> returns the result and the new state, so that
  an early error keeps what was changed before it.  \<open>usize\<close> and \<open>u64\<close> quantities are natural numbers below
  \<open>lim64 = 2^64\<close> where arithmetic is done on them, and words where bits are.  \<open>f32\<close> and \<open>f64\<close> are IEEE 754 numbers with their
  roundings.  Time, the iteration order of \<open>HashMap\<close> and the byte order of the host are arguments.  The cursor
  of the external crate \<open>octets\<close> is a parameter with its documented behaviour as a locale.

  \<^bold>\<open>The theories.\<close>
  \<^item> \<open>Rust_Prelude\<close>: checked arithmetic, slices, chunks, big-endian integers.  \<open>Collections\<close>: \<open>HashMap\<close>, \<open>BTreeMap\<close> and
    \<open>BTreeSet\<close>, the maps through the locales \<open>rust_map\<close> and \<open>ordered_map\<close>.  \<open>Octets\<close>: the locale \<open>octets_spec\<close> of the
    cursor, interpreted on lists.  \<open>Ieee\<close>: floating-point numbers and the signs of rounded results.  \<open>Window\<close>: the locale
    \<open>window_controller\<close>, what a round's acknowledgements are worth.
  \<^item> \<open>Errors\<close>, \<open>Config\<close>: \<open>Error\<close>, \<open>Result\<close>, the C codes; \<open>Config\<close>, the algorithm names, addresses.
  \<^item> \<open>Packet\<close> (\<open>packet.rs\<close>): the header codec, a round trip and a total decoder; packet number
    spaces and the retransmission record.
  \<^item> \<open>Recovery\<close> (\<open>recovery/mod.rs\<close>, \<open>recovery/NewCubic.rs\<close>): the congestion controller as a state machine; the window after
    any reports, its bounds, what a rollback returns.  \<open>Recovery_V1\<close>
    (\<open>recovery/modv1.rs\<close>): the earlier version of the controller, which no \<open>mod\<close> declaration names; the break-even point of
    its curve, its rollback, and when the two versions agree.  Both interpret \<open>window_controller\<close>.
  \<^item> \<open>Range_Buf\<close>, \<open>Send_Buf\<close>, \<open>Recv_Buf\<close> (\<open>lib.rs\<close>): the buffers.  The send buffer implements the abstract queue of
    the locale \<open>retransmit_queue\<close>: flags and chunks stay in step under all its operations, \<open>clear\<close> and \<open>reset\<close> of a queue with
    chunks in it excepted, marks are dropped exactly, a write fills the window, a round emits each chunk once.  The receive buffer is
    independent of the order of arrival; its reads are safe on readable buffers, and where
    the code deviates is shown.
  \<^item> \<open>Connection\<close> (\<open>lib.rs\<close>): the state and every operation of an endpoint.  \<open>Receiver\<close>: what each received packet does, in
    closed form, and when it panics.  \<open>Sender\<close>, \<open>Sending\<close>: the invariant \<open>snd_inv\<close> of the sending side over all the calls of a
    transfer, from loading the data to \<open>reset\<close> or the next loading (\<open>snd_reachable\<close>); what \<open>ElictAck\<close> and \<open>Application\<close> packets contain, budgets, stopping.  \<open>Round\<close>: a round ends after a bounded number
    of calls.
  \<^item> \<open>Protocol\<close>, \<open>Network\<close>: two endpoints over a network that loses, duplicates and reorders datagrams, as a step
    relation with an invariant: received data are intact; the data taken into the send buffer is cut into chunks, each of which is
    queued, in the receive buffer with its bytes, read, or was sent as often as its budget allows; and the handshake
    completes.  A ghost field of the system, \<open>taken\<close>, remembers the chunks that reads remove from the receive buffer.
  \<^item> \<open>Rounding\<close>, \<open>Credit\<close>: the accuracy of IEEE rounding as a calculus of absolute errors, and with it what every
    acknowledgement is worth to the congestion controller, whatever it reports as lost.
  \<^item> \<open>Feedback\<close>, \<open>Exchange\<close>, \<open>Delivery\<close>, \<open>Lossy\<close>: the two endpoints in turn.  The loop \<open>relay\<close> is the one of the programs that use
    the library: a datagram is sent, received unless it is one of a set of lost application packets, and answered when
    \<open>send_ack\<close> asks for it.  A report and its answer; a round, in which any chunks may be lost, ends, delivers what
    arrived, and keeps in the queue exactly what has to be sent again; and over a network that loses nothing a transfer,
    from opening to the end of the data, takes at most one round for every 9600 bytes.  Over a network that loses any
    application packets a transfer ends too: the budgets of the chunks bound the number of rounds, and at the end every
    byte has been delivered or was lost as often as its priority lets the sender try.  Every turn of \<open>relay\<close> is a run of the
    system of \<open>Network\<close>.
  \<^item> \<open>Loading\<close> (\<open>lib.rs\<close>): \<open>data_send\<close> and \<open>process_string\<close>, from text to bytes, norms and split points; what goes wrong when
    a connection is reset and loaded again.
  \<^item> \<open>Typing\<close>: the public functions of an endpoint as a step relation, with any arguments in any order, and the
    invariant that every counter, offset, size and map entry of its state fits the type of its field: where the model counts
    in natural numbers nothing can leave the range the code has.
  \<^item> \<open>Ffi\<close> (\<open>ffi.rs\<close>): the C interface: addresses, configuration, result codes.

  \<^bold>\<open>Bounds and fuel.\<close>  No definition needs fuel: loops are structural, or recursive with a measure.  The one exception
  is \<open>check_loss_loop\<close>, whose progress depends on the cursor; it is a partial function, and
  \<open>check_loss_eq\<close> shows that it returns exactly on whole words.  Hypotheses such as \<open>recv_count c + 2 < lim64\<close> exclude the
  overflow of counters after \<open>2^64\<close> packets; \<open>room\<close> and \<open>lossy_room\<close> collect them for a round and a transfer, with what
  a report can add to the counters of the controller at most.  Output buffers of 1350 bytes are the size the code asks for.

  \<^bold>\<open>Not modelled.\<close>  Output on the console and \<open>Debug\<close> formatting; the functions of \<open>ffi.rs\<close> that do not compile
  (\<open>quiche_conn_send\<close>, \<open>quiche_header_info\<close>, \<open>quiche_dada_send\<close>) and those that only free memory;
  the C++ programs and their event loops.
\<close>

section \<open>A second transfer\<close>

text \<open>
  A connection that has sent three bytes and had them acknowledged, is reset and loaded with 255 numbers: what it
  queues at offset 0 are the new data from byte 3 on.
\<close>

theorem reload_shifts_offsets_witness:
  "\<exists>c c' c'' cs w. snd_reachable list_octets id c \<and> written_data c = 3 \<and> 0 < w \<and>
     data_send True (demo_array 255) (Connection_reset c) = Some c' \<and> send_all 30 c' = Some (Ok True, c'') \<and>
     cs \<noteq> [] \<and> sb_view (send_buffer c'') = at_offsets 0 cs \<and> concat cs = take w (drop 3 (data_to_send c'))"
proof -
  obtain s ch where s: "(sys_step list_octets id)\<^sup>*\<^sup>* (sys_init [1, 2, 3] [Fin 1] (Fin 0) (Fin 0)) s" "written_data (snder s) = 3"
    "sb_data (send_buffer (snder s)) = []" and w: "\<exists>w r. round_window (snder s) = Some (w, r) \<and> 0 < w" by (rule demo_delivered)
  define c where "c = snder s"
  have c: "snd_reachable list_octets id c" "written_data c = 3" "sb_data (send_buffer c) = []"
    using sys_sender_reachable [OF _ s(1)] s(2,3) by (simp_all add: c_def)
  obtain w r where w: "round_window c = Some (w, r)" "0 < w" using w unfolding c_def by blast
  obtain c' where c': "data_send True (demo_array 255) (Connection_reset c) = Some c'" "length (data_to_send c') = 1020"
    using demo_load by blast
  have len: "length (data_to_send c') < lim64" "written_data c < length (data_to_send c')" using c(2) c'(2) by simp_all
  from reload_shifts_offsets [OF list_oc.octets_spec_axioms c(1,3) c'(1) len w, of 30] obtain c'' cs
    where "send_all 30 c' = Some (Ok True, c'')" "cs \<noteq> []" "sb_view (send_buffer c'') = at_offsets 0 cs"
      "concat cs = take w (drop 3 (data_to_send c'))" unfolding c(2) by (elim exE conjE) (rule that)
  then show ?thesis
    using c c'(1) w(2) by - (rule exI [of _ c], rule exI [of _ c'], rule exI [of _ c''], rule exI [of _ cs], rule exI [of _ w], simp)
qed

end
